(* ===== verification/Prelude.thy ===== *)
theory Prelude
  imports Main "HOL-Library.Word" "HOL-Library.Multiset" "HOL-Library.List_Lexorder"
    "HOL-Library.Product_Lexorder" "HOL-Library.Code_Target_Nat"
begin

text \<open>
  Shared vocabulary of the development: the machine integers of Rust, the three ways a Rust call
  can end, ordered maps, big-endian byte strings, and the two generic locales the components
  instantiate (a transition system with an invariant, a codec that keeps the order of its values).

  Unsigned integers are words. Signed integers are a datatype over words, ordered by their two's
  complement value, so that a value of the type is always in range. A \<open>usize\<close> counter is a natural
  number and the operations that could leave 64 bits say so.
\<close>

unbundle bit_operations_syntax

named_theorems codec_simps \<open>byte layout of keys and values\<close>
named_theorems bt_simps \<open>lookup and membership laws of ordered maps\<close>

section \<open>Machine integers\<close>

type_synonym u8 = "8 word"
type_synonym u16 = "16 word"
type_synonym u32 = "32 word"
type_synonym u64 = "64 word"
type_synonym u128 = "128 word"
type_synonym usize = nat
type_synonym bytes = "u8 list"

definition usize_max :: nat where
  "usize_max = 2 ^ 64 - 1"

definition usize_checked_add :: "usize \<Rightarrow> usize \<Rightarrow> usize option" where
  "usize_checked_add a b = (if a + b \<le> usize_max then Some (a + b) else None)"

definition checked_add_w :: "'a::len word \<Rightarrow> 'a word \<Rightarrow> 'a word option" where
  "checked_add_w a b = (if unat a + unat b < 2 ^ LENGTH('a) then Some (a + b) else None)"

lemma unat_less: "unat (w :: 'a::len word) < 2 ^ LENGTH('a)"
  by (rule unsigned_less)

lemma checked_add_w_Some:
  "checked_add_w a b = Some c \<longleftrightarrow> unat c = unat a + unat b"
proof -
  have "unat a + unat b < 2 ^ LENGTH('a) \<Longrightarrow> unat (a + b) = unat a + unat b"
    by (simp add: unat_word_ariths)
  moreover have "unat c = unat a + unat b \<Longrightarrow> unat a + unat b < 2 ^ LENGTH('a)"
    by (metis unsigned_less)
  ultimately show ?thesis
    by (auto simp: checked_add_w_def unsigned_word_eqI word_unat_eq_iff)
qed

lemma checked_add_w_1_None: "checked_add_w a 1 = None \<longleftrightarrow> a = (- 1 :: 'a::len word)"
proof -
  have lt: "unat a < 2 ^ LENGTH('a)" by (rule unsigned_less)
  have "unat (- 1 :: 'a word) = 2 ^ LENGTH('a) - 1" by (simp add: unsigned_minus_1_eq_mask mask_eq_exp_minus_1)
  then have "a = - 1 \<longleftrightarrow> unat a = 2 ^ LENGTH('a) - 1" by (metis unsigned_word_eqI)
  moreover have "Suc (unat a) < 2 ^ LENGTH('a) \<longleftrightarrow> unat a \<noteq> 2 ^ LENGTH('a) - 1"
    using lt by linarith
  ultimately show ?thesis by (simp add: checked_add_w_def)
qed

subsection \<open>Signed integers\<close>

text \<open>
  The order of \<open>i64\<close> values matters in ordered maps and sort keys, so \<open>i64\<close> is a type of its own.
  The few \<open>i32\<close> and \<open>i128\<close> values are words read with \<open>sint\<close>.
\<close>

datatype i64 = I64 u64

fun bits :: "i64 \<Rightarrow> u64" where
  "bits (I64 w) = w"

definition ival :: "i64 \<Rightarrow> int" where
  "ival x = sint (bits x)"

definition of_ival :: "int \<Rightarrow> i64" where
  "of_ival i = I64 (word_of_int i)"

definition in_i64 :: "int \<Rightarrow> bool" where
  "in_i64 i \<longleftrightarrow> - (2 ^ 63) \<le> i \<and> i < 2 ^ 63"

lemma bits_inject: "bits x = bits y \<longleftrightarrow> x = y"
  by (cases x; cases y) simp

lemma ival_inject [simp]: "ival x = ival y \<longleftrightarrow> x = y"
  by (metis ival_def bits_inject signed_word_eqI)

lemma ival_range [simp, intro]: "in_i64 (ival x)"
  using sint_greater_eq [of "bits x"] sint_less [of "bits x"]
  by (simp add: in_i64_def ival_def)

lemma ival_bounds: "- (2 ^ 63) \<le> ival x" "ival x < 2 ^ 63"
  using ival_range [of x] by (simp_all add: in_i64_def)

lemma ival_of_ival [simp]:
  assumes "in_i64 i"
  shows "ival (of_ival i) = i"
proof -
  have "signed_take_bit 63 i = i"
    using assms by (intro signed_take_bit_int_eq_self) (auto simp: in_i64_def)
  then show ?thesis by (simp add: ival_def of_ival_def sint_sbintrunc')
qed

lemma of_ival_ival [simp]: "of_ival (ival x) = x"
  by (cases x) (simp add: ival_def of_ival_def)

instantiation i64 :: linorder
begin

definition less_eq_i64 :: "i64 \<Rightarrow> i64 \<Rightarrow> bool" where
  "less_eq_i64 x y \<longleftrightarrow> ival x \<le> ival y"

definition less_i64 :: "i64 \<Rightarrow> i64 \<Rightarrow> bool" where
  "less_i64 x y \<longleftrightarrow> ival x < ival y"

instance
  by standard (auto simp: less_eq_i64_def less_i64_def)

end

lemmas i64_order = less_eq_i64_def less_i64_def

instantiation i64 :: zero
begin

definition zero_i64 :: i64 where
  "zero_i64 = I64 0"

instance ..

end

instantiation i64 :: one
begin

definition one_i64 :: i64 where
  "one_i64 = I64 1"

instance ..

end

lemma ival_zero [simp]: "ival 0 = 0"
  by (simp add: ival_def zero_i64_def)

lemma ival_one [simp]: "ival 1 = 1"
  by (simp add: ival_def one_i64_def)

lemma ival_eq_0 [simp]: "ival x = 0 \<longleftrightarrow> x = 0"
  by (metis ival_inject ival_zero)

lemma ival_max [simp]: "ival (max x y) = max (ival x) (ival y)"
  by (simp add: max_def i64_order)

lemma ival_min [simp]: "ival (min x y) = min (ival x) (ival y)"
  by (simp add: min_def i64_order)

text \<open>
  \<open>checked_add\<close>, \<open>checked_sub\<close> and \<open>checked_mul\<close> of Rust: \<open>None\<close> when the exact result leaves the
  type. The plain operators panic in the same case, since every build profile of the workspace
  keeps overflow checks on.
\<close>

definition i64_checked :: "int \<Rightarrow> i64 option" where
  "i64_checked i = (if in_i64 i then Some (of_ival i) else None)"

definition i64_checked_add :: "i64 \<Rightarrow> i64 \<Rightarrow> i64 option" where
  "i64_checked_add x y = i64_checked (ival x + ival y)"

definition i64_checked_sub :: "i64 \<Rightarrow> i64 \<Rightarrow> i64 option" where
  "i64_checked_sub x y = i64_checked (ival x - ival y)"

definition i64_checked_mul :: "i64 \<Rightarrow> i64 \<Rightarrow> i64 option" where
  "i64_checked_mul x y = i64_checked (ival x * ival y)"

lemma i64_checked_Some: "i64_checked i = Some x \<longleftrightarrow> i = ival x"
  by (auto simp: i64_checked_def)

lemma i64_checked_None: "i64_checked i = None \<longleftrightarrow> \<not> in_i64 i"
  by (simp add: i64_checked_def)

lemma i64_checked_add_Some: "i64_checked_add x y = Some z \<longleftrightarrow> ival z = ival x + ival y"
  by (auto simp: i64_checked_add_def i64_checked_Some)

lemma i64_checked_add_None: "i64_checked_add x y = None \<longleftrightarrow> \<not> in_i64 (ival x + ival y)"
  by (simp add: i64_checked_add_def i64_checked_None)

lemma i64_checked_add_0 [simp]: "i64_checked_add x 0 = Some x" "i64_checked_add 0 x = Some x"
  by (simp_all add: i64_checked_add_Some)

lemma i64_checked_add_commute: "i64_checked_add x y = i64_checked_add y x"
  by (simp add: i64_checked_add_def add.commute)

lemma of_ival_eq: "in_i64 i \<Longrightarrow> in_i64 j \<Longrightarrow> of_ival i = of_ival j \<longleftrightarrow> i = j"
  by (metis ival_of_ival)

lemma of_ival_eq_0: "in_i64 i \<Longrightarrow> of_ival i = 0 \<longleftrightarrow> i = 0"
  by (metis ival_of_ival ival_eq_0)

text \<open>Evaluation of signed arithmetic on literals.\<close>

lemmas i64_eval = in_i64_def of_ival_eq of_ival_eq_0 i64_checked_def i64_checked_add_def
  i64_checked_sub_def i64_checked_mul_def i64_order

section \<open>How a call ends\<close>

text \<open>
  A Rust call returns \<open>Ok\<close> or \<open>Err\<close>, or unwinds. \<open>Panic\<close> stands for the last: a failed \<open>assert!\<close>,
  an \<open>expect\<close> on \<open>None\<close>, an arithmetic overflow.
\<close>

datatype ('e, 'a) result = Ok 'a | Err 'e | Panic

fun rbind :: "('e, 'a) result \<Rightarrow> ('a \<Rightarrow> ('e, 'b) result) \<Rightarrow> ('e, 'b) result" where
  "rbind (Ok x) f = f x"
| "rbind (Err e) f = Err e"
| "rbind Panic f = Panic"

fun ok_or :: "'e \<Rightarrow> 'a option \<Rightarrow> ('e, 'a) result" where
  "ok_or e None = Err e"
| "ok_or e (Some x) = Ok x"

fun expect :: "'a option \<Rightarrow> ('e, 'a) result" where
  "expect None = Panic"
| "expect (Some x) = Ok x"

fun is_ok :: "('e, 'a) result \<Rightarrow> bool" where
  "is_ok (Ok _) = True"
| "is_ok _ = False"

fun map_err :: "('e \<Rightarrow> 'f) \<Rightarrow> ('e, 'a) result \<Rightarrow> ('f, 'a) result" where
  "map_err f (Ok x) = Ok x"
| "map_err f (Err e) = Err (f e)"
| "map_err f Panic = Panic"

fun res_ok :: "('e, 'a) result \<Rightarrow> 'a option" where
  "res_ok (Ok x) = Some x"
| "res_ok _ = None"

lemma map_err_Ok [simp]: "map_err f r = Ok x \<longleftrightarrow> r = Ok x"
  by (cases r) auto

lemma res_ok_Some [simp]: "res_ok r = Some x \<longleftrightarrow> r = Ok x"
  by (cases r) auto

lemma is_ok_iff: "is_ok r \<longleftrightarrow> (\<exists>x. r = Ok x)"
  by (cases r) auto

lemma rbind_Ok: "rbind r f = Ok y \<longleftrightarrow> (\<exists>x. r = Ok x \<and> f x = Ok y)"
  by (cases r) auto

lemma rbind_Err: "rbind r f = Err e \<longleftrightarrow> r = Err e \<or> (\<exists>x. r = Ok x \<and> f x = Err e)"
  by (cases r) auto

lemma rbind_Panic: "rbind r f = Panic \<longleftrightarrow> r = Panic \<or> (\<exists>x. r = Ok x \<and> f x = Panic)"
  by (cases r) auto

lemma ok_or_Ok [simp]: "ok_or e o' = Ok x \<longleftrightarrow> o' = Some x"
  by (cases o') auto

lemma ok_or_Err [simp]: "ok_or e o' = Err e' \<longleftrightarrow> o' = None \<and> e' = e"
  by (cases o') auto

lemma ok_or_no_Panic [simp]: "ok_or e o' \<noteq> Panic"
  by (cases o') auto

lemma expect_Ok [simp]: "expect o' = Ok x \<longleftrightarrow> o' = Some x"
  by (cases o') auto

lemmas result_cases = rbind_Ok rbind_Err rbind_Panic

text \<open>A loop that stops at the first failure, as a map and as a fold.\<close>

fun rmap :: "('a \<Rightarrow> ('e, 'b) result) \<Rightarrow> 'a list \<Rightarrow> ('e, 'b list) result" where
  "rmap f [] = Ok []"
| "rmap f (x # xs) = rbind (f x) (\<lambda>y. rbind (rmap f xs) (\<lambda>ys. Ok (y # ys)))"

fun rfold :: "('a \<Rightarrow> 's \<Rightarrow> ('e, 's) result) \<Rightarrow> 'a list \<Rightarrow> 's \<Rightarrow> ('e, 's) result" where
  "rfold f [] s = Ok s"
| "rfold f (x # xs) s = rbind (f x s) (rfold f xs)"

lemma rmap_Ok: "rmap f xs = Ok ys \<longleftrightarrow> list_all2 (\<lambda>x y. f x = Ok y) xs ys"
  by (induction xs arbitrary: ys) (auto simp: rbind_Ok list_all2_Cons1)

lemma rmap_length: "rmap f xs = Ok ys \<Longrightarrow> length ys = length xs"
  by (auto simp: rmap_Ok dest: list_all2_lengthD)

lemma rmap_not_Panic: "(\<And>x. x \<in> set xs \<Longrightarrow> f x \<noteq> Panic) \<Longrightarrow> rmap f xs \<noteq> Panic"
  by (induction xs) (auto simp: rbind_Panic)

section \<open>Ordered maps\<close>

text \<open>
  A \<open>BTreeMap\<close> is the list of its entries in key order, which is the order in which Rust iterates
  over it. A \<open>HashMap\<close> is represented in the same way; where its iteration order shows in a result,
  the statements about that result do not depend on it.
\<close>

type_synonym ('k, 'v) omap = "('k \<times> 'v) list"

abbreviation bt_get :: "('k, 'v) omap \<Rightarrow> 'k \<Rightarrow> 'v option" where
  "bt_get \<equiv> map_of"

abbreviation bt_keys :: "('k, 'v) omap \<Rightarrow> 'k list" where
  "bt_keys m \<equiv> map fst m"

abbreviation bt_values :: "('k, 'v) omap \<Rightarrow> 'v list" where
  "bt_values m \<equiv> map snd m"

fun bt_insert :: "'k::linorder \<Rightarrow> 'v \<Rightarrow> ('k, 'v) omap \<Rightarrow> ('k, 'v) omap" where
  "bt_insert k v [] = [(k, v)]"
| "bt_insert k v (e # m) =
     (if fst e < k then e # bt_insert k v m
      else (k, v) # (if fst e = k then m else e # m))"

definition bt_remove :: "'k \<Rightarrow> ('k, 'v) omap \<Rightarrow> ('k, 'v) omap" where
  "bt_remove k m = filter (\<lambda>e. fst e \<noteq> k) m"

definition bt_contains :: "('k, 'v) omap \<Rightarrow> 'k \<Rightarrow> bool" where
  "bt_contains m k \<longleftrightarrow> bt_get m k \<noteq> None"

text \<open>\<open>append\<close> and \<open>extend\<close>: the entries of the second map overwrite those of the first.\<close>

definition bt_append :: "('k::linorder, 'v) omap \<Rightarrow> ('k, 'v) omap \<Rightarrow> ('k, 'v) omap" where
  "bt_append m n = fold (\<lambda>(k, v). bt_insert k v) n m"

definition bt_ok :: "('k::linorder, 'v) omap \<Rightarrow> bool" where
  "bt_ok m \<longleftrightarrow> sorted_wrt (<) (bt_keys m)"

definition bt_sum :: "('v \<Rightarrow> 'n::comm_monoid_add) \<Rightarrow> ('k, 'v) omap \<Rightarrow> 'n" where
  "bt_sum f m = sum_list (map f (bt_values m))"

lemma bt_get_insert [simp, bt_simps]: "bt_get (bt_insert k v m) = (bt_get m)(k \<mapsto> v)"
  by (induction m) (auto simp: fun_upd_twist)

lemma bt_get_remove [simp, bt_simps]: "bt_get (bt_remove k m) = (bt_get m)(k := None)"
  by (induction m) (auto simp: bt_remove_def fun_eq_iff)

lemma bt_keys_insert [simp, bt_simps]: "fst ` set (bt_insert k v m) = insert k (fst ` set m)"
  by (induction m) auto

lemma bt_keys_remove [simp, bt_simps]: "fst ` set (bt_remove k m) = fst ` set m - {k}"
  by (auto simp: bt_remove_def)

lemma bt_contains_iff [bt_simps]: "bt_contains m k \<longleftrightarrow> k \<in> fst ` set m"
  by (auto simp: bt_contains_def map_of_eq_None_iff)

lemma bt_ok_Nil [simp, intro]: "bt_ok []"
  by (simp add: bt_ok_def)

lemma bt_ok_Cons: "bt_ok (e # m) \<longleftrightarrow> (\<forall>k \<in> fst ` set m. fst e < k) \<and> bt_ok m"
  by (simp add: bt_ok_def)

lemma bt_ok_insert [simp, intro]: "bt_ok m \<Longrightarrow> bt_ok (bt_insert k v m)"
  by (induction m) (auto simp: bt_ok_Cons)

lemma bt_ok_remove [simp, intro]: "bt_ok m \<Longrightarrow> bt_ok (bt_remove k m)"
  by (induction m) (auto simp: bt_ok_Cons bt_remove_def)

lemma bt_ok_filter: "bt_ok m \<Longrightarrow> bt_ok (filter P m)"
  by (induction m) (auto simp: bt_ok_Cons)

lemma bt_ok_distinct: "bt_ok m \<Longrightarrow> distinct (bt_keys m)"
  by (simp add: bt_ok_def strict_sorted_iff)

lemma bt_get_in_set: "bt_ok m \<Longrightarrow> bt_get m k = Some v \<longleftrightarrow> (k, v) \<in> set m"
  by (simp add: bt_ok_distinct)

lemma bt_mset_insert:
  "bt_get m k = None \<Longrightarrow> mset (bt_insert k v m) = add_mset (k, v) (mset m)"
  by (induction m) (auto simp: map_of_eq_None_iff)

lemma bt_remove_absent: "bt_get m k = None \<Longrightarrow> bt_remove k m = m"
  by (auto simp: bt_remove_def filter_id_conv map_of_eq_None_iff)

lemma bt_mset_remove:
  "bt_ok m \<Longrightarrow> bt_get m k = Some v \<Longrightarrow> mset m = add_mset (k, v) (mset (bt_remove k m))"
proof (induction m)
  case Nil
  then show ?case by simp
next
  case (Cons e m)
  show ?case
  proof (cases "fst e = k")
    case True
    with Cons.prems have "bt_get m k = None" "snd e = v"
      by (auto simp: bt_ok_Cons map_of_eq_None_iff)
    moreover have "bt_remove k (e # m) = bt_remove k m"
      using True by (simp add: bt_remove_def)
    ultimately show ?thesis
      using True bt_remove_absent [of m k] by auto
  next
    case False
    with Cons show ?thesis by (auto simp: bt_remove_def bt_ok_Cons)
  qed
qed

lemma bt_sum_mset: "bt_sum f m = sum_mset (image_mset (\<lambda>e. f (snd e)) (mset m))"
  by (simp add: bt_sum_def comp_def flip: sum_mset_sum_list mset_map)

lemma bt_sum_Nil [simp]: "bt_sum f [] = 0"
  by (simp add: bt_sum_def)

lemma bt_sum_insert_new [simp]:
  "bt_get m k = None \<Longrightarrow> bt_sum f (bt_insert k v m) = f v + bt_sum f m"
  by (simp add: bt_sum_mset bt_mset_insert)

lemma bt_sum_remove:
  assumes "bt_ok m" "bt_get m k = Some v"
  shows "bt_sum f m = f v + bt_sum f (bt_remove k m)"
  using bt_mset_remove [OF assms] by (simp add: bt_sum_mset)

lemma bt_length_insert_new: "bt_get m k = None \<Longrightarrow> length (bt_insert k v m) = Suc (length m)"
  by (metis bt_mset_insert size_add_mset size_mset)

lemma bt_insert_overwrite:
  "bt_ok m \<Longrightarrow> mset (bt_insert k v m) = add_mset (k, v) (mset (bt_remove k m))"
proof (induction m)
  case Nil
  then show ?case by (simp add: bt_remove_def)
next
  case (Cons e m)
  have absent: "fst e \<noteq> k \<longrightarrow> \<not> fst e < k \<longrightarrow> bt_remove k m = m"
    using Cons.prems by (intro impI bt_remove_absent) (auto simp: bt_ok_Cons map_of_eq_None_iff)
  have same: "fst e = k \<longrightarrow> bt_remove k m = m"
    using Cons.prems by (intro impI bt_remove_absent) (auto simp: bt_ok_Cons map_of_eq_None_iff)
  from Cons absent same show ?case
    by (auto simp: bt_remove_def bt_ok_Cons)
qed

lemma bt_sum_insert: "bt_ok m \<Longrightarrow> bt_sum f (bt_insert k v m) = f v + bt_sum f (bt_remove k m)"
  by (simp add: bt_sum_mset bt_insert_overwrite)

text \<open>Two well-formed maps with the same lookups are the same map.\<close>

lemma bt_entries: "bt_ok m \<Longrightarrow> map (\<lambda>k. (k, the (bt_get m k))) (bt_keys m) = m"
  by (auto simp: comp_def bt_ok_distinct intro!: map_idI)

lemma bt_ext:
  assumes "bt_ok m" "bt_ok n" "bt_get m = bt_get n"
  shows "m = n"
proof -
  have "fst ` set m = fst ` set n"
    using assms(3) by (metis dom_map_of_conv_image_fst)
  then have "bt_keys m = bt_keys n"
    using assms(1,2) by (intro strict_sorted_equal) (auto simp: bt_ok_def)
  then show ?thesis
    using assms by (metis bt_entries)
qed

lemma bt_append_get: "bt_get (bt_append m n) = fold (\<lambda>(k, v) f. f(k \<mapsto> v)) n (bt_get m)"
  unfolding bt_append_def by (induction n arbitrary: m) auto

lemma bt_append_Nil [simp]: "bt_append m [] = m"
  by (simp add: bt_append_def)

lemma bt_append_Cons: "bt_append m ((k, v) # n) = bt_append (bt_insert k v m) n"
  by (simp add: bt_append_def)

lemma bt_ok_append [simp, intro]: "bt_ok m \<Longrightarrow> bt_ok (bt_append m n)"
proof (induction n arbitrary: m)
  case (Cons e n)
  then show ?case by (cases e) (simp add: bt_append_Cons)
qed simp

lemma bt_keys_append [simp]: "fst ` set (bt_append m n) = fst ` set m \<union> fst ` set n"
proof (induction n arbitrary: m)
  case (Cons e n)
  then show ?case by (cases e) (simp add: bt_append_Cons)
qed simp

lemma bt_mset_append:
  assumes "distinct (bt_keys n)" "fst ` set m \<inter> fst ` set n = {}"
  shows "mset (bt_append m n) = mset m + mset n"
  using assms
proof (induction n arbitrary: m)
  case Nil
  then show ?case by simp
next
  case (Cons e n)
  obtain k v where e: "e = (k, v)" by (cases e)
  with Cons.prems have "mset (bt_insert k v m) = add_mset (k, v) (mset m)"
    by (intro bt_mset_insert) (auto simp: map_of_eq_None_iff)
  with Cons e show ?case by (auto simp: bt_append_Cons)
qed

lemma bt_set_ext:
  assumes "bt_ok m" "bt_ok n" "set m = set n"
  shows "m = n"
proof (rule bt_ext [OF assms(1,2)], rule ext)
  fix k
  have "bt_get m k = Some v \<longleftrightarrow> bt_get n k = Some v" for v
    by (simp only: bt_get_in_set [OF assms(1)] bt_get_in_set [OF assms(2)] assms(3))
  then show "bt_get m k = bt_get n k" by (metis not_None_eq)
qed

lemma bt_append_Nil_left: "bt_ok n \<Longrightarrow> bt_append [] n = n"
proof -
  assume n: "bt_ok n"
  then have "mset (bt_append [] n) = mset n"
    by (simp add: bt_mset_append bt_ok_distinct)
  then have "set (bt_append [] n) = set n" by (rule mset_eq_setD)
  with n show "bt_append [] n = n" by (intro bt_set_ext) simp_all
qed

section \<open>Multisets\<close>

lemma subseteq_image_msetE:
  assumes "M \<subseteq># image_mset f A"
  obtains B where "B \<subseteq># A" "M = image_mset f B"
proof -
  obtain C where "image_mset f A = M + C" using assms by (metis subset_mset.le_iff_add)
  then show thesis using image_mset_eq_plusD that by (metis mset_subset_eq_add_left)
qed

section \<open>Big-endian byte strings\<close>

text \<open>\<open>to_be_bytes\<close> and \<open>from_be_bytes\<close> of the standard library, for \<open>n\<close> bytes.\<close>

fun to_be :: "nat \<Rightarrow> 'a::len word \<Rightarrow> bytes" where
  "to_be 0 w = []"
| "to_be (Suc n) w = to_be n (drop_bit 8 w) @ [ucast w]"

definition from_be :: "bytes \<Rightarrow> 'a::len word" where
  "from_be bs = foldl (\<lambda>acc b. push_bit 8 acc OR ucast b) 0 bs"

definition be_val :: "bytes \<Rightarrow> nat" where
  "be_val bs = foldl (\<lambda>acc b. acc * 256 + unat b) 0 bs"

lemma length_to_be [simp]: "length (to_be n w) = n"
  by (induction n arbitrary: w) auto

lemma be_val_Nil [simp]: "be_val [] = 0"
  by (simp add: be_val_def)

lemma be_val_snoc [simp]: "be_val (bs @ [b]) = be_val bs * 256 + unat b"
  by (simp add: be_val_def)

lemma be_val_Cons: "be_val (b # bs) = unat b * 256 ^ length bs + be_val bs"
proof (induction bs rule: rev_induct)
  case (snoc c bs)
  have "be_val (b # bs @ [c]) = be_val (b # bs) * 256 + unat c"
    using be_val_snoc [of "b # bs" c] by simp
  with snoc show ?case by (simp add: algebra_simps)
qed (simp add: be_val_def)

lemma be_val_bound: "be_val bs < 256 ^ length bs"
proof (induction bs rule: rev_induct)
  case (snoc b bs)
  have "unat b < 256" using unsigned_less [of b, where ?'a = nat] by simp
  with snoc show ?case by simp
qed simp

lemma be_val_to_be: "be_val (to_be n w) = unat w mod 256 ^ n"
proof (induction n arbitrary: w)
  case (Suc n)
  have "unat (drop_bit 8 w) = drop_bit 8 (unat w)" by (rule unat_drop_bit_eq)
  then have "unat (drop_bit 8 w) = unat w div 256" by (simp add: drop_bit_eq_div)
  moreover have "unat (ucast w :: u8) = unat w mod 256"
    by (simp add: unsigned_ucast_eq take_bit_eq_mod)
  moreover have "unat w mod (256 * 256 ^ n) = 256 * (unat w div 256 mod 256 ^ n) + unat w mod 256"
    by (rule mod_mult2_eq)
  ultimately show ?case by (simp add: Suc)
qed simp

lemma base_256_unique:
  assumes "(x::nat) * 256 + b = y * 256 + d" "b < 256" "d < 256"
  shows "x = y \<and> b = d"
proof -
  have "(x * 256 + b) div 256 = x" "(y * 256 + d) div 256 = y" using assms(2,3) by simp_all
  with assms(1) have "x = y" by simp
  with assms(1) show ?thesis by simp
qed

lemma be_val_inject:
  assumes "length bs = length cs" "be_val bs = be_val cs"
  shows "bs = cs"
  using assms
proof (induction bs arbitrary: cs rule: rev_induct)
  case (snoc b bs)
  then obtain ds d where cs: "cs = ds @ [d]" by (cases cs rule: rev_cases) auto
  have lt: "unat b < 256" "unat d < 256"
    using unsigned_less [of b, where ?'a = nat] unsigned_less [of d, where ?'a = nat] by simp_all
  have "be_val bs = be_val ds \<and> unat b = unat d"
    by (rule base_256_unique) (use snoc.prems cs lt in simp_all)
  with snoc cs show ?case by (simp add: word_unat_eq_iff)
qed simp

text \<open>On strings of one length, lexicographic order is the order of the numbers.\<close>

lemma be_val_less_iff:
  "length bs = length cs \<Longrightarrow> bs < cs \<longleftrightarrow> be_val bs < be_val cs"
proof (induction bs arbitrary: cs)
  case (Cons b bs)
  then obtain d ds where cs: "cs = d # ds" and len: "length bs = length ds"
    by (cases cs) auto
  have bounds: "be_val bs < 256 ^ length ds" "be_val ds < 256 ^ length ds"
    using be_val_bound [of bs] be_val_bound [of ds] len by simp_all
  consider "b < d" | "b = d" | "d < b" by (rule linorder_cases)
  then show ?case
  proof cases
    case 1
    then have "Suc (unat b) * 256 ^ length ds \<le> unat d * 256 ^ length ds"
      by (intro mult_right_mono) (simp_all add: word_less_nat_alt Suc_le_eq)
    with 1 cs len bounds show ?thesis by (simp add: be_val_Cons)
  next
    case 2
    with Cons cs len show ?thesis by (simp add: be_val_Cons)
  next
    case 3
    then have "Suc (unat d) * 256 ^ length ds \<le> unat b * 256 ^ length ds"
      by (intro mult_right_mono) (simp_all add: word_less_nat_alt Suc_le_eq)
    with 3 cs len bounds show ?thesis by (auto simp: be_val_Cons)
  qed
qed simp

lemma from_be_Nil [simp]: "from_be [] = 0"
  by (simp add: from_be_def)

lemma from_be_snoc [simp]: "from_be (bs @ [b]) = push_bit 8 (from_be bs) OR ucast b"
  by (simp add: from_be_def)

lemma push_or_plus: "push_bit 8 w OR ucast (b :: u8) = w * 256 + (ucast b :: 'a::len word)"
proof -
  have "push_bit 8 w AND (ucast b :: 'a word) = 0"
    by (auto simp: bit_eq_iff bit_simps dest: bit_imp_le_length)
  then have "push_bit 8 w OR (ucast b :: 'a word) = push_bit 8 w + ucast b"
    by (simp add: disjunctive_add_eq_or)
  then show ?thesis by (simp add: push_bit_eq_mult)
qed

lemma from_be_of_nat: "from_be bs = (of_nat (be_val bs) :: 'a::len word)"
  by (induction bs rule: rev_induct) (simp_all add: push_or_plus)

lemma unat_from_be:
  assumes "256 ^ length bs \<le> (2 :: nat) ^ LENGTH('a::len)"
  shows "unat (from_be bs :: 'a word) = be_val bs"
proof -
  have "be_val bs < 2 ^ LENGTH('a)"
    using be_val_bound [of bs] assms by linarith
  then show ?thesis by (simp add: from_be_of_nat unat_of_nat take_bit_eq_mod)
qed

lemma from_be_to_be:
  assumes "256 ^ n = (2 :: nat) ^ LENGTH('a::len)"
  shows "from_be (to_be n w) = (w :: 'a word)"
proof -
  have "unat (from_be (to_be n w) :: 'a word) = unat w mod 2 ^ LENGTH('a)"
    using assms by (simp add: unat_from_be be_val_to_be)
  also have "\<dots> = unat w" by simp
  finally show ?thesis by (rule unsigned_word_eqI)
qed

lemma to_be_from_be:
  assumes "256 ^ n = (2 :: nat) ^ LENGTH('a::len)" "length bs = n"
  shows "to_be n (from_be bs :: 'a word) = bs"
proof (rule be_val_inject)
  show "be_val (to_be n (from_be bs :: 'a word)) = be_val bs"
    using assms be_val_bound [of bs] by (simp add: be_val_to_be unat_from_be)
qed (use assms in simp)

lemma to_be_less_iff:
  assumes "256 ^ n = (2 :: nat) ^ LENGTH('a::len)"
  shows "to_be n v < to_be n w \<longleftrightarrow> v < (w :: 'a word)"
  using assms by (simp add: be_val_less_iff be_val_to_be word_less_nat_alt)

section \<open>Decimal notation\<close>

text \<open>The ASCII digits of a number, as \<open>to_string\<close> prints it.\<close>

fun decimal :: "nat \<Rightarrow> bytes" where
  "decimal n = (if n < 10 then [of_nat (48 + n)] else decimal (n div 10) @ [of_nat (48 + n mod 10)])"

declare decimal.simps [simp del]

lemma digit: "k < 10 \<Longrightarrow> unat (of_nat (48 + k) :: u8) = 48 + k"
  by (simp add: unat_of_nat del: of_nat_add)

lemma decimal_inverse: "foldl (\<lambda>a c. a * 10 + (unat c - 48)) 0 (decimal n) = n"
proof (induction n rule: decimal.induct)
  case (1 n)
  then show ?case using digit [of n] digit [of "n mod 10"] by (subst decimal.simps) (simp del: of_nat_add)
qed

lemma decimal_inject [simp]: "decimal m = decimal n \<longleftrightarrow> m = n"
  by (metis decimal_inverse)

lemma decimal_digits: "b \<in> set (decimal n) \<Longrightarrow> 48 \<le> unat b"
proof (induction n rule: decimal.induct)
  case (1 n)
  then show ?case
    using digit [of n] digit [of "n mod 10"] by (auto simp: decimal.simps [of n] simp del: of_nat_add split: if_splits)
qed

section \<open>Codecs\<close>

text \<open>
  A fixed-width codec: every value has one encoding of \<open>width\<close> bytes, decoding inverts it and
  accepts nothing else. Encodings can then be concatenated with anything and split again.
\<close>

locale fixed_codec =
  fixes enc :: "'a \<Rightarrow> bytes" and dec :: "bytes \<Rightarrow> 'a option" and width :: nat
  assumes enc_length: "length (enc x) = width"
    and dec_enc: "dec (enc x) = Some x"
    and dec_canonical: "dec bs = Some x \<Longrightarrow> bs = enc x"
begin

lemma enc_inject: "enc x = enc y \<longleftrightarrow> x = y"
  by (metis dec_enc option.inject)

lemma dec_Some: "dec bs = Some x \<longleftrightarrow> bs = enc x"
  by (auto simp: dec_enc dest: dec_canonical)

lemma dec_wrong_width: "length bs \<noteq> width \<Longrightarrow> dec bs = None"
  using dec_canonical enc_length by (metis not_Some_eq)

lemma enc_append_inject: "enc x @ bs = enc y @ cs \<longleftrightarrow> x = y \<and> bs = cs"
  by (metis append_eq_append_conv enc_inject enc_length)

lemma take_enc: "take width (enc x @ bs) = enc x"
  by (simp add: enc_length)

lemma drop_enc: "drop width (enc x @ bs) = bs"
  by (simp add: enc_length)

end

text \<open>A codec whose byte order is the order of a rank of the values.\<close>

locale ordered_codec = fixed_codec enc dec width
  for enc :: "'a \<Rightarrow> bytes" and dec :: "bytes \<Rightarrow> 'a option" and width :: nat +
  fixes rank :: "'a \<Rightarrow> int"
  assumes enc_less: "enc x < enc y \<longleftrightarrow> rank x < rank y"
begin

lemma enc_le: "enc x \<le> enc y \<longleftrightarrow> rank x \<le> rank y"
  by (metis enc_less linorder_not_less)

lemma rank_inject: "rank x = rank y \<longleftrightarrow> x = y"
  by (metis enc_inject enc_less less_irrefl linorder_less_linear)

text \<open>The first key of an ordered map over encodings belongs to the value of least rank.\<close>

lemma first_key_least:
  assumes "bt_ok m" "m = (enc x, v) # m'" "enc y \<in> fst ` set m"
  shows "rank x \<le> rank y"
proof -
  have "enc x \<le> enc y" using assms by (auto simp: bt_ok_Cons order_less_imp_le)
  then show ?thesis by (simp add: enc_le)
qed

end

section \<open>Transition systems\<close>

text \<open>
  Finite runs of a labelled step relation, and the contract of a component seen as a transition
  system: an invariant that holds initially and that every step keeps.
\<close>

inductive run :: "('s \<Rightarrow> 'e \<Rightarrow> 's \<Rightarrow> bool) \<Rightarrow> 's \<Rightarrow> 'e list \<Rightarrow> 's \<Rightarrow> bool"
  for step where
  run_Nil: "run step s [] s"
| run_Cons: "step s e t \<Longrightarrow> run step t es u \<Longrightarrow> run step s (e # es) u"

inductive_simps run_Nil_iff [simp]: "run step s [] t"
inductive_simps run_Cons_iff: "run step s (e # es) u"

lemma run_append: "run step s es t \<Longrightarrow> run step t fs u \<Longrightarrow> run step s (es @ fs) u"
  by (induction rule: run.induct) (auto intro: run_Cons)

locale transition_system =
  fixes init :: "'s \<Rightarrow> bool" and step :: "'s \<Rightarrow> 'e \<Rightarrow> 's \<Rightarrow> bool" and inv :: "'s \<Rightarrow> bool"
  assumes inv_init: "init s \<Longrightarrow> inv s"
    and inv_step: "inv s \<Longrightarrow> step s e t \<Longrightarrow> inv t"
begin

lemma run_inv: "run step s es t \<Longrightarrow> inv s \<Longrightarrow> inv t"
  by (induction rule: run.induct) (auto intro: inv_step)

lemma reachable_inv: "init s \<Longrightarrow> run step s es t \<Longrightarrow> inv t"
  by (blast intro: run_inv inv_init)

end

text \<open>A transition system with a quantity that no step decreases.\<close>

locale monotone_system = transition_system init step inv
  for init :: "'s \<Rightarrow> bool" and step :: "'s \<Rightarrow> 'e \<Rightarrow> 's \<Rightarrow> bool" and inv :: "'s \<Rightarrow> bool" +
  fixes progress :: "'s \<Rightarrow> 's \<Rightarrow> bool"
  assumes progress_refl: "progress s s"
    and progress_trans: "progress s t \<Longrightarrow> progress t u \<Longrightarrow> progress s u"
    and progress_step: "inv s \<Longrightarrow> step s e t \<Longrightarrow> progress s t"
begin

lemma run_progress: "run step s es t \<Longrightarrow> inv s \<Longrightarrow> progress s t"
  by (induction rule: run.induct)
     (auto intro: progress_refl progress_trans progress_step inv_step)

end

end
