(* ===== verification/Kernels.thy ===== *)
theory Kernels
  imports Prelude
begin

text \<open>
  The executable kernels of the crate \<open>rockstream-verified\<close>, which the storage, operator, runtime
  and control crates call at their decision points: checked arithmetic, fixed-width codecs, order
  keys, frontier admission, commit and replay decisions, wire framing, routing and ownership
  accounting. One definition per kernel, in the order of the source files.
\<close>

section \<open>arithmetic.rs\<close>

definition checked_i64_add :: "i64 \<Rightarrow> i64 \<Rightarrow> i64 option" where
  "checked_i64_add left right = i64_checked_add left right"

definition checked_i64_mul :: "i64 \<Rightarrow> i64 \<Rightarrow> i64 option" where
  "checked_i64_mul left right = i64_checked_mul left right"

definition checked_u64_add :: "u64 \<Rightarrow> u64 \<Rightarrow> u64 option" where
  "checked_u64_add left right = checked_add_w left right"

definition checked_i64_neg :: "i64 \<Rightarrow> i64 option" where
  "checked_i64_neg v = i64_checked_mul v (of_ival (- 1))"

definition checked_i128_to_i64 :: "128 word \<Rightarrow> i64 option" where
  "checked_i128_to_i64 v = i64_checked (sint v)"

section \<open>codecs.rs\<close>

definition encode_u64_be :: "u64 \<Rightarrow> bytes" where
  "encode_u64_be v =
     [ucast (drop_bit 56 v), ucast (drop_bit 48 v), ucast (drop_bit 40 v), ucast (drop_bit 32 v),
      ucast (drop_bit 24 v), ucast (drop_bit 16 v), ucast (drop_bit 8 v), ucast v]"

fun decode_u64_be :: "bytes \<Rightarrow> u64 option" where
  "decode_u64_be [b0, b1, b2, b3, b4, b5, b6, b7] =
     Some (push_bit 56 (ucast b0) OR push_bit 48 (ucast b1) OR push_bit 40 (ucast b2)
       OR push_bit 32 (ucast b3) OR push_bit 24 (ucast b4) OR push_bit 16 (ucast b5)
       OR push_bit 8 (ucast b6) OR ucast b7)"
| "decode_u64_be _ = None"

definition encode_u128_be :: "u128 \<Rightarrow> bytes" where
  "encode_u128_be v =
     [ucast (drop_bit 120 v), ucast (drop_bit 112 v), ucast (drop_bit 104 v), ucast (drop_bit 96 v),
      ucast (drop_bit 88 v), ucast (drop_bit 80 v), ucast (drop_bit 72 v), ucast (drop_bit 64 v),
      ucast (drop_bit 56 v), ucast (drop_bit 48 v), ucast (drop_bit 40 v), ucast (drop_bit 32 v),
      ucast (drop_bit 24 v), ucast (drop_bit 16 v), ucast (drop_bit 8 v), ucast v]"

fun decode_u128_be :: "bytes \<Rightarrow> u128 option" where
  "decode_u128_be [b0, b1, b2, b3, b4, b5, b6, b7, b8, b9, b10, b11, b12, b13, b14, b15] =
     Some (push_bit 120 (ucast b0) OR push_bit 112 (ucast b1) OR push_bit 104 (ucast b2)
       OR push_bit 96 (ucast b3) OR push_bit 88 (ucast b4) OR push_bit 80 (ucast b5)
       OR push_bit 72 (ucast b6) OR push_bit 64 (ucast b7) OR push_bit 56 (ucast b8)
       OR push_bit 48 (ucast b9) OR push_bit 40 (ucast b10) OR push_bit 32 (ucast b11)
       OR push_bit 24 (ucast b12) OR push_bit 16 (ucast b13) OR push_bit 8 (ucast b14)
       OR ucast b15)"
| "decode_u128_be _ = None"

definition checked_usize_to_u32 :: "usize \<Rightarrow> u32 option" where
  "checked_usize_to_u32 v = (if v < 2 ^ 32 then Some (of_nat v) else None)"

text \<open>\<open>decode_i64\<close> of arithmetic.rs reads the same eight bytes as two's complement.\<close>

definition decode_i64 :: "bytes \<Rightarrow> i64 option" where
  "decode_i64 bs = (case decode_u64_be bs of Some w \<Rightarrow> Some (I64 w) | None \<Rightarrow> None)"

section \<open>frontier.rs\<close>

definition admit_frontier_report ::
  "u16 \<Rightarrow> bool \<Rightarrow> bool \<Rightarrow> bool \<Rightarrow> u64 \<Rightarrow> u64 \<Rightarrow> u64 option" where
  "admit_frontier_report version active generation_matches incarnation_matches
     current_epoch reported_epoch =
     (if version \<noteq> 1 \<or> \<not> active \<or> \<not> generation_matches \<or> \<not> incarnation_matches then None
      else if reported_epoch > current_epoch then Some reported_epoch
      else Some current_epoch)"

definition fixed_membership_meet :: "u64 \<Rightarrow> u64 \<Rightarrow> u64" where
  "fixed_membership_meet left right = (if left \<le> right then left else right)"

definition advance_publication :: "u64 option \<Rightarrow> u64 \<Rightarrow> u64" where
  "advance_publication published meet =
     (case published of None \<Rightarrow> meet | Some p \<Rightarrow> if meet > p then meet else p)"

definition fixed_membership_transition :: "u64 \<Rightarrow> u64 \<Rightarrow> u64" where
  "fixed_membership_transition current_epoch reported_epoch =
     (if reported_epoch > current_epoch then reported_epoch else current_epoch)"

definition activation_preserves_publication :: "u64 option \<Rightarrow> u64 \<Rightarrow> bool" where
  "activation_preserves_publication published_epoch bootstrap_epoch =
     (case published_epoch of None \<Rightarrow> True | Some published \<Rightarrow> bootstrap_epoch \<ge> published)"

definition completes_before :: "u64 \<Rightarrow> u64 \<Rightarrow> bool" where
  "completes_before frontier epoch \<longleftrightarrow> epoch < frontier"

definition stale_incarnation_is_rejected :: "u64 \<Rightarrow> u64 \<Rightarrow> bool" where
  "stale_incarnation_is_rejected report_incarnation active_incarnation \<longleftrightarrow>
     report_incarnation \<noteq> active_incarnation"

section \<open>keys.rs\<close>

definition SIGN_BIT :: u64 where
  "SIGN_BIT = 0x8000000000000000"

definition signed_order_key :: "i64 \<Rightarrow> bool \<Rightarrow> u64" where
  "signed_order_key v invert =
     (let ascending = bits v XOR SIGN_BIT in if invert then NOT ascending else ascending)"

definition signed_order_key_decode :: "u64 \<Rightarrow> bool \<Rightarrow> i64" where
  "signed_order_key_decode v invert =
     (let ascending = (if invert then NOT v else v) in I64 (ascending XOR SIGN_BIT))"

section \<open>ownership.rs\<close>

definition same_owner :: "nat \<Rightarrow> nat \<Rightarrow> bool" where
  "same_owner reservation channel \<longleftrightarrow> reservation = channel"

text \<open>Subtraction of naturals is \<open>saturating_sub\<close>.\<close>

definition release_accounting ::
  "bool \<Rightarrow> nat \<Rightarrow> nat \<Rightarrow> nat \<Rightarrow> nat \<Rightarrow> nat \<Rightarrow> nat \<Rightarrow> nat \<Rightarrow> nat \<times> nat \<times> nat \<times> nat \<times> nat" where
  "release_accounting owner_matches rows batches bytes' total_bytes total_requests
     released_rows released_bytes =
     (let (next_rows, next_batches, next_bytes) =
        (if owner_matches then (rows - released_rows, batches - 1, bytes' - released_bytes)
         else (rows, batches, bytes'))
      in (next_rows, next_batches, next_bytes, total_bytes - released_bytes, total_requests - 1))"

section \<open>persistence.rs\<close>

abbreviation (input) "COMMIT_FAILED \<equiv> 0 :: u8"
abbreviation (input) "COMMIT_COMMITTED \<equiv> 1 :: u8"
abbreviation (input) "COMMIT_UNKNOWN \<equiv> 2 :: u8"
abbreviation (input) "REPLAY_REJECT \<equiv> 0 :: u8"
abbreviation (input) "REPLAY_APPLY \<equiv> 1 :: u8"
abbreviation (input) "REPLAY_NOOP \<equiv> 2 :: u8"
abbreviation (input) "REPLAY_UNKNOWN \<equiv> 3 :: u8"
abbreviation (input) "SCAN_COMPLETE \<equiv> 0 :: u8"
abbreviation (input) "SCAN_MORE \<equiv> 1 :: u8"
abbreviation (input) "SCAN_QUOTA \<equiv> 2 :: u8"
abbreviation (input) "SCAN_CANCELLED \<equiv> 3 :: u8"
abbreviation (input) "SCAN_CORRUPT \<equiv> 4 :: u8"

definition next_epoch :: "u64 \<Rightarrow> u64 option" where
  "next_epoch current_epoch = checked_add_w current_epoch 1"

definition commit_outcome :: "bool \<Rightarrow> bool \<Rightarrow> u8" where
  "commit_outcome write_succeeded flush_succeeded =
     (if \<not> write_succeeded then COMMIT_FAILED
      else if flush_succeeded then COMMIT_COMMITTED
      else COMMIT_UNKNOWN)"

definition epoch_is_admissible :: "u64 \<Rightarrow> u64 \<Rightarrow> bool \<Rightarrow> bool \<Rightarrow> bool \<Rightarrow> bool" where
  "epoch_is_admissible current_epoch candidate_epoch require_consecutive authority_valid duplicate =
     (if \<not> authority_valid \<or> duplicate \<or> candidate_epoch \<le> current_epoch then False
      else if require_consecutive then checked_add_w current_epoch 1 = Some candidate_epoch
      else True)"

definition coupled_commit_is_durable ::
  "bool \<Rightarrow> bool \<Rightarrow> bool \<Rightarrow> bool \<Rightarrow> bool \<Rightarrow> bool \<Rightarrow> bool" where
  "coupled_commit_is_durable state_written outputs_written source_marker_written frontier_written
     write_succeeded flush_succeeded \<longleftrightarrow>
     state_written \<and> outputs_written \<and> source_marker_written \<and> frontier_written
     \<and> write_succeeded \<and> flush_succeeded"

definition replay_decision :: "u8 \<Rightarrow> bool \<Rightarrow> bool \<Rightarrow> bool \<Rightarrow> u8" where
  "replay_decision state identity_matches scope_matches duplicate =
     (if state = COMMIT_UNKNOWN then REPLAY_UNKNOWN
      else if state \<noteq> COMMIT_COMMITTED \<or> \<not> identity_matches \<or> \<not> scope_matches then REPLAY_REJECT
      else if duplicate then REPLAY_NOOP
      else REPLAY_APPLY)"

definition saturating_add_u64 :: "u64 \<Rightarrow> u64 \<Rightarrow> u64" where
  "saturating_add_u64 a b = (case checked_add_w a b of Some c \<Rightarrow> c | None \<Rightarrow> - 1)"

definition recovery_scan_status :: "u64 \<Rightarrow> u64 \<Rightarrow> u64 \<Rightarrow> u64 \<Rightarrow> bool \<Rightarrow> bool \<Rightarrow> u8" where
  "recovery_scan_status cursor total_rows requested_page_size max_page_size cancelled corrupt =
     (if cancelled then SCAN_CANCELLED
      else if corrupt \<or> cursor > total_rows then SCAN_CORRUPT
      else if requested_page_size = 0 \<or> max_page_size = 0 then SCAN_QUOTA
      else
        let page_size = (if requested_page_size < max_page_size then requested_page_size
                         else max_page_size);
            end' = saturating_add_u64 cursor page_size
        in if end' \<ge> total_rows then SCAN_COMPLETE else SCAN_MORE)"

definition compaction_is_eligible :: "u64 \<Rightarrow> u64 \<Rightarrow> u64 \<Rightarrow> bool \<Rightarrow> bool \<Rightarrow> bool" where
  "compaction_is_eligible compaction_frontier reader_horizon replay_horizon retained_snapshot
     in_flight_delta \<longleftrightarrow>
     \<not> retained_snapshot \<and> \<not> in_flight_delta \<and> compaction_frontier \<ge> reader_horizon
     \<and> compaction_frontier \<ge> replay_horizon"

definition recovery_is_ready :: "bool \<Rightarrow> bool \<Rightarrow> bool \<Rightarrow> bool \<Rightarrow> bool" where
  "recovery_is_ready scan_complete metadata_valid fence_matches all_state_restored \<longleftrightarrow>
     scan_complete \<and> metadata_valid \<and> fence_matches \<and> all_state_restored"

section \<open>pgwire\_framing.rs\<close>

abbreviation (input) "FRAME_INVALID \<equiv> 0 :: u8"
abbreviation (input) "FRAME_INCOMPLETE \<equiv> 1 :: u8"
abbreviation (input) "FRAME_COMPLETE \<equiv> 2 :: u8"

definition MAX_PACKET_BYTES :: usize where
  "MAX_PACKET_BYTES = 64 * 1024 * 1024"

definition read_length :: "bytes \<Rightarrow> usize \<Rightarrow> 32 word option" where
  "read_length bs offset =
     (case usize_checked_add offset 4 of
        None \<Rightarrow> None
      | Some end' \<Rightarrow>
          if end' > length bs then None
          else Some (push_bit 24 (ucast (bs ! offset)) OR push_bit 16 (ucast (bs ! (offset + 1)))
            OR push_bit 8 (ucast (bs ! (offset + 2))) OR ucast (bs ! (offset + 3))))"

definition frame_span :: "usize \<Rightarrow> usize \<Rightarrow> 32 word option \<Rightarrow> u8 \<times> usize \<times> usize" where
  "frame_span available offset raw_length =
     (case raw_length of
        None \<Rightarrow> (FRAME_INCOMPLETE, 0, 0)
      | Some r \<Rightarrow>
          if sint r < 4 \<or> nat (sint r) > MAX_PACKET_BYTES then (FRAME_INVALID, 0, 0)
          else
            case usize_checked_add offset 4 of
              None \<Rightarrow> (FRAME_INVALID, 0, 0)
            | Some body_start \<Rightarrow>
                case usize_checked_add offset (nat (sint r)) of
                  None \<Rightarrow> (FRAME_INVALID, 0, 0)
                | Some end' \<Rightarrow>
                    if available < end' then (FRAME_INCOMPLETE, 0, 0)
                    else (FRAME_COMPLETE, body_start, end'))"

section \<open>physical\_commit.rs\<close>

abbreviation (input) "PENDING \<equiv> 0 :: u8"
abbreviation (input) "FLIGHT_PENDING \<equiv> 1 :: u8"
abbreviation (input) "FLIGHT_UNCERTAIN \<equiv> 2 :: u8"
abbreviation (input) "UNCERTAIN \<equiv> 3 :: u8"
abbreviation (input) "COMMITTED \<equiv> 4 :: u8"
abbreviation (input) "DURABLE \<equiv> 0 :: u8"
abbreviation (input) "WRITE_FAILED \<equiv> 1 :: u8"
abbreviation (input) "OUTCOME_UNKNOWN \<equiv> 2 :: u8"

definition begin_owner :: "bool \<Rightarrow> bool \<Rightarrow> bool \<Rightarrow> u8 option" where
  "begin_owner has_pending has_uncertain outcome_unknown =
     (if outcome_unknown \<or> (\<not> has_pending \<and> \<not> has_uncertain) then None
      else if has_uncertain then Some FLIGHT_UNCERTAIN
      else Some FLIGHT_PENDING)"

definition finish_transition ::
  "u8 \<Rightarrow> u8 \<Rightarrow> usize \<Rightarrow> usize \<Rightarrow> usize \<Rightarrow> usize \<Rightarrow> usize \<Rightarrow> usize \<Rightarrow> u64 option \<Rightarrow> u64 \<Rightarrow>
     (u8 \<times> usize \<times> usize \<times> usize \<times> u64 option \<times> bool) option" where
  "finish_transition source outcome retained_epochs flight_epochs retained_bytes flight_bytes
     retained_operations flight_operations current_frontier flight_last =
     (if (source \<noteq> FLIGHT_PENDING \<and> source \<noteq> FLIGHT_UNCERTAIN)
         \<or> (outcome \<noteq> DURABLE \<and> outcome \<noteq> WRITE_FAILED \<and> outcome \<noteq> OUTCOME_UNKNOWN)
         \<or> (source = FLIGHT_UNCERTAIN \<and> outcome = WRITE_FAILED)
         \<or> flight_epochs = 0
         \<or> retained_epochs < flight_epochs
         \<or> retained_bytes < flight_bytes
         \<or> retained_operations < flight_operations
      then None
      else if outcome = DURABLE then
        (if (case current_frontier of None \<Rightarrow> False | Some f \<Rightarrow> flight_last < f) then None
         else Some (COMMITTED, retained_epochs - flight_epochs, retained_bytes - flight_bytes,
                retained_operations - flight_operations, Some flight_last, True))
      else Some ((if outcome = WRITE_FAILED then PENDING else UNCERTAIN), retained_epochs,
             retained_bytes, retained_operations, current_frontier, False))"

section \<open>routing.rs\<close>

definition clamp_prefix_len :: "usize \<Rightarrow> usize \<Rightarrow> usize" where
  "clamp_prefix_len requested key_len = min requested key_len"

definition route_power_of_two_hash :: "u64 \<Rightarrow> u16 \<Rightarrow> u16 option" where
  "route_power_of_two_hash hash bucket_count =
     (if bucket_count = 0 \<or> (bucket_count AND (bucket_count - 1)) \<noteq> 0 then None
      else Some (ucast (hash mod ucast bucket_count)))"

text \<open>\<open>normalize_power_of_two_bucket_count\<close> of lib.rs.\<close>

definition normalize_power_of_two_bucket_count :: "u16 \<Rightarrow> u16" where
  "normalize_power_of_two_bucket_count n =
     (if n \<le> 1 then 1 else if n \<le> 2 then 2 else if n \<le> 4 then 4 else if n \<le> 8 then 8
      else if n \<le> 16 then 16 else if n \<le> 32 then 32 else if n \<le> 64 then 64
      else if n \<le> 128 then 128 else if n \<le> 256 then 256 else if n \<le> 512 then 512
      else if n \<le> 1024 then 1024 else if n \<le> 2048 then 2048 else if n \<le> 4096 then 4096
      else if n \<le> 8192 then 8192 else if n \<le> 16384 then 16384 else 32768)"

section \<open>zset.rs\<close>

definition validate_aligned_lengths :: "usize \<Rightarrow> usize \<Rightarrow> bool" where
  "validate_aligned_lengths row_count weight_count \<longleftrightarrow> row_count = weight_count"

definition validate_index :: "usize \<Rightarrow> usize \<Rightarrow> bool" where
  "validate_index index row_count \<longleftrightarrow> index < row_count"

definition checked_weight_add :: "i64 \<Rightarrow> i64 \<Rightarrow> i64 option" where
  "checked_weight_add current delta = i64_checked_add current delta"

definition consolidate_weight :: "i64 \<Rightarrow> i64 \<Rightarrow> i64 option" where
  "consolidate_weight current delta = i64_checked_add current delta"

definition weight_cancels :: "i64 \<Rightarrow> bool" where
  "weight_cancels weight \<longleftrightarrow> weight = 0"

section \<open>aggregate.rs\<close>

definition in_i128 :: "int \<Rightarrow> bool" where
  "in_i128 i \<longleftrightarrow> - (2 ^ 127) \<le> i \<and> i < 2 ^ 127"

definition transition :: "i64 \<Rightarrow> i64 \<Rightarrow> 128 word \<Rightarrow> i64 \<Rightarrow> (i64 \<times> i64) option" where
  "transition old_sum old_count delta_sum delta_count =
     (if ival old_count < 0 \<or> (old_count = 0 \<and> old_sum \<noteq> 0) then None
      else case i64_checked_add old_count delta_count of
        None \<Rightarrow> None
      | Some new_count \<Rightarrow>
          if ival new_count < 0 then None
          else
            let total_sum = ival old_sum + sint delta_sum
            in if \<not> in_i128 total_sum then None
               else if new_count = 0 then (if total_sum = 0 then Some (0, 0) else None)
               else case i64_checked total_sum of
                      None \<Rightarrow> None
                    | Some new_sum \<Rightarrow> Some (new_sum, new_count))"

section \<open>Laws of the kernels\<close>

subsection \<open>Codecs\<close>

definition be_decode :: "nat \<Rightarrow> bytes \<Rightarrow> 'a::len word option" where
  "be_decode n bs = (if length bs = n then Some (from_be bs) else None)"

lemma be_codec:
  assumes "256 ^ n = (2 :: nat) ^ LENGTH('a::len)"
  shows "ordered_codec (to_be n :: 'a word \<Rightarrow> bytes) (be_decode n) n (\<lambda>w. int (unat w))"
proof
  fix bs :: bytes and x :: "'a word"
  show "be_decode n (to_be n x) = Some x"
    using assms by (simp add: be_decode_def from_be_to_be)
  show "be_decode n bs = Some x \<Longrightarrow> bs = to_be n x"
    using assms by (auto simp: be_decode_def to_be_from_be split: if_splits)
  show "to_be n x < to_be n y \<longleftrightarrow> int (unat x) < int (unat y)" for y :: "'a word"
    using assms by (simp add: to_be_less_iff word_less_alt)
qed simp

lemma encode_u64_be_eq: "encode_u64_be v = to_be 8 v"
  by (simp add: encode_u64_be_def numeral_eq_Suc drop_bit_drop_bit)

lemma encode_u128_be_eq: "encode_u128_be v = to_be 16 v"
  by (simp add: encode_u128_be_def numeral_eq_Suc drop_bit_drop_bit)

lemma decode_u64_be_eq: "decode_u64_be bs = be_decode 8 bs"
proof (cases "length bs = 8")
  case True
  then obtain b0 b1 b2 b3 b4 b5 b6 b7 where "bs = [b0, b1, b2, b3, b4, b5, b6, b7]"
    by (auto simp: numeral_eq_Suc length_Suc_conv)
  then show ?thesis
    by (simp add: be_decode_def from_be_def push_bit_or push_bit_push_bit or.assoc)
next
  case False
  then show ?thesis by (cases bs rule: decode_u64_be.cases) (simp_all add: be_decode_def)
qed

lemma decode_u128_be_eq: "decode_u128_be bs = be_decode 16 bs"
proof (cases "length bs = 16")
  case True
  then obtain b0 b1 b2 b3 b4 b5 b6 b7 b8 b9 b10 b11 b12 b13 b14 b15
    where "bs = [b0, b1, b2, b3, b4, b5, b6, b7, b8, b9, b10, b11, b12, b13, b14, b15]"
    by (auto simp: numeral_eq_Suc length_Suc_conv)
  then show ?thesis
    by (simp add: be_decode_def from_be_def push_bit_or push_bit_push_bit or.assoc)
next
  case False
  then show ?thesis by (cases bs rule: decode_u128_be.cases) (simp_all add: be_decode_def)
qed

interpretation u64_be: ordered_codec encode_u64_be decode_u64_be 8 "\<lambda>w. int (unat w)"
  unfolding encode_u64_be_eq [abs_def] decode_u64_be_eq [abs_def] by (rule be_codec) simp

interpretation u128_be: ordered_codec encode_u128_be decode_u128_be 16 "\<lambda>w. int (unat w)"
  unfolding encode_u128_be_eq [abs_def] decode_u128_be_eq [abs_def] by (rule be_codec) simp

declare u64_be.enc_length [simp] u64_be.dec_enc [simp] u128_be.enc_length [simp]
  u128_be.dec_enc [simp]

lemma I64_bits [simp]: "I64 (bits x) = x"
  by (cases x) simp

interpretation i64_be: fixed_codec "\<lambda>v. encode_u64_be (bits v)" decode_i64 8
  by unfold_locales
    (auto simp: decode_i64_def u64_be.dec_Some split: option.splits)

subsection \<open>Order keys\<close>

lemma bit_SIGN_BIT: "bit SIGN_BIT n \<longleftrightarrow> n = 63"
proof -
  have S: "SIGN_BIT = push_bit 63 1" by (simp add: SIGN_BIT_def push_bit_eq_mult)
  show ?thesis unfolding S bit_push_bit_iff bit_1_iff by auto
qed

lemma xor_SIGN_BIT: "w XOR SIGN_BIT = w + SIGN_BIT"
proof (cases "bit w 63")
  case False
  then have "w AND SIGN_BIT = 0" "w XOR SIGN_BIT = w OR SIGN_BIT"
    by (auto intro!: bit_word_eqI simp: bit_and_iff bit_or_iff bit_xor_iff bit_SIGN_BIT)
  then show ?thesis by (simp add: disjunctive_add_eq_or)
next
  case True
  define v where "v = w XOR SIGN_BIT"
  have v: "v AND SIGN_BIT = 0" "w = v OR SIGN_BIT"
    using True by (auto intro!: bit_word_eqI simp: v_def bit_and_iff bit_or_iff bit_xor_iff bit_SIGN_BIT)
  then have "w + SIGN_BIT = v + (SIGN_BIT + SIGN_BIT)"
    by (metis add.assoc disjunctive_add_eq_or)
  also have "SIGN_BIT + SIGN_BIT = 0" by (simp add: SIGN_BIT_def)
  finally show ?thesis by (simp add: v_def)
qed

lemma unat_signed_order_key: "int (unat (signed_order_key v False)) = ival v + 2 ^ 63"
proof -
  have key: "signed_order_key v False = word_of_int (ival v + 2 ^ 63)"
    by (cases v) (simp add: signed_order_key_def ival_def xor_SIGN_BIT, simp add: SIGN_BIT_def)
  have "uint (word_of_int (ival v + 2 ^ 63) :: u64) = ival v + 2 ^ 63"
    using ival_bounds [of v] by (subst uint_word_of_int_eq) (simp add: take_bit_eq_mod)
  then show ?thesis unfolding key by (simp only: uint_nat [symmetric])
qed

lemma signed_order_key_invert: "signed_order_key v True = NOT (signed_order_key v False)"
  by (simp add: signed_order_key_def Let_def)

lemma unat_signed_order_key_invert:
  "int (unat (signed_order_key v True)) = 2 ^ 63 - 1 - ival v"
proof -
  have "uint (NOT w) = 2 ^ 64 - 1 - uint w" for w :: u64
  proof -
    have "NOT w = - 1 - w" by (simp add: not_eq_complement)
    moreover have "uint (- 1 - w) = uint (- 1 :: u64) - uint w"
      by (simp only: uint_minus_simple_alt [symmetric]) simp
    ultimately show ?thesis by (simp only: unsigned_minus_1_eq_mask) (simp add: mask_eq_exp_minus_1)
  qed
  then show ?thesis
    using unat_signed_order_key [of v] unfolding signed_order_key_invert uint_nat by simp
qed

lemma signed_order_key_less:
  "signed_order_key v invert < signed_order_key w invert \<longleftrightarrow>
     (if invert then ival w < ival v else ival v < ival w)"
  using unat_signed_order_key [of v] unat_signed_order_key [of w]
    unat_signed_order_key_invert [of v] unat_signed_order_key_invert [of w]
  by (cases invert) (simp_all add: word_less_alt)

lemma signed_order_key_decode_encode [simp]:
  "signed_order_key_decode (signed_order_key v invert) invert = v"
  by (cases v; cases invert) (simp_all add: signed_order_key_def signed_order_key_decode_def xor.assoc)

lemma signed_order_key_encode_decode [simp]:
  "signed_order_key (signed_order_key_decode w invert) invert = w"
  by (cases invert) (simp_all add: signed_order_key_def signed_order_key_decode_def xor.assoc)

subsection \<open>Decisions\<close>

lemma checked_u64_add_Some: "checked_u64_add a b = Some c \<longleftrightarrow> unat c = unat a + unat b"
  by (simp add: checked_u64_add_def checked_add_w_Some)

lemma checked_i64_neg_Some: "checked_i64_neg x = Some y \<longleftrightarrow> ival y = - ival x"
proof -
  have "ival (of_ival (- 1)) = - 1" by (simp add: in_i64_def)
  then show ?thesis by (auto simp: checked_i64_neg_def i64_checked_mul_def i64_checked_Some)
qed

lemma checked_i64_neg_None: "checked_i64_neg x = None \<longleftrightarrow> ival x = - (2 ^ 63)"
proof -
  have "ival (of_ival (- 1)) = - 1" by (simp add: in_i64_def)
  then show ?thesis
    using ival_bounds [of x]
    by (auto simp: checked_i64_neg_def i64_checked_mul_def i64_checked_None in_i64_def)
qed

lemma epoch_is_admissible_iff:
  "epoch_is_admissible cur cand consecutive authority duplicate \<longleftrightarrow>
     authority \<and> \<not> duplicate \<and> cur < cand \<and> (consecutive \<longrightarrow> unat cand = unat cur + 1)"
  by (auto simp: epoch_is_admissible_def checked_add_w_Some)

lemma unat_saturating_add_u64: "unat (saturating_add_u64 a b) = min (unat a + unat b) (2 ^ 64 - 1)"
proof (cases "checked_add_w a b")
  case None
  then have "\<not> unat a + unat b < 2 ^ 64" by (simp add: checked_add_w_def split: if_splits)
  then show ?thesis
    using None by (simp add: saturating_add_u64_def unsigned_minus_1_eq_mask mask_eq_exp_minus_1)
next
  case (Some c)
  then have "unat c = unat a + unat b" by (simp add: checked_add_w_Some)
  then show ?thesis using unat_less [of c] by (simp add: Some saturating_add_u64_def)
qed

lemma recovery_scan_page:
  assumes "cursor \<le> rows" "0 < req" "0 < cap"
  shows "recovery_scan_status cursor rows req cap False False =
    (if unat rows \<le> unat cursor + min (unat req) (unat cap) then SCAN_COMPLETE else SCAN_MORE)"
proof -
  have "unat rows \<le> 2 ^ 64 - 1" using unat_less [of rows] by simp
  then show ?thesis
    using assms unat_saturating_add_u64 [of cursor req] unat_saturating_add_u64 [of cursor cap]
    by (auto simp: recovery_scan_status_def Let_def word_le_nat_alt word_less_nat_alt min_def)
qed

lemma read_length_Some:
  "read_length bs offset = Some r \<longleftrightarrow>
     offset + 4 \<le> usize_max \<and> offset + 4 \<le> length bs \<and> r = from_be (take 4 (drop offset bs))"
proof (cases "offset + 4 \<le> length bs")
  case True
  then have "take 4 (drop offset bs) =
      [bs ! offset, bs ! (offset + 1), bs ! (offset + 2), bs ! (offset + 3)]"
    by (simp add: numeral_eq_Suc take_Suc_conv_app_nth)
  then show ?thesis
    using True
    by (auto simp: read_length_def usize_checked_add_def from_be_def push_bit_or push_bit_push_bit
        or.assoc)
qed (auto simp: read_length_def usize_checked_add_def)

lemma frame_span_complete:
  "frame_span available offset raw = (FRAME_COMPLETE, b, e) \<longleftrightarrow>
     (\<exists>r. raw = Some r \<and> 4 \<le> sint r \<and> nat (sint r) \<le> MAX_PACKET_BYTES
        \<and> b = offset + 4 \<and> e = offset + nat (sint r) \<and> e \<le> available \<and> e \<le> usize_max)"
  by (auto simp: frame_span_def usize_checked_add_def split: option.splits)

lemma route_power_of_two_hash_bound:
  assumes "route_power_of_two_hash h n = Some b" shows "b < n"
proof -
  have n: "0 < unat n" and b: "b = ucast (h mod ucast n)"
    using assms by (auto simp: route_power_of_two_hash_def unat_gt_0 split: if_splits)
  have u: "unat (ucast n :: u64) = unat n"
    using unat_less [of n] by (simp add: unsigned_ucast_eq take_bit_eq_mod)
  have "unat (h mod ucast n) < unat n" using n u by (simp add: unat_mod_distrib)
  moreover have "unat n < 2 ^ 16" using unat_less [of n] by simp
  ultimately have "unat b = unat (h mod ucast n)"
    by (simp add: b unsigned_ucast_eq take_bit_eq_mod)
  then show ?thesis using \<open>unat (h mod ucast n) < unat n\<close> by (simp add: word_less_nat_alt)
qed

lemma route_normalized:
  "\<exists>b. route_power_of_two_hash h (normalize_power_of_two_bucket_count n) = Some b"
  by (simp add: route_power_of_two_hash_def normalize_power_of_two_bucket_count_def)

subsection \<open>The SUM/COUNT transition\<close>

definition group_ok :: "i64 \<times> i64 \<Rightarrow> bool" where
  "group_ok g \<longleftrightarrow> 0 \<le> ival (snd g) \<and> (snd g = 0 \<longrightarrow> fst g = 0)"

lemma in_i128_ival: "in_i128 (ival x)"
  using ival_bounds [of x] by (simp add: in_i128_def)

lemma transition_Some:
  "transition s c ds dc = Some g' \<longleftrightarrow>
     group_ok (s, c) \<and> group_ok g' \<and> ival (snd g') = ival c + ival dc
     \<and> ival (fst g') = ival s + sint ds"
proof -
  obtain s' c' where g': "g' = (s', c')" by fastforce
  show ?thesis
  proof
    assume "transition s c ds dc = Some g'"
    then show "group_ok (s, c) \<and> group_ok g' \<and> ival (snd g') = ival c + ival dc
        \<and> ival (fst g') = ival s + sint ds"
      by (auto simp: g' transition_def group_ok_def Let_def i64_checked_add_Some i64_checked_Some
          split: option.splits if_splits)
  next
    assume rhs: "group_ok (s, c) \<and> group_ok g' \<and> ival (snd g') = ival c + ival dc
        \<and> ival (fst g') = ival s + sint ds"
    then have "i64_checked_add c dc = Some c'" "i64_checked (ival s + sint ds) = Some s'"
      and "in_i128 (ival s + sint ds)"
      using in_i128_ival [of s'] by (simp_all add: g' i64_checked_add_Some i64_checked_Some)
    then show "transition s c ds dc = Some g'"
      using rhs by (auto simp: g' transition_def group_ok_def)
  qed
qed

text \<open>
  (C40) Two admitted SUM/COUNT deltas applied one after the other leave exactly the state their
  combined delta leaves in one step, whenever the combined delta is representable.
\<close>

theorem transition_compose:
  assumes "transition s c ds1 dc1 = Some (s1, c1)" "transition s1 c1 ds2 dc2 = Some g2"
    and "sint ds = sint ds1 + sint ds2" "ival dc = ival dc1 + ival dc2"
  shows "transition s c ds dc = Some g2"
  using assms by (simp add: transition_Some)

theorem transition_compose_witness:
  "transition (of_ival 10) (of_ival 2) (- 3) (of_ival 2) = Some (of_ival 7, of_ival 4)"
proof (rule transition_compose)
  show "transition (of_ival 10) (of_ival 2) 5 (of_ival 1) = Some (of_ival 15, of_ival 3)"
    "transition (of_ival 15) (of_ival 3) (- 8) (of_ival 1) = Some (of_ival 7, of_ival 4)"
    by (simp_all add: transition_def i64_eval in_i128_def)
qed (simp_all add: i64_eval)

end
