(* ===== verification/MergeLaws.thy ===== *)
theory MergeLaws
  imports Kernels
begin

text \<open>
  Merge laws: the \<open>LawBundle\<close> trait of \<open>rockstream-types/src/merge_law.rs\<close>, its two built-in
  implementations \<open>WeightAdd/v1\<close> and \<open>SumCount/v1\<close> with the registry that holds them, and the
  storage merge operator of \<open>rockstream-storage/src/merge_registry.rs\<close> with the law-aware read
  path of \<open>shard_db.rs\<close>.
\<close>

section \<open>laws/arithmetic.rs\<close>

datatype ArithmeticError = Overflow | InvalidLength usize usize

definition checked_add_i64 :: "i64 \<Rightarrow> i64 \<Rightarrow> (ArithmeticError, i64) result" where
  "checked_add_i64 left right = ok_or Overflow (checked_i64_add left right)"

definition checked_mul_i64 :: "i64 \<Rightarrow> i64 \<Rightarrow> (ArithmeticError, i64) result" where
  "checked_mul_i64 left right = ok_or Overflow (checked_i64_mul left right)"

definition checked_add_u64 :: "u64 \<Rightarrow> u64 \<Rightarrow> (ArithmeticError, u64) result" where
  "checked_add_u64 left right = ok_or Overflow (checked_u64_add left right)"

definition checked_neg_i64 :: "i64 \<Rightarrow> (ArithmeticError, i64) result" where
  "checked_neg_i64 v = ok_or Overflow (checked_i64_neg v)"

definition encode_i64 :: "i64 \<Rightarrow> bytes" where
  "encode_i64 v = to_be 8 (bits v)"

definition encode_u64 :: "u64 \<Rightarrow> bytes" where
  "encode_u64 v = to_be 8 v"

definition decode_i64_r :: "bytes \<Rightarrow> (ArithmeticError, i64) result" where
  "decode_i64_r bs = ok_or (InvalidLength 8 (length bs)) (decode_i64 bs)"

definition decode_u64_r :: "bytes \<Rightarrow> (ArithmeticError, u64) result" where
  "decode_u64_r bs = ok_or (InvalidLength 8 (length bs)) (decode_u64_be bs)"

text \<open>
  The fold keeps a \<open>u128\<close> total of absolute values; its \<open>Option\<close> is then compared with
  \<open>Some(i64::MAX)\<close>, where \<open>None\<close> is below every \<open>Some\<close>.
\<close>

definition unsigned_abs :: "i64 \<Rightarrow> u128" where
  "unsigned_abs v = word_of_int \<bar>ival v\<bar>"

fun abs_total :: "u128 \<Rightarrow> i64 list \<Rightarrow> u128 option" where
  "abs_total acc [] = Some acc"
| "abs_total acc (v # vs) =
     (case checked_add_w acc (unsigned_abs v) of None \<Rightarrow> None | Some acc' \<Rightarrow> abs_total acc' vs)"

definition admit_i64_reassociation :: "i64 list \<Rightarrow> bool" where
  "admit_i64_reassociation values =
     (case abs_total 0 values of None \<Rightarrow> True | Some total' \<Rightarrow> total' \<le> 0x7FFFFFFFFFFFFFFF)"

section \<open>merge\_law.rs\<close>

datatype MergeLawClass = CommutativeMonoid | Semilattice | AbelianGroup

record LawProperties =
  associative :: bool
  commutative :: bool
  idempotent :: bool
  has_inverse :: bool
  has_identity :: bool
  composable :: bool

datatype DuplicatePolicy = MergeDup | RejectDup | LastWriterWins

datatype CompactionPolicy = MergeOnCompact | TombstoneGc | RetainAll

datatype FrontierPolicy = AnyAdvancement | ExactOnly | Stateless

record GatewayAggCombinerDesc =
  g_law_id :: u16
  g_law_name :: string
  is_associative :: bool
  is_commutative :: bool

text \<open>The error messages of the two laws, one constructor per format string.\<close>

datatype LawError =
    WeightAddOverflow
  | WeightAddLength usize
  | WeightAddMalformed ArithmeticError
  | WeightAddInverseOverflow
  | SumCountSumOverflow
  | SumCountCountOverflow
  | SumCountLength usize
  | SumCountMalformed ArithmeticError
  | SumCountInverseSumOverflow
  | SumCountInverseCountOverflow

text \<open>A trait object: its methods as fields.\<close>

record LawBundle =
  law_id :: u16
  law_version :: u16
  law_name :: string
  law_properties :: LawProperties
  law_class :: MergeLawClass
  duplicate_policy :: DuplicatePolicy
  compaction_policy :: CompactionPolicy
  frontier_policy :: FrontierPolicy
  law_identity :: "bytes option"
  law_merge :: "bytes \<Rightarrow> bytes \<Rightarrow> (LawError, bytes) result"
  law_is_identity :: "bytes \<Rightarrow> bool"
  law_inverse :: "bytes \<Rightarrow> (LawError, bytes) result"
  admits_reassociation :: "i64 list \<Rightarrow> bool"
  reassociation_admitted :: bool
  law_domain :: string
  evidence_ref :: string
  gateway_combiner :: "GatewayAggCombinerDesc option"

record LawDescriptor =
  d_id :: u16
  d_version :: u16
  d_name :: string
  d_class :: MergeLawClass
  d_properties :: LawProperties
  d_duplicate_policy :: DuplicatePolicy
  d_compaction_policy :: CompactionPolicy
  d_frontier_policy :: FrontierPolicy
  d_idempotent :: bool
  d_composable :: bool
  d_domain :: string
  d_evidence_ref :: string
  d_reassociation_admitted :: bool

definition from_bundle :: "LawBundle \<Rightarrow> LawDescriptor" where
  "from_bundle b = \<lparr>
     d_id = law_id b, d_version = law_version b, d_name = law_name b, d_class = law_class b,
     d_properties = law_properties b, d_duplicate_policy = duplicate_policy b,
     d_compaction_policy = compaction_policy b, d_frontier_policy = frontier_policy b,
     d_idempotent = idempotent (law_properties b), d_composable = composable (law_properties b),
     d_domain = law_domain b, d_evidence_ref = evidence_ref b,
     d_reassociation_admitted = reassociation_admitted b\<rparr>"

definition can_reassociate :: "LawDescriptor \<Rightarrow> bool" where
  "can_reassociate d \<longleftrightarrow> d_composable d \<and> d_reassociation_admitted d"

record ArrangementHeader =
  h_law_id :: u16
  h_law_version :: u16

definition header_encode :: "ArrangementHeader \<Rightarrow> bytes" where
  "header_encode h = to_be 2 (h_law_id h) @ to_be 2 (h_law_version h)"

text \<open>The argument is a \<open>&[u8; 4]\<close>; other lengths are no value of that type.\<close>

fun header_decode :: "bytes \<Rightarrow> ArrangementHeader option" where
  "header_decode [b0, b1, b2, b3] =
     Some \<lparr>h_law_id = from_be [b0, b1], h_law_version = from_be [b2, b3]\<rparr>"
| "header_decode _ = None"

section \<open>laws/weight\_add.rs\<close>

definition WEIGHT_ADD_ID :: u16 where "WEIGHT_ADD_ID = 1"

definition parse_weight :: "bytes \<Rightarrow> (LawError, i64) result" where
  "parse_weight bs =
     (if length bs \<noteq> 8 then Err (WeightAddLength (length bs))
      else map_err WeightAddMalformed (decode_i64_r bs))"

definition encode_weight :: "i64 \<Rightarrow> bytes" where
  "encode_weight w = encode_i64 w"

definition decode_weight :: "bytes \<Rightarrow> (LawError, i64) result" where
  "decode_weight bs = parse_weight bs"

definition weight_add_merge :: "bytes \<Rightarrow> bytes \<Rightarrow> (LawError, bytes) result" where
  "weight_add_merge left right =
     rbind (parse_weight left) (\<lambda>l.
     rbind (parse_weight right) (\<lambda>r.
     rbind (map_err (\<lambda>_. WeightAddOverflow) (checked_add_i64 l r)) (\<lambda>s.
     Ok (encode_i64 s))))"

definition weight_add_is_identity :: "bytes \<Rightarrow> bool" where
  "weight_add_is_identity v = (case parse_weight v of Ok w \<Rightarrow> w = 0 | _ \<Rightarrow> False)"

definition weight_add_inverse :: "bytes \<Rightarrow> (LawError, bytes) result" where
  "weight_add_inverse v =
     rbind (parse_weight v) (\<lambda>w.
     rbind (map_err (\<lambda>_. WeightAddInverseOverflow) (checked_neg_i64 w)) (\<lambda>i.
     Ok (encode_i64 i)))"

definition WeightAddV1 :: LawBundle where
  "WeightAddV1 = \<lparr>
     law_id = WEIGHT_ADD_ID, law_version = 1, law_name = ''WeightAdd'',
     law_properties = \<lparr>associative = True, commutative = True, idempotent = False,
       has_inverse = True, has_identity = True, composable = False\<rparr>,
     law_class = AbelianGroup, duplicate_policy = MergeDup, compaction_policy = TombstoneGc,
     frontier_policy = AnyAdvancement, law_identity = Some (encode_i64 0),
     law_merge = weight_add_merge, law_is_identity = weight_add_is_identity,
     law_inverse = weight_add_inverse, admits_reassociation = admit_i64_reassociation,
     reassociation_admitted = False,
     law_domain = ''checked i64 weights; regrouping requires absolute operand sum <= i64::MAX'',
     evidence_ref = ''VS1-02/VS1-03: arithmetic kernel, law tests, and VS1 ADR'',
     gateway_combiner = Some \<lparr>g_law_id = WEIGHT_ADD_ID, g_law_name = ''WeightAdd'',
       is_associative = True, is_commutative = True\<rparr>\<rparr>"

section \<open>laws/sum\_count.rs\<close>

definition SUM_COUNT_ID :: u16 where "SUM_COUNT_ID = 2"

definition SUM_COUNT_WIRE_SIZE :: usize where "SUM_COUNT_WIRE_SIZE = 16"

definition encode_sum_count :: "i64 \<Rightarrow> i64 \<Rightarrow> bytes" where
  "encode_sum_count s c = encode_i64 s @ encode_i64 c"

definition parse_sum_count :: "bytes \<Rightarrow> (LawError, i64 \<times> i64) result" where
  "parse_sum_count bs =
     (if length bs \<noteq> SUM_COUNT_WIRE_SIZE then Err (SumCountLength (length bs))
      else
        rbind (map_err SumCountMalformed (decode_i64_r (take 8 bs))) (\<lambda>s.
        rbind (map_err SumCountMalformed (decode_i64_r (take 8 (drop 8 bs)))) (\<lambda>c.
        Ok (s, c))))"

definition decode_sum_count :: "bytes \<Rightarrow> (LawError, i64 \<times> i64) result" where
  "decode_sum_count bs = parse_sum_count bs"

definition sum_count_merge :: "bytes \<Rightarrow> bytes \<Rightarrow> (LawError, bytes) result" where
  "sum_count_merge left right =
     rbind (parse_sum_count left) (\<lambda>(ls, lc).
     rbind (parse_sum_count right) (\<lambda>(rs, rc).
     rbind (map_err (\<lambda>_. SumCountSumOverflow) (checked_add_i64 ls rs)) (\<lambda>s.
     rbind (map_err (\<lambda>_. SumCountCountOverflow) (checked_add_i64 lc rc)) (\<lambda>c.
     Ok (encode_sum_count s c)))))"

definition sum_count_is_identity :: "bytes \<Rightarrow> bool" where
  "sum_count_is_identity v = (case parse_sum_count v of Ok (s, c) \<Rightarrow> s = 0 \<and> c = 0 | _ \<Rightarrow> False)"

definition sum_count_inverse :: "bytes \<Rightarrow> (LawError, bytes) result" where
  "sum_count_inverse v =
     rbind (parse_sum_count v) (\<lambda>(s, c).
     rbind (map_err (\<lambda>_. SumCountInverseSumOverflow) (checked_neg_i64 s)) (\<lambda>is.
     rbind (map_err (\<lambda>_. SumCountInverseCountOverflow) (checked_neg_i64 c)) (\<lambda>ic.
     Ok (encode_sum_count is ic))))"

definition SumCountV1 :: LawBundle where
  "SumCountV1 = \<lparr>
     law_id = SUM_COUNT_ID, law_version = 1, law_name = ''SumCount'',
     law_properties = \<lparr>associative = True, commutative = True, idempotent = False,
       has_inverse = True, has_identity = True, composable = True\<rparr>,
     law_class = AbelianGroup, duplicate_policy = MergeDup, compaction_policy = TombstoneGc,
     frontier_policy = ExactOnly, law_identity = Some (encode_sum_count 0 0),
     law_merge = sum_count_merge, law_is_identity = sum_count_is_identity,
     law_inverse = sum_count_inverse, admits_reassociation = admit_i64_reassociation,
     reassociation_admitted = False,
     law_domain = ''checked i64 sum/count partials; materialized count > 0; regrouping requires an absolute-sum budget'',
     evidence_ref = ''VS1-02/VS1-03/VS1-06: arithmetic kernel, law tests, and VS1 ADR'',
     gateway_combiner = Some \<lparr>g_law_id = SUM_COUNT_ID, g_law_name = ''SumCount'',
       is_associative = True, is_commutative = True\<rparr>\<rparr>"

section \<open>laws/registry.rs\<close>

type_synonym LawRegistry = "(u16, LawBundle) omap"

definition register :: "LawBundle \<Rightarrow> LawRegistry \<Rightarrow> (LawError, LawRegistry) result" where
  "register law laws =
     (if bt_contains laws (law_id law) then Panic else Ok (bt_insert (law_id law) law laws))"

definition with_builtins :: "(LawError, LawRegistry) result" where
  "with_builtins = rbind (register WeightAddV1 []) (register SumCountV1)"

definition registry_get :: "LawRegistry \<Rightarrow> u16 \<Rightarrow> LawBundle option" where
  "registry_get laws i = bt_get laws i"

definition descriptors :: "LawRegistry \<Rightarrow> LawDescriptor list" where
  "descriptors laws = map (\<lambda>e. from_bundle (snd e)) laws"

section \<open>The contract of a merge law\<close>

text \<open>
  A grouping of operands: compaction, partial aggregation and exchange combiners may bracket and
  reorder the operands of a key as they like.
\<close>

datatype grouping = Operand bytes | Merged grouping grouping

fun operands :: "grouping \<Rightarrow> bytes list" where
  "operands (Operand x) = [x]"
| "operands (Merged l r) = operands l @ operands r"

fun merge_grouping ::
  "(bytes \<Rightarrow> bytes \<Rightarrow> ('e, bytes) result) \<Rightarrow> grouping \<Rightarrow> ('e, bytes) result" where
  "merge_grouping m (Operand x) = Ok x"
| "merge_grouping m (Merged l r) =
     rbind (merge_grouping m l) (\<lambda>x. rbind (merge_grouping m r) (\<lambda>y. m x y))"

text \<open>
  The contract: \<open>sem\<close> reads an operand as a value of a commutative semigroup, an encoding is unique,
  and merging succeeds exactly when both operands are well formed and their sum has an encoding.
  A unit is adjoined to the semigroup so that the operands of a grouping can be summed as a
  multiset.
\<close>

fun lift_add :: "('g \<Rightarrow> 'g \<Rightarrow> 'g) \<Rightarrow> 'g option \<Rightarrow> 'g option \<Rightarrow> 'g option" where
  "lift_add f None y = y"
| "lift_add f (Some x) None = Some x"
| "lift_add f (Some x) (Some y) = Some (f x y)"

lemma lift_add_None [simp]: "lift_add f x None = x"
  by (cases x) auto

lemma lift_add_eq_Some:
  "lift_add f (Some x) y = Some (case y of None \<Rightarrow> x | Some y' \<Rightarrow> f x y')"
  by (cases y) auto

locale merge_semigroup = abel_semigroup add
  for add :: "'g \<Rightarrow> 'g \<Rightarrow> 'g" +
  fixes merge :: "bytes \<Rightarrow> bytes \<Rightarrow> ('e, bytes) result" and sem :: "bytes \<Rightarrow> 'g option"
  assumes sem_inject: "sem x = Some u \<Longrightarrow> sem y = Some u \<Longrightarrow> x = y"
    and merge_iff: "merge x y = Ok z \<longleftrightarrow>
      (\<exists>u v. sem x = Some u \<and> sem y = Some v \<and> sem z = Some (add u v))"

sublocale merge_semigroup \<subseteq> sums: comm_monoid_mset "lift_add add" None
proof
  fix a b c :: "'g option"
  show "lift_add add (lift_add add a b) c = lift_add add a (lift_add add b c)"
    by (cases a; cases b; cases c) (simp_all add: assoc)
  show "lift_add add a b = lift_add add b a"
    by (cases a; cases b) (simp_all add: commute)
qed simp

context merge_semigroup
begin

lemma merge_commutes: "merge x y = Ok z \<longleftrightarrow> merge y x = Ok z"
  by (auto simp: merge_iff commute)

lemma merge_reassociates:
  assumes "merge x y = Ok xy" "merge y z = Ok yz"
  shows "merge xy z = Ok r \<longleftrightarrow> merge x yz = Ok r"
  using assms by (auto simp: merge_iff assoc)

lemma operands_nonempty: "operands t \<noteq> []"
  by (induction t) auto

lemma sum_Some: "M \<noteq> {#} \<Longrightarrow> \<forall>x \<in># M. sem x \<noteq> None \<Longrightarrow> \<exists>u. sums.F (image_mset sem M) = Some u"
  by (cases M) (auto simp: lift_add_eq_Some)

text \<open>The result of a grouping is the sum of its operands, whatever the bracketing.\<close>

lemma grouping_sem:
  assumes "\<forall>x \<in> set (operands t). sem x \<noteq> None" "merge_grouping merge t = Ok z"
  shows "sem z = sums.F (image_mset sem (mset (operands t)))"
  using assms
proof (induction t arbitrary: z)
  case (Merged l r)
  then obtain x y where "merge_grouping merge l = Ok x" "merge_grouping merge r = Ok y"
    and xy: "merge x y = Ok z"
    by (auto simp: rbind_Ok)
  then have "sem x = sums.F (image_mset sem (mset (operands l)))"
    "sem y = sums.F (image_mset sem (mset (operands r)))"
    using Merged by auto
  then show ?case using xy by (auto simp: merge_iff)
qed auto

lemma groupings_agree:
  assumes "\<forall>x \<in> set (operands t). sem x \<noteq> None" "mset (operands t) = mset (operands t')"
    and "merge_grouping merge t = Ok z" "merge_grouping merge t' = Ok z'"
  shows "z = z'"
proof -
  have "set (operands t) = set (operands t')" using assms(2) by (metis set_mset_mset)
  then have "sem z = sem z'"
    using assms grouping_sem [of t z] grouping_sem [of t' z'] by simp
  moreover have "\<exists>u. sums.F (image_mset sem (mset (operands t))) = Some u"
    using assms(1) operands_nonempty [of t] by (intro sum_Some) auto
  then obtain u where "sem z = Some u" using grouping_sem [OF assms(1,3)] by auto
  ultimately show ?thesis using sem_inject by metis
qed

text \<open>If every partial sum has an encoding, every grouping succeeds.\<close>

lemma grouping_succeeds:
  assumes "\<forall>x \<in> set (operands t). sem x \<noteq> None"
    and "\<And>M. M \<noteq> {#} \<Longrightarrow> M \<subseteq># mset (operands t) \<Longrightarrow> \<exists>z. sem z = sums.F (image_mset sem M)"
  shows "\<exists>z. merge_grouping merge t = Ok z"
  using assms
proof (induction t)
  case (Merged l r)
  obtain x where x: "merge_grouping merge l = Ok x"
    using Merged.IH(1) Merged.prems by (auto simp: subset_mset.add_increasing2)
  obtain y where y: "merge_grouping merge r = Ok y"
    using Merged.IH(2) Merged.prems by (auto simp: subset_mset.add_increasing)
  have sx: "sem x = sums.F (image_mset sem (mset (operands l)))"
    and sy: "sem y = sums.F (image_mset sem (mset (operands r)))"
    using grouping_sem [OF _ x] grouping_sem [OF _ y] Merged.prems(1) by auto
  obtain u v where uv: "sem x = Some u" "sem y = Some v"
    using sum_Some [of "mset (operands l)"] sum_Some [of "mset (operands r)"] sx sy
      Merged.prems(1) operands_nonempty by fastforce
  obtain z where "sem z = sums.F (image_mset sem (mset (operands (Merged l r))))"
    using Merged.prems(2) operands_nonempty by (metis mset_zero_iff subset_mset.order_refl)
  then have "sem z = lift_add add (sem x) (sem y)" by (simp add: sx sy)
  then have "merge x y = Ok z" by (simp add: merge_iff uv)
  then show ?case using x y by auto
qed auto

end

text \<open>A law with an identity element, which merging leaves out of the sum.\<close>

locale merge_law = merge_semigroup add merge sem
  for add :: "'g \<Rightarrow> 'g \<Rightarrow> 'g" and merge :: "bytes \<Rightarrow> bytes \<Rightarrow> ('e, bytes) result"
    and sem :: "bytes \<Rightarrow> 'g option" +
  fixes zero :: 'g and identity :: bytes
  assumes add_zero: "add u zero = u" and sem_identity: "sem identity = Some zero"
begin

lemma merge_identity: "sem x = Some u \<Longrightarrow> merge x identity = Ok x"
  by (simp add: merge_iff sem_identity add_zero)

lemma merge_identity_only: "merge x identity = Ok z \<Longrightarrow> z = x"
  by (auto simp: merge_iff sem_identity add_zero dest: sem_inject)

end

section \<open>WeightAdd and SumCount satisfy the contract\<close>

lemma encode_i64_eq: "encode_i64 v = encode_u64_be (bits v)"
  by (simp add: encode_i64_def encode_u64_be_eq)

lemma decode_i64_r_Ok: "decode_i64_r bs = Ok v \<longleftrightarrow> bs = encode_i64 v"
  by (simp add: decode_i64_r_def i64_be.dec_Some encode_i64_eq)

lemma length_encode_i64 [simp]: "length (encode_i64 v) = 8"
  by (simp add: encode_i64_def)

lemma encode_i64_inject [simp]: "encode_i64 v = encode_i64 w \<longleftrightarrow> v = w"
  by (simp add: encode_i64_eq i64_be.enc_inject)

lemma encode_sum_count_inject [simp]:
  "encode_sum_count s c = encode_sum_count s' c' \<longleftrightarrow> s = s' \<and> c = c'"
  by (simp add: encode_sum_count_def)

lemma checked_add_i64_Ok: "checked_add_i64 a b = Ok c \<longleftrightarrow> ival c = ival a + ival b"
  by (simp add: checked_add_i64_def checked_i64_add_def i64_checked_add_Some)

lemma checked_neg_i64_Ok: "checked_neg_i64 a = Ok b \<longleftrightarrow> ival b = - ival a"
  by (simp add: checked_neg_i64_def checked_i64_neg_Some)

lemma parse_weight_Ok: "parse_weight bs = Ok w \<longleftrightarrow> bs = encode_i64 w"
  by (auto simp: parse_weight_def decode_i64_r_Ok)

lemma parse_sum_count_Ok: "parse_sum_count bs = Ok (s, c) \<longleftrightarrow> bs = encode_sum_count s c"
proof
  assume "parse_sum_count bs = Ok (s, c)"
  then have "take 8 bs = encode_i64 s" "drop 8 bs = encode_i64 c"
    by (auto simp: parse_sum_count_def SUM_COUNT_WIRE_SIZE_def rbind_Ok decode_i64_r_Ok
        split: if_splits)
  then show "bs = encode_sum_count s c"
    by (metis append_take_drop_id encode_sum_count_def)
qed (simp add: parse_sum_count_def SUM_COUNT_WIRE_SIZE_def encode_sum_count_def rbind_Ok
    decode_i64_r_Ok)

definition weight_sem :: "bytes \<Rightarrow> int option" where
  "weight_sem bs = map_option ival (res_ok (parse_weight bs))"

definition sum_count_sem :: "bytes \<Rightarrow> (int \<times> int) option" where
  "sum_count_sem bs = map_option (\<lambda>(s, c). (ival s, ival c)) (res_ok (parse_sum_count bs))"

definition pair_add :: "int \<times> int \<Rightarrow> int \<times> int \<Rightarrow> int \<times> int" where
  "pair_add p q = (fst p + fst q, snd p + snd q)"

lemma pair_add_sel: "fst (pair_add p q) = fst p + fst q" "snd (pair_add p q) = snd p + snd q"
  by (simp_all add: pair_add_def)

lemma weight_sem_Some: "weight_sem bs = Some i \<longleftrightarrow> (\<exists>w. bs = encode_i64 w \<and> i = ival w)"
  by (auto simp: weight_sem_def parse_weight_Ok)

lemma sum_count_sem_Some:
  "sum_count_sem bs = Some p \<longleftrightarrow> (\<exists>s c. bs = encode_sum_count s c \<and> p = (ival s, ival c))"
  by (auto simp: sum_count_sem_def parse_sum_count_Ok)

interpretation weight_law: merge_law "(+)" weight_add_merge weight_sem 0 "encode_i64 0"
  by unfold_locales
    (auto simp: weight_sem_Some weight_add_merge_def rbind_Ok parse_weight_Ok checked_add_i64_Ok)

interpretation sum_count_law:
  merge_law pair_add sum_count_merge sum_count_sem "(0, 0)" "encode_sum_count 0 0"
  by unfold_locales
    (auto simp: sum_count_sem_Some sum_count_merge_def rbind_Ok parse_sum_count_Ok
      checked_add_i64_Ok pair_add_def)

section \<open>The regrouping budget\<close>

lemma unat_unsigned_abs: "unat (unsigned_abs v) = nat \<bar>ival v\<bar>"
proof -
  have "\<bar>ival v\<bar> < 2 ^ 128" using ival_bounds [of v] by simp
  then show ?thesis by (simp add: unsigned_abs_def unat_eq_nat_uint uint_word_of_int_eq take_bit_eq_mod)
qed

lemma abs_total_exact:
  "unat acc + (\<Sum>v\<leftarrow>vs. nat \<bar>ival v\<bar>) < 2 ^ 128 \<Longrightarrow>
     \<exists>t. abs_total acc vs = Some t \<and> unat t = unat acc + (\<Sum>v\<leftarrow>vs. nat \<bar>ival v\<bar>)"
proof (induction vs arbitrary: acc)
  case (Cons v vs)
  have "unat acc + nat \<bar>ival v\<bar> < 2 ^ 128" using Cons.prems by simp
  then obtain acc' where acc': "checked_add_w acc (unsigned_abs v) = Some acc'"
    by (auto simp: checked_add_w_def unat_unsigned_abs)
  then have "unat acc' = unat acc + nat \<bar>ival v\<bar>"
    by (simp add: checked_add_w_Some unat_unsigned_abs)
  then show ?case using Cons.IH [of acc'] Cons.prems acc' by (simp add: add.assoc)
qed auto

text \<open>A slice of \<open>i64\<close> has at most \<open>isize::MAX / 8\<close> elements, so the \<open>u128\<close> total cannot overflow.\<close>

lemma admit_i64_reassociation_iff:
  assumes "length vs \<le> 2 ^ 60"
  shows "admit_i64_reassociation vs \<longleftrightarrow> (\<Sum>v\<leftarrow>vs. \<bar>ival v\<bar>) \<le> 2 ^ 63 - 1"
proof -
  have "nat \<bar>ival v\<bar> \<le> 2 ^ 63" for v using ival_bounds [of v] by simp
  then have "(\<Sum>v\<leftarrow>vs. nat \<bar>ival v\<bar>) \<le> (\<Sum>v\<leftarrow>vs. 2 ^ 63)" by (intro sum_list_mono)
  also have "\<dots> \<le> 2 ^ 60 * 2 ^ 63" using assms by (simp add: sum_list_triv)
  finally have "(\<Sum>v\<leftarrow>vs. nat \<bar>ival v\<bar>) < 2 ^ 128" by simp
  then obtain t where t: "abs_total 0 vs = Some t" "unat t = (\<Sum>v\<leftarrow>vs. nat \<bar>ival v\<bar>)"
    using abs_total_exact [of 0 vs] by auto
  have "int (\<Sum>v\<leftarrow>vs. nat \<bar>ival v\<bar>) = (\<Sum>v\<leftarrow>vs. \<bar>ival v\<bar>)"
    by (induction vs) auto
  then have "t \<le> 0x7FFFFFFFFFFFFFFF \<longleftrightarrow> (\<Sum>v\<leftarrow>vs. \<bar>ival v\<bar>) \<le> 2 ^ 63 - 1"
    using t(2) by (simp add: word_le_nat_alt flip: of_nat_le_iff [where 'a = int])
  then show ?thesis by (simp add: admit_i64_reassociation_def t(1))
qed

lemma sub_sum_bound:
  fixes f :: "'a \<Rightarrow> int"
  assumes "M \<subseteq># N" shows "\<bar>\<Sum>x\<in>#M. f x\<bar> \<le> (\<Sum>x\<in>#N. \<bar>f x\<bar>)"
proof -
  have "\<bar>\<Sum>x\<in>#M. f x\<bar> \<le> (\<Sum>x\<in>#M. \<bar>f x\<bar>)" by (induction M) auto
  moreover have "(\<Sum>x\<in>#N. \<bar>f x\<bar>) = (\<Sum>x\<in>#M. \<bar>f x\<bar>) + (\<Sum>x\<in>#N - M. \<bar>f x\<bar>)"
    using assms by (metis image_mset_union subset_mset.add_diff_inverse sum_mset.union)
  moreover have "0 \<le> (\<Sum>x\<in>#K. \<bar>f x\<bar>)" for K by (induction K) auto
  ultimately show ?thesis by (metis add_increasing2 order_trans order_refl)
qed

text \<open>Every partial sum of admitted operands is an \<open>i64\<close>.\<close>

lemma admitted_sub_sum:
  assumes "length vs \<le> 2 ^ 60" "admit_i64_reassociation vs" "M \<subseteq># mset vs"
  shows "\<exists>w. ival w = (\<Sum>v\<in>#M. ival v)"
proof -
  have "(\<Sum>v\<in>#mset vs. \<bar>ival v\<bar>) = (\<Sum>v\<leftarrow>vs. \<bar>ival v\<bar>)"
    by (metis mset_map sum_mset_sum_list)
  then have "\<bar>\<Sum>v\<in>#M. ival v\<bar> \<le> 2 ^ 63 - 1"
    using assms sub_sum_bound [OF assms(3), of ival] by (simp add: admit_i64_reassociation_iff)
  then have "in_i64 (\<Sum>v\<in>#M. ival v)" unfolding in_i64_def abs_le_iff by linarith
  then show ?thesis by (metis ival_of_ival)
qed

section \<open>Properties\<close>

lemma weight_sem_encode [simp]: "weight_sem (encode_i64 w) = Some (ival w)"
  by (simp add: weight_sem_Some)

lemma sum_count_sem_encode [simp]: "sum_count_sem (encode_sum_count s c) = Some (ival s, ival c)"
  by (simp add: sum_count_sem_Some)

definition enc_pair :: "i64 \<times> i64 \<Rightarrow> bytes" where
  "enc_pair p = encode_sum_count (fst p) (snd p)"

lemma weight_sums:
  "N \<noteq> {#} \<Longrightarrow> weight_law.sums.F (image_mset weight_sem (image_mset encode_i64 N)) =
     Some (\<Sum>w\<in>#N. ival w)"
proof (induction N)
  case (add w N)
  then show ?case by (cases "N = {#}") simp_all
qed simp

lemma sum_count_sums:
  "N \<noteq> {#} \<Longrightarrow> sum_count_law.sums.F (image_mset sum_count_sem (image_mset enc_pair N)) =
     Some (\<Sum>p\<in>#N. ival (fst p), \<Sum>p\<in>#N. ival (snd p))"
proof (induction N)
  case (add p N)
  then show ?case
    by (cases "N = {#}") (simp_all add: enc_pair_def prod_eq_iff pair_add_sel)
qed simp

lemma sum_list_mset: "(\<Sum>x\<leftarrow>xs. f x) = (\<Sum>x\<in>#mset xs. f x)"
  by (metis mset_map sum_mset_sum_list)

text \<open>
  (C28) Whenever \<open>WeightAdd/v1\<close> admits a list of weights for reassociation, every bracketing and
  every ordering of their encodings merges without error, and the bytes that come out encode the
  exact sum.
\<close>

theorem weight_add_regroup:
  assumes "length ws \<le> 2 ^ 60" "admits_reassociation WeightAddV1 ws"
    and "mset (operands t) = mset (map encode_weight ws)"
  shows "\<exists>w. ival w = (\<Sum>w\<leftarrow>ws. ival w)
    \<and> merge_grouping (law_merge WeightAddV1) t = Ok (encode_weight w)"
proof -
  have adm: "admit_i64_reassociation ws" using assms(2) by (simp add: WeightAddV1_def)
  have ops: "mset (operands t) = image_mset encode_i64 (mset ws)"
    using assms(3) by (simp add: encode_weight_def [abs_def])
  then have valid: "\<forall>x \<in> set (operands t). weight_sem x \<noteq> None"
    by (auto simp flip: set_mset_mset)
  have part: "\<exists>z. weight_sem z = weight_law.sums.F (image_mset weight_sem M)"
    if M: "M \<noteq> {#}" "M \<subseteq># mset (operands t)" for M
  proof -
    obtain N where N: "N \<subseteq># mset ws" "M = image_mset encode_i64 N"
      using M(2) unfolding ops by (rule subseteq_image_msetE)
    obtain w where "ival w = (\<Sum>v\<in>#N. ival v)"
      using admitted_sub_sum [OF assms(1) adm N(1)] by blast
    then have "weight_sem (encode_i64 w) = weight_law.sums.F (image_mset weight_sem M)"
      using M(1) N(2) weight_sums [of N] by simp
    then show ?thesis by blast
  qed
  obtain z where z: "merge_grouping weight_add_merge t = Ok z"
    using weight_law.grouping_succeeds [OF valid part] by blast
  have "mset ws \<noteq> {#}" using ops weight_law.operands_nonempty [of t] by auto
  then have "weight_sem z = Some (\<Sum>w\<leftarrow>ws. ival w)"
    using weight_law.grouping_sem [OF valid z] weight_sums [of "mset ws"]
    by (simp add: ops sum_list_mset)
  then show ?thesis using z by (auto simp: weight_sem_Some encode_weight_def WeightAddV1_def)
qed

theorem weight_add_regroup_witness:
  "\<exists>w. ival w = (\<Sum>w\<leftarrow>[of_ival 5, of_ival (- 7), of_ival 4]. ival w)
    \<and> merge_grouping (law_merge WeightAddV1)
        (Merged (Operand (encode_weight (of_ival 4)))
          (Merged (Operand (encode_weight (of_ival 5))) (Operand (encode_weight (of_ival (- 7))))))
      = Ok (encode_weight w)"
proof (rule weight_add_regroup)
  show "admits_reassociation WeightAddV1 [of_ival 5, of_ival (- 7), of_ival 4]"
    by (simp add: WeightAddV1_def admit_i64_reassociation_iff in_i64_def)
qed simp_all

text \<open>
  (C29) Whenever the sums and the counts of a list of \<open>SumCount/v1\<close> accumulators are each admitted
  for reassociation, every bracketing and ordering of the accumulators merges without error into
  the accumulator of the exact total sum and total count.
\<close>

theorem sum_count_regroup:
  assumes "length ps \<le> 2 ^ 60" "admits_reassociation SumCountV1 (map fst ps)"
    and "admits_reassociation SumCountV1 (map snd ps)"
    and "mset (operands t) = mset (map (\<lambda>(s, c). encode_sum_count s c) ps)"
  shows "\<exists>s c. ival s = (\<Sum>p\<leftarrow>ps. ival (fst p)) \<and> ival c = (\<Sum>p\<leftarrow>ps. ival (snd p))
    \<and> merge_grouping (law_merge SumCountV1) t = Ok (encode_sum_count s c)"
proof -
  have adm: "admit_i64_reassociation (map fst ps)" "admit_i64_reassociation (map snd ps)"
    using assms(2,3) by (simp_all add: SumCountV1_def)
  have ops: "mset (operands t) = image_mset enc_pair (mset ps)"
    using assms(4) by (simp add: enc_pair_def [abs_def] case_prod_unfold)
  then have valid: "\<forall>x \<in> set (operands t). sum_count_sem x \<noteq> None"
    by (auto simp: enc_pair_def simp flip: set_mset_mset)
  have part: "\<exists>z. sum_count_sem z = sum_count_law.sums.F (image_mset sum_count_sem M)"
    if M: "M \<noteq> {#}" "M \<subseteq># mset (operands t)" for M
  proof -
    obtain N where N: "N \<subseteq># mset ps" "M = image_mset enc_pair N"
      using M(2) unfolding ops by (rule subseteq_image_msetE)
    then have "image_mset fst N \<subseteq># mset (map fst ps)" "image_mset snd N \<subseteq># mset (map snd ps)"
      by (simp_all add: image_mset_subseteq_mono)
    then obtain s c where "ival s = (\<Sum>p\<in>#N. ival (fst p))" "ival c = (\<Sum>p\<in>#N. ival (snd p))"
      using admitted_sub_sum [OF _ adm(1), of "image_mset fst N"]
        admitted_sub_sum [OF _ adm(2), of "image_mset snd N"] assms(1)
      by (auto simp: multiset.map_comp comp_def)
    then have "sum_count_sem (encode_sum_count s c)
        = sum_count_law.sums.F (image_mset sum_count_sem M)"
      using M(1) N(2) sum_count_sums [of N] by simp
    then show ?thesis by blast
  qed
  obtain z where z: "merge_grouping sum_count_merge t = Ok z"
    using sum_count_law.grouping_succeeds [OF valid part] by blast
  have "mset ps \<noteq> {#}" using ops sum_count_law.operands_nonempty [of t] by auto
  then have "sum_count_sem z = Some (\<Sum>p\<leftarrow>ps. ival (fst p), \<Sum>p\<leftarrow>ps. ival (snd p))"
    using sum_count_law.grouping_sem [OF valid z] sum_count_sums [of "mset ps"]
    by (simp add: ops sum_list_mset)
  then show ?thesis using z by (auto simp: sum_count_sem_Some SumCountV1_def)
qed

theorem sum_count_regroup_witness:
  "\<exists>s c. ival s = (\<Sum>p\<leftarrow>[(of_ival 9, of_ival 2), (of_ival (- 4), of_ival (- 1))]. ival (fst p))
    \<and> ival c = (\<Sum>p\<leftarrow>[(of_ival 9, of_ival 2), (of_ival (- 4), of_ival (- 1))]. ival (snd p))
    \<and> merge_grouping (law_merge SumCountV1)
        (Merged (Operand (encode_sum_count (of_ival (- 4)) (of_ival (- 1))))
          (Operand (encode_sum_count (of_ival 9) (of_ival 2))))
      = Ok (encode_sum_count s c)"
proof (rule sum_count_regroup)
  show "admits_reassociation SumCountV1 (map fst [(of_ival 9, of_ival 2), (of_ival (- 4), of_ival (- 1))])"
    "admits_reassociation SumCountV1 (map snd [(of_ival 9, of_ival 2), (of_ival (- 4), of_ival (- 1))])"
    by (simp_all add: SumCountV1_def admit_i64_reassociation_iff in_i64_def)
qed simp_all

lemma weight_add_is_identity_iff: "weight_add_is_identity x \<longleftrightarrow> x = encode_i64 0"
proof
  assume "weight_add_is_identity x"
  then show "x = encode_i64 0"
    by (auto simp: weight_add_is_identity_def parse_weight_Ok split: result.splits)
next
  assume "x = encode_i64 0"
  then have "parse_weight x = Ok 0" by (simp add: parse_weight_Ok)
  then show "weight_add_is_identity x" by (simp add: weight_add_is_identity_def)
qed

lemma sum_count_is_identity_iff: "sum_count_is_identity x \<longleftrightarrow> x = encode_sum_count 0 0"
proof
  assume "sum_count_is_identity x"
  then show "x = encode_sum_count 0 0"
    by (auto simp: sum_count_is_identity_def parse_sum_count_Ok split: result.splits)
next
  assume "x = encode_sum_count 0 0"
  then have "parse_sum_count x = Ok (0, 0)" by (simp add: parse_sum_count_Ok)
  then show "sum_count_is_identity x" by (simp add: sum_count_is_identity_def)
qed

lemma weight_add_inverse_Ok:
  "weight_add_inverse x = Ok y \<longleftrightarrow> (\<exists>u. weight_sem x = Some u \<and> weight_sem y = Some (- u))"
  by (auto simp: weight_add_inverse_def rbind_Ok parse_weight_Ok checked_neg_i64_Ok weight_sem_Some)

lemma sum_count_inverse_Ok:
  "sum_count_inverse x = Ok y \<longleftrightarrow>
     (\<exists>u v. sum_count_sem x = Some (u, v) \<and> sum_count_sem y = Some (- u, - v))"
  by (auto simp: sum_count_inverse_def rbind_Ok parse_sum_count_Ok checked_neg_i64_Ok
      sum_count_sem_Some)

text \<open>
  (C30) What \<open>TombstoneGc\<close> compaction relies on: for both built-in laws an operand is recognised as
  the identity exactly when it is the declared identity, merging with the identity gives the
  operand back, and merging an operand with its executable inverse gives the identity.
\<close>

theorem law_identity_inverse:
  assumes "law \<in> {WeightAddV1, SumCountV1}" "law_identity law = Some i"
  shows "(law_is_identity law x \<longleftrightarrow> x = i)
    \<and> (\<forall>z. law_merge law x i = Ok z \<longrightarrow> z = x)
    \<and> (\<forall>y. law_inverse law x = Ok y \<longrightarrow> law_merge law x y = Ok i \<and> law_merge law x i = Ok x)"
proof -
  have "(law_is_identity WeightAddV1 x \<longleftrightarrow> x = i)
      \<and> (\<forall>z. law_merge WeightAddV1 x i = Ok z \<longrightarrow> z = x)
      \<and> (\<forall>y. law_inverse WeightAddV1 x = Ok y \<longrightarrow>
           law_merge WeightAddV1 x y = Ok i \<and> law_merge WeightAddV1 x i = Ok x)"
    if "i = encode_i64 0"
    using that weight_law.sem_inject
    by (auto simp: WeightAddV1_def weight_add_is_identity_iff weight_law.merge_iff
        weight_add_inverse_Ok)
  moreover have "(law_is_identity SumCountV1 x \<longleftrightarrow> x = i)
      \<and> (\<forall>z. law_merge SumCountV1 x i = Ok z \<longrightarrow> z = x)
      \<and> (\<forall>y. law_inverse SumCountV1 x = Ok y \<longrightarrow>
           law_merge SumCountV1 x y = Ok i \<and> law_merge SumCountV1 x i = Ok x)"
    if "i = encode_sum_count 0 0"
    using that sum_count_law.sem_inject
    by (auto simp: SumCountV1_def sum_count_is_identity_iff sum_count_law.merge_iff
        sum_count_inverse_Ok pair_add_def)
  ultimately show ?thesis using assms by (auto simp: WeightAddV1_def SumCountV1_def)
qed

theorem law_identity_inverse_witness:
  "law_merge SumCountV1 (encode_sum_count (of_ival 7) 1) (encode_sum_count (of_ival (- 7)) (of_ival (- 1)))
     = Ok (encode_sum_count 0 0)"
proof -
  have "law_inverse SumCountV1 (encode_sum_count (of_ival 7) 1)
      = Ok (encode_sum_count (of_ival (- 7)) (of_ival (- 1)))"
    by (simp add: SumCountV1_def sum_count_inverse_Ok in_i64_def)
  then show ?thesis
    using law_identity_inverse [of SumCountV1 "encode_sum_count 0 0"]
    by (auto simp: SumCountV1_def)
qed

text \<open>
  The laws declare themselves associative with an inverse for every element. On the checked
  domain neither is unconditional: near the bounds one bracketing overflows, and \<open>i64::MIN\<close> has
  no inverse. This is why regrouping needs the budget above.
\<close>

lemma weight_add_bracketing_overflow:
  "weight_add_merge (encode_i64 (of_ival (2 ^ 63 - 1))) (encode_i64 1) = Err WeightAddOverflow"
  "rbind (weight_add_merge (encode_i64 1) (encode_i64 (of_ival (- 1))))
     (weight_add_merge (encode_i64 (of_ival (2 ^ 63 - 1)))) = Ok (encode_i64 (of_ival (2 ^ 63 - 1)))"
  "weight_add_inverse (encode_i64 (of_ival (- (2 ^ 63)))) = Err WeightAddInverseOverflow"
proof -
  have parse: "parse_weight (encode_i64 w) = Ok w" for w by (simp add: parse_weight_Ok)
  show "weight_add_merge (encode_i64 (of_ival (2 ^ 63 - 1))) (encode_i64 1) = Err WeightAddOverflow"
    by (simp add: weight_add_merge_def parse checked_add_i64_def checked_i64_add_def i64_eval)
  show "weight_add_inverse (encode_i64 (of_ival (- (2 ^ 63)))) = Err WeightAddInverseOverflow"
    by (simp add: weight_add_inverse_def parse checked_neg_i64_def checked_i64_neg_def i64_eval)
  show "rbind (weight_add_merge (encode_i64 1) (encode_i64 (of_ival (- 1))))
     (weight_add_merge (encode_i64 (of_ival (2 ^ 63 - 1)))) = Ok (encode_i64 (of_ival (2 ^ 63 - 1)))"
    by (simp add: weight_add_merge_def parse checked_add_i64_def checked_i64_add_def i64_eval)
qed

text \<open>The built-in registry: two distinct identifiers, so registration does not panic.\<close>

lemma with_builtins_get:
  "\<exists>reg. with_builtins = Ok reg \<and> registry_get reg WEIGHT_ADD_ID = Some WeightAddV1
     \<and> registry_get reg SUM_COUNT_ID = Some SumCountV1
     \<and> (\<forall>d \<in> set (descriptors reg). \<not> can_reassociate d)"
proof -
  have ids: "law_id WeightAddV1 = 1" "law_id SumCountV1 = 2"
    by (simp_all add: WeightAddV1_def SumCountV1_def WEIGHT_ADD_ID_def SUM_COUNT_ID_def)
  have "\<not> can_reassociate (from_bundle WeightAddV1)" "\<not> can_reassociate (from_bundle SumCountV1)"
    by (simp_all add: can_reassociate_def from_bundle_def WeightAddV1_def SumCountV1_def)
  then show ?thesis
    by (simp add: with_builtins_def register_def bt_contains_def registry_get_def descriptors_def
        WEIGHT_ADD_ID_def SUM_COUNT_ID_def ids)
qed

text \<open>The four-byte header of a stored arrangement value decodes to what was encoded.\<close>

interpretation arrangement_header: fixed_codec header_encode header_decode 4
proof
  fix h :: ArrangementHeader and bs
  have two: "(256 :: nat) ^ 2 = 2 ^ LENGTH(16)" by simp
  have split: "to_be 2 w = [a, b] \<longleftrightarrow> w = from_be [a, b]" for w :: u16 and a b
    using to_be_from_be [OF two, of "[a, b]"] from_be_to_be [OF two, of w] by auto
  show "length (header_encode h) = 4" by (simp add: header_encode_def)
  obtain a b c d where h: "to_be 2 (h_law_id h) = [a, b]" "to_be 2 (h_law_version h) = [c, d]"
    by (simp add: numeral_eq_Suc)
  then have "h_law_id h = from_be [a, b]" "h_law_version h = from_be [c, d]"
    by (simp_all only: split)
  then show "header_decode (header_encode h) = Some h"
    using h by (cases h) (simp add: header_encode_def)
  show "header_decode bs = Some h \<Longrightarrow> bs = header_encode h"
    by (cases bs rule: header_decode.cases)
      (auto simp: header_encode_def to_be_from_be [OF two])
qed

end
