(* ===== verification/MergeOperator.thy ===== *)
theory MergeOperator
  imports MergeLaws
begin

text \<open>
  The merge operator of the storage layer (\<open>rockstream-storage/src/merge_registry.rs\<close>), which
  SlateDB calls to fold the operands of a key in any grouping it likes, and the law-aware reads of
  \<open>shard_db.rs\<close>, which validate a stored value against a merge law.
\<close>

section \<open>Tags\<close>

datatype MergeTag = Sum | Count | MaxRegister | MinRegister | LWWRegister | PNCounter

fun tag_byte :: "MergeTag \<Rightarrow> u8" where
  "tag_byte Sum = 0x01"
| "tag_byte Count = 0x02"
| "tag_byte MaxRegister = 0x03"
| "tag_byte MinRegister = 0x04"
| "tag_byte LWWRegister = 0x22"
| "tag_byte PNCounter = 0x30"

definition from_u8 :: "u8 \<Rightarrow> MergeTag option" where
  "from_u8 tag =
     (if tag = 0x01 then Some Sum
      else if tag = 0x02 then Some Count
      else if tag = 0x03 then Some MaxRegister
      else if tag = 0x04 then Some MinRegister
      else if tag = 0x22 then Some LWWRegister
      else if tag = 0x30 then Some PNCounter
      else None)"

fun payload_len :: "MergeTag \<Rightarrow> usize" where
  "payload_len LWWRegister = 16"
| "payload_len _ = 8"

definition expected_len :: "MergeTag \<Rightarrow> usize" where
  "expected_len tag = 1 + payload_len tag"

text \<open>\<open>str::eq_ignore_ascii_case\<close> and the first piece of \<open>str::split('/')\<close>.\<close>

definition ascii_lower :: "char \<Rightarrow> char" where
  "ascii_lower c =
     (if 65 \<le> (of_char c :: nat) \<and> (of_char c :: nat) \<le> 90
      then char_of ((of_char c :: nat) + 32) else c)"

definition eq_ignore_ascii_case :: "string \<Rightarrow> string \<Rightarrow> bool" where
  "eq_ignore_ascii_case s t \<longleftrightarrow> map ascii_lower s = map ascii_lower t"

definition base_name :: "string \<Rightarrow> string" where
  "base_name s = takeWhile (\<lambda>c. c \<noteq> CHR ''/'') s"

fun is_compatible_with_law :: "MergeTag \<Rightarrow> LawBundle \<Rightarrow> bool" where
  "is_compatible_with_law Sum law =
     (law_id law = 0x0001
      \<or> eq_ignore_ascii_case (base_name (law_name law)) ''WeightAdd''
      \<or> eq_ignore_ascii_case (base_name (law_name law)) ''Sum'')"
| "is_compatible_with_law PNCounter law =
     (law_id law = 0x0001 \<or> law_id law = 10 \<or> law_id law = 0x0030
      \<or> eq_ignore_ascii_case (base_name (law_name law)) ''WeightAdd''
      \<or> eq_ignore_ascii_case (base_name (law_name law)) ''Sum''
      \<or> eq_ignore_ascii_case (base_name (law_name law)) ''PNCounter''
      \<or> eq_ignore_ascii_case (base_name (law_name law)) ''PN-Counter'')"
| "is_compatible_with_law Count law =
     (law_id law = 0x0002
      \<or> eq_ignore_ascii_case (base_name (law_name law)) ''Count''
      \<or> eq_ignore_ascii_case (base_name (law_name law)) ''SumCount'')"
| "is_compatible_with_law MaxRegister law =
     (law_id law = 0x0003 \<or> law_id law = 11 \<or> law_id law = 0x1001
      \<or> eq_ignore_ascii_case (base_name (law_name law)) ''MaxRegister''
      \<or> eq_ignore_ascii_case (base_name (law_name law)) ''Max'')"
| "is_compatible_with_law MinRegister law =
     (law_id law = 0x0004
      \<or> eq_ignore_ascii_case (base_name (law_name law)) ''MinRegister''
      \<or> eq_ignore_ascii_case (base_name (law_name law)) ''Min'')"
| "is_compatible_with_law LWWRegister law =
     (law_id law = 0x0022
      \<or> eq_ignore_ascii_case (base_name (law_name law)) ''LWWRegister''
      \<or> eq_ignore_ascii_case (base_name (law_name law)) ''LWW'')"

section \<open>Resolving a stored operand\<close>

datatype LawOperandView = Raw bytes | Tagged MergeTag bytes

datatype LawOperandError =
    IncompatibleTag MergeTag string u16
  | MalformedTaggedLength MergeTag usize usize

definition resolve_law_operand ::
  "LawBundle \<Rightarrow> bytes \<Rightarrow> (LawOperandError, LawOperandView) result" where
  "resolve_law_operand law bs =
     (case bs of
        [] \<Rightarrow> Ok (Raw bs)
      | first # rest \<Rightarrow>
          case from_u8 first of
            None \<Rightarrow> Ok (Raw bs)
          | Some tag \<Rightarrow>
              if length bs = expected_len tag then
                (if is_compatible_with_law tag law then Ok (Tagged tag rest)
                 else Err (IncompatibleTag tag (law_name law) (law_id law)))
              else if is_compatible_with_law tag law then
                (if length bs = payload_len tag then Ok (Raw bs)
                 else Err (MalformedTaggedLength tag (expected_len tag) (length bs)))
              else if map_option length (law_identity law) = Some (length bs) then Ok (Raw bs)
              else Err (IncompatibleTag tag (law_name law) (law_id law)))"

section \<open>The merge operator\<close>

datatype MergeOperatorError =
    MergeOperandEmpty
  | UnknownMergeTag
  | MergeOperandWidth usize usize
  | MergeTagMismatch
  | MergeOperandMalformed
  | MergeOverflow

definition expected_len_of :: "u8 \<Rightarrow> usize option" where
  "expected_len_of tag = map_option expected_len (from_u8 tag)"

definition validate_operand :: "bytes \<Rightarrow> (MergeOperatorError, u8) result" where
  "validate_operand v =
     (case v of
        [] \<Rightarrow> Err MergeOperandEmpty
      | tag # _ \<Rightarrow>
          case expected_len_of tag of
            None \<Rightarrow> Err UnknownMergeTag
          | Some expected \<Rightarrow>
              if length v \<noteq> expected then Err (MergeOperandWidth expected (length v)) else Ok tag)"

definition malformed_arithmetic :: "ArithmeticError \<Rightarrow> MergeOperatorError" where
  "malformed_arithmetic _ = MergeOperandMalformed"

definition arithmetic_overflow :: MergeOperatorError where
  "arithmetic_overflow = MergeOverflow"

text \<open>The arms that combine two \<open>i64\<close> payloads differ in the combination only.\<close>

definition merge_i64_arm ::
  "MergeTag \<Rightarrow> (i64 \<Rightarrow> i64 \<Rightarrow> (MergeOperatorError, i64) result) \<Rightarrow> bytes \<Rightarrow> bytes \<Rightarrow>
     (MergeOperatorError, bytes) result" where
  "merge_i64_arm tag f existing v =
     rbind (map_err malformed_arithmetic (decode_i64_r (drop 1 existing))) (\<lambda>a.
     rbind (map_err malformed_arithmetic (decode_i64_r (drop 1 v))) (\<lambda>b.
     rbind (f a b) (\<lambda>r.
     Ok (tag_byte tag # encode_i64 r))))"

definition merge_count_arm :: "bytes \<Rightarrow> bytes \<Rightarrow> (MergeOperatorError, bytes) result" where
  "merge_count_arm existing v =
     rbind (map_err malformed_arithmetic (decode_u64_r (drop 1 existing))) (\<lambda>a.
     rbind (map_err malformed_arithmetic (decode_u64_r (drop 1 v))) (\<lambda>b.
     rbind (map_err (\<lambda>_. arithmetic_overflow) (checked_add_u64 a b)) (\<lambda>r.
     Ok (tag_byte Count # encode_u64 r))))"

definition merge_lww_arm :: "bytes \<Rightarrow> bytes \<Rightarrow> (MergeOperatorError, bytes) result" where
  "merge_lww_arm existing v =
     rbind (map_err malformed_arithmetic (decode_u64_r (take 8 (drop 1 existing)))) (\<lambda>ts_a.
     rbind (map_err malformed_arithmetic (decode_i64_r (drop 9 existing))) (\<lambda>val_a.
     rbind (map_err malformed_arithmetic (decode_u64_r (take 8 (drop 1 v)))) (\<lambda>ts_b.
     rbind (map_err malformed_arithmetic (decode_i64_r (drop 9 v))) (\<lambda>val_b.
     let (ts_res, val_res) =
       (if ts_b > ts_a then (ts_b, val_b)
        else if ts_a > ts_b then (ts_a, val_a)
        else (ts_a, max val_a val_b))
     in Ok (tag_byte LWWRegister # encode_u64 ts_res @ encode_i64 val_res)))))"

definition sum_count_operator ::
  "bytes option \<Rightarrow> bytes \<Rightarrow> (MergeOperatorError, bytes) result" where
  "sum_count_operator existing_value v =
     rbind (validate_operand v) (\<lambda>value_tag.
     case existing_value of
       None \<Rightarrow> Ok v
     | Some existing \<Rightarrow>
         rbind (validate_operand existing) (\<lambda>tag.
         if tag \<noteq> value_tag then Err MergeTagMismatch
         else if tag = tag_byte Sum then
           merge_i64_arm Sum (\<lambda>a b. map_err (\<lambda>_. arithmetic_overflow) (checked_add_i64 a b)) existing v
         else if tag = tag_byte Count then merge_count_arm existing v
         else if tag = tag_byte MaxRegister then
           merge_i64_arm MaxRegister (\<lambda>a b. Ok (max a b)) existing v
         else if tag = tag_byte MinRegister then
           merge_i64_arm MinRegister (\<lambda>a b. Ok (min a b)) existing v
         else if tag = tag_byte PNCounter then
           merge_i64_arm PNCounter
             (\<lambda>a b. map_err (\<lambda>_. arithmetic_overflow) (checked_add_i64 a b)) existing v
         else if tag = tag_byte LWWRegister then merge_lww_arm existing v
         else Err UnknownMergeTag))"

section \<open>Encoders and decoders of tagged values\<close>

definition encode_tagged_i64 :: "MergeTag \<Rightarrow> i64 \<Rightarrow> bytes" where
  "encode_tagged_i64 tag v = tag_byte tag # encode_i64 v"

definition decode_tagged_i64 :: "MergeTag \<Rightarrow> bytes \<Rightarrow> i64 option" where
  "decode_tagged_i64 tag data =
     (if length data \<noteq> 9 \<or> data ! 0 \<noteq> tag_byte tag then None
      else res_ok (decode_i64_r (drop 1 data)))"

definition encode_sum :: "i64 \<Rightarrow> bytes" where
  "encode_sum v = encode_tagged_i64 Sum v"

definition decode_sum :: "bytes \<Rightarrow> i64 option" where
  "decode_sum data = decode_tagged_i64 Sum data"

definition encode_count :: "u64 \<Rightarrow> bytes" where
  "encode_count v = tag_byte Count # encode_u64 v"

definition decode_count :: "bytes \<Rightarrow> u64 option" where
  "decode_count data =
     (if length data \<noteq> 9 \<or> data ! 0 \<noteq> tag_byte Count then None
      else res_ok (decode_u64_r (drop 1 data)))"

definition encode_max :: "i64 \<Rightarrow> bytes" where
  "encode_max v = encode_tagged_i64 MaxRegister v"

definition decode_max :: "bytes \<Rightarrow> i64 option" where
  "decode_max data = decode_tagged_i64 MaxRegister data"

definition encode_min :: "i64 \<Rightarrow> bytes" where
  "encode_min v = encode_tagged_i64 MinRegister v"

definition decode_min :: "bytes \<Rightarrow> i64 option" where
  "decode_min data = decode_tagged_i64 MinRegister data"

definition encode_pn_counter :: "i64 \<Rightarrow> bytes" where
  "encode_pn_counter v = encode_tagged_i64 PNCounter v"

definition decode_pn_counter :: "bytes \<Rightarrow> i64 option" where
  "decode_pn_counter data = decode_tagged_i64 PNCounter data"

definition encode_lww_register :: "u64 \<Rightarrow> i64 \<Rightarrow> bytes" where
  "encode_lww_register ts v = tag_byte LWWRegister # encode_u64 ts @ encode_i64 v"

definition decode_lww_register :: "bytes \<Rightarrow> (u64 \<times> i64) option" where
  "decode_lww_register data =
     (if length data \<noteq> 17 \<or> data ! 0 \<noteq> tag_byte LWWRegister then None
      else case decode_u64_r (take 8 (drop 1 data)) of
        Ok ts \<Rightarrow> (case decode_i64_r (drop 9 data) of Ok v \<Rightarrow> Some (ts, v) | _ \<Rightarrow> None)
      | _ \<Rightarrow> None)"

section \<open>Law-aware reads\<close>

definition view_payload :: "LawOperandView \<Rightarrow> bytes" where
  "view_payload view = (case view of Raw raw \<Rightarrow> raw | Tagged _ payload \<Rightarrow> payload)"

definition is_valid_law_operand :: "LawBundle \<Rightarrow> bytes \<Rightarrow> bool" where
  "is_valid_law_operand law bs =
     (case resolve_law_operand law bs of
        Ok view \<Rightarrow>
          let payload = view_payload view in
          law_is_identity law payload
          \<or> (case law_identity law of
               Some identity \<Rightarrow> is_ok (law_merge law payload identity)
             | None \<Rightarrow> is_ok (law_merge law payload payload))
      | _ \<Rightarrow> False)"

text \<open>
  The counters \<open>merge_law_applied_total\<close> and \<open>merge_law_fallback_total\<close> of the law's metric key, and
  the flag \<open>ALLOW_LAW_OPERAND_FALLBACK\<close>. The value read from SlateDB is an argument.
\<close>

record law_metrics =
  applied_total :: nat
  fallback_total :: nat

datatype storage_error = OperandCorruption u16 string | SlateError

definition get_merged ::
  "bool \<Rightarrow> (storage_error, bytes option) result \<Rightarrow> LawBundle \<Rightarrow> law_metrics \<Rightarrow>
     (storage_error, bytes option) result \<times> law_metrics" where
  "get_merged allow_fallback raw law mt =
     (case raw of
        Err e \<Rightarrow> (Err e, mt)
      | Panic \<Rightarrow> (Panic, mt)
      | Ok None \<Rightarrow> (Ok None, mt)
      | Ok (Some bs) \<Rightarrow>
          if is_valid_law_operand law bs
          then (Ok (Some bs), mt\<lparr>applied_total := applied_total mt + 1\<rparr>)
          else
            let mt' = mt\<lparr>fallback_total := fallback_total mt + 1\<rparr> in
            if allow_fallback then (Ok (Some bs), mt')
            else (Err (OperandCorruption (law_id law) (law_name law)), mt'))"

fun scan_entries ::
  "bool \<Rightarrow> LawBundle \<Rightarrow> (bytes \<times> bytes) list \<Rightarrow> (bytes \<times> bytes) list \<Rightarrow> law_metrics \<Rightarrow>
     (storage_error, (bytes \<times> bytes) list) result \<times> law_metrics" where
  "scan_entries allow_fallback law results [] mt = (Ok results, mt)"
| "scan_entries allow_fallback law results ((k, v) # entries) mt =
     (if is_valid_law_operand law v
      then scan_entries allow_fallback law (results @ [(k, v)]) entries
             (mt\<lparr>applied_total := applied_total mt + 1\<rparr>)
      else
        let mt' = mt\<lparr>fallback_total := fallback_total mt + 1\<rparr> in
        if allow_fallback then scan_entries allow_fallback law (results @ [(k, v)]) entries mt'
        else (Err (OperandCorruption (law_id law) (law_name law)), mt'))"

definition scan_merged ::
  "bool \<Rightarrow> (storage_error, (bytes \<times> bytes) list) result \<Rightarrow> LawBundle \<Rightarrow> law_metrics \<Rightarrow>
     (storage_error, (bytes \<times> bytes) list) result \<times> law_metrics" where
  "scan_merged allow_fallback entries law mt =
     (case entries of
        Err e \<Rightarrow> (Err e, mt)
      | Panic \<Rightarrow> (Panic, mt)
      | Ok es \<Rightarrow> scan_entries allow_fallback law [] es mt)"

section \<open>Tagged values are codecs\<close>

lemma from_u8_Some: "from_u8 b = Some t \<longleftrightarrow> b = tag_byte t"
  by (cases t) (auto simp: from_u8_def)

declare tag_byte.simps [simp del]

lemma from_u8_tag_byte [simp]: "from_u8 (tag_byte t) = Some t"
  by (simp add: from_u8_Some)

lemma tag_byte_inject [simp]: "tag_byte t = tag_byte t' \<longleftrightarrow> t = t'"
  by (metis from_u8_tag_byte option.inject)

lemma decode_u64_r_Ok: "decode_u64_r bs = Ok v \<longleftrightarrow> bs = encode_u64 v"
  by (simp add: decode_u64_r_def u64_be.dec_Some encode_u64_def encode_u64_be_eq)

lemma length_encode_u64 [simp]: "length (encode_u64 v) = 8"
  by (simp add: encode_u64_def)

lemma encode_u64_inject [simp]: "encode_u64 v = encode_u64 w \<longleftrightarrow> v = w"
  by (metis decode_u64_r_Ok result.inject(1))

lemma decode_u64_r_encode [simp]: "decode_u64_r (encode_u64 v) = Ok v"
  by (simp add: decode_u64_r_Ok)

lemma decode_i64_r_encode [simp]: "decode_i64_r (encode_i64 v) = Ok v"
  by (simp add: decode_i64_r_Ok)

lemma decode_tagged_i64_Some: "decode_tagged_i64 tag bs = Some v \<longleftrightarrow> bs = encode_tagged_i64 tag v"
  by (cases bs) (auto simp: decode_tagged_i64_def encode_tagged_i64_def decode_i64_r_Ok)

lemma decode_count_Some: "decode_count bs = Some v \<longleftrightarrow> bs = encode_count v"
  by (cases bs) (auto simp: decode_count_def encode_count_def decode_u64_r_Ok)

lemma decode_lww_register_Some:
  "decode_lww_register bs = Some (ts, v) \<longleftrightarrow> bs = encode_lww_register ts v"
proof
  assume "decode_lww_register bs = Some (ts, v)"
  then have "length bs = 17" "bs ! 0 = tag_byte LWWRegister" "take 8 (drop 1 bs) = encode_u64 ts"
    and "drop 9 bs = encode_i64 v"
    by (auto simp: decode_lww_register_def decode_u64_r_Ok decode_i64_r_Ok
        split: if_splits result.splits)
  moreover have "drop 1 bs = take 8 (drop 1 bs) @ drop 9 bs"
    using append_take_drop_id [of 8 "drop 1 bs"] by simp
  ultimately show "bs = encode_lww_register ts v"
    by (cases bs) (auto simp: encode_lww_register_def)
qed (simp add: decode_lww_register_def encode_lww_register_def)

interpretation tagged_i64: fixed_codec "encode_tagged_i64 tag" "decode_tagged_i64 tag" 9
  by unfold_locales (auto simp: decode_tagged_i64_Some encode_tagged_i64_def)

interpretation tagged_count: fixed_codec encode_count decode_count 9
  by unfold_locales (auto simp: decode_count_Some encode_count_def)

interpretation tagged_lww:
  fixed_codec "\<lambda>(ts, v). encode_lww_register ts v" decode_lww_register 17
  by unfold_locales (auto simp: decode_lww_register_Some encode_lww_register_def)

section \<open>The operator satisfies the merge contract\<close>

text \<open>
  What an operand denotes: a tagged number, or a timestamped register. Values of different tags
  have no sum; \<open>OMixed\<close> absorbs them.
\<close>

datatype operand_value = ONum MergeTag int | OLww "u64 \<times> i64" | OMixed

fun operand_add :: "operand_value \<Rightarrow> operand_value \<Rightarrow> operand_value" where
  "operand_add (ONum t a) (ONum t' b) =
     (if t \<noteq> t' then OMixed
      else ONum t (if t = MaxRegister then max a b else if t = MinRegister then min a b else a + b))"
| "operand_add (OLww p) (OLww q) = OLww (max p q)"
| "operand_add _ _ = OMixed"

definition operand_sem :: "bytes \<Rightarrow> operand_value option" where
  "operand_sem bs =
     (case bs of
        [] \<Rightarrow> None
      | b # _ \<Rightarrow>
          case from_u8 b of
            None \<Rightarrow> None
          | Some Count \<Rightarrow> map_option (\<lambda>w. ONum Count (uint w)) (decode_count bs)
          | Some LWWRegister \<Rightarrow> map_option OLww (decode_lww_register bs)
          | Some tag \<Rightarrow> map_option (\<lambda>w. ONum tag (ival w)) (decode_tagged_i64 tag bs))"

definition numeric_tag :: "MergeTag \<Rightarrow> bool" where
  "numeric_tag t \<longleftrightarrow> t \<noteq> Count \<and> t \<noteq> LWWRegister"

lemma not_numeric_tag [simp]: "\<not> numeric_tag Count" "\<not> numeric_tag LWWRegister"
  by (simp_all add: numeric_tag_def)

lemma operand_sem_encode [simp]:
  "numeric_tag t \<Longrightarrow> operand_sem (encode_tagged_i64 t w) = Some (ONum t (ival w))"
  "operand_sem (encode_count c) = Some (ONum Count (uint c))"
  "operand_sem (encode_lww_register ts w) = Some (OLww (ts, w))"
proof -
  show "operand_sem (encode_count c) = Some (ONum Count (uint c))"
    using tagged_count.dec_enc [of c] by (simp add: operand_sem_def encode_count_def)
  show "operand_sem (encode_lww_register ts w) = Some (OLww (ts, w))"
    using tagged_lww.dec_enc [of "(ts, w)"] by (simp add: operand_sem_def encode_lww_register_def)
  assume "numeric_tag t"
  then show "operand_sem (encode_tagged_i64 t w) = Some (ONum t (ival w))"
    using tagged_i64.dec_enc [of t w]
    by (cases t) (simp_all add: operand_sem_def encode_tagged_i64_def numeric_tag_def)
qed

lemma operand_cases:
  assumes "operand_sem bs = Some u"
  obtains t w where "numeric_tag t" "bs = encode_tagged_i64 t w" "u = ONum t (ival w)"
  | c where "bs = encode_count c" "u = ONum Count (uint c)"
  | ts w where "bs = encode_lww_register ts w" "u = OLww (ts, w)"
  using assms
  by (auto simp: operand_sem_def numeric_tag_def decode_tagged_i64_Some decode_count_Some
      decode_lww_register_Some split: list.splits option.splits MergeTag.splits)

lemma validate_operand_Cons:
  "validate_operand (tag_byte t # p) =
     (if length p = payload_len t then Ok (tag_byte t)
      else Err (MergeOperandWidth (expected_len t) (Suc (length p))))"
  by (simp add: validate_operand_def expected_len_of_def expected_len_def)

lemma payload_len_numeric: "numeric_tag t \<Longrightarrow> payload_len t = 8"
  by (cases t) (simp_all add: numeric_tag_def)

lemma validate_operand_encode [simp]:
  "numeric_tag t \<Longrightarrow> validate_operand (encode_tagged_i64 t w) = Ok (tag_byte t)"
  "validate_operand (encode_count c) = Ok (tag_byte Count)"
  "validate_operand (encode_lww_register ts w) = Ok (tag_byte LWWRegister)"
  by (simp_all add: encode_tagged_i64_def encode_count_def encode_lww_register_def
      validate_operand_Cons payload_len_numeric)

lemma validate_operand_Ok:
  "validate_operand bs = Ok b \<Longrightarrow> \<exists>t u. b = tag_byte t \<and> operand_sem bs = Some u"
proof -
  assume ok: "validate_operand bs = Ok b"
  then obtain t p where bs: "bs = tag_byte t # p" "b = tag_byte t" "length p = payload_len t"
    by (auto simp: validate_operand_def expected_len_of_def expected_len_def from_u8_Some
        split: list.splits option.splits if_splits)
  have be: "256 ^ 8 = (2 :: nat) ^ LENGTH(64)" by simp
  show ?thesis
  proof (cases "t = LWWRegister")
    case True
    have "to_be 8 (from_be (take 8 p) :: u64) = take 8 p" "to_be 8 (from_be (drop 8 p) :: u64) = drop 8 p"
      using bs(3) True by (auto intro: to_be_from_be)
    then have "bs = encode_lww_register (from_be (take 8 p)) (I64 (from_be (drop 8 p)))"
      by (simp add: bs encode_lww_register_def encode_u64_def encode_i64_def True)
    then show ?thesis using bs(2) by auto
  next
    case False
    then have "length p = 8" using bs(3) by (cases t) simp_all
    then have p: "to_be 8 (from_be p :: u64) = p" by (intro to_be_from_be) simp_all
    show ?thesis
    proof (cases "t = Count")
      case True
      then have "bs = encode_count (from_be p)" using p by (simp add: bs encode_count_def encode_u64_def)
      then show ?thesis using bs(2) by auto
    next
      case False
      then have "numeric_tag t" "bs = encode_tagged_i64 t (I64 (from_be p))"
        using p \<open>t \<noteq> LWWRegister\<close> by (simp_all add: bs numeric_tag_def encode_tagged_i64_def encode_i64_def)
      then show ?thesis using bs(2) by auto
    qed
  qed
qed

lemma merge_i64_arm_encode:
  "merge_i64_arm t f (encode_tagged_i64 t a) (encode_tagged_i64 t b) =
     rbind (f a b) (\<lambda>r. Ok (encode_tagged_i64 t r))"
  by (simp add: merge_i64_arm_def encode_tagged_i64_def)

lemma merge_count_arm_encode:
  "merge_count_arm (encode_count a) (encode_count b) =
     rbind (map_err (\<lambda>_. arithmetic_overflow) (checked_add_u64 a b)) (\<lambda>r. Ok (encode_count r))"
  by (simp add: merge_count_arm_def encode_count_def)

lemma merge_lww_arm_encode:
  "merge_lww_arm (encode_lww_register ts a) (encode_lww_register ts' b) =
     Ok (case max (ts, a) (ts', b) of (ts'', c) \<Rightarrow> encode_lww_register ts'' c)"
  by (auto simp: merge_lww_arm_def encode_lww_register_def max_def less_eq_prod_def not_less
      dest: order_antisym)

lemma checked_add_u64_Ok: "checked_add_u64 a b = Ok c \<longleftrightarrow> uint c = uint a + uint b"
  unfolding checked_add_u64_def ok_or_Ok checked_u64_add_Some uint_nat by linarith

lemma operator_numeric:
  assumes "numeric_tag t"
  shows "sum_count_operator (Some (encode_tagged_i64 t a)) (encode_tagged_i64 t b) = Ok z \<longleftrightarrow>
    operand_sem z = Some (operand_add (ONum t (ival a)) (ONum t (ival b)))"
proof -
  have "operand_sem z = Some (ONum t i) \<longleftrightarrow> (\<exists>w. z = encode_tagged_i64 t w \<and> ival w = i)" for i
    using assms by (auto elim!: operand_cases simp: numeric_tag_def)
  then show ?thesis
    using assms
    by (cases t) (auto simp: sum_count_operator_def numeric_tag_def merge_i64_arm_encode rbind_Ok
        checked_add_i64_Ok simp flip: ival_max ival_min)
qed

lemma operator_count:
  "sum_count_operator (Some (encode_count a)) (encode_count b) = Ok z \<longleftrightarrow>
    operand_sem z = Some (operand_add (ONum Count (uint a)) (ONum Count (uint b)))"
proof -
  have "operand_sem z = Some (ONum Count i) \<longleftrightarrow> (\<exists>w. z = encode_count w \<and> uint w = i)" for i
    by (auto elim!: operand_cases simp: numeric_tag_def)
  then show ?thesis
    by (auto simp: sum_count_operator_def merge_count_arm_encode rbind_Ok checked_add_u64_Ok)
qed

lemma operator_lww:
  "sum_count_operator (Some (encode_lww_register ts a)) (encode_lww_register ts' b) = Ok z \<longleftrightarrow>
    operand_sem z = Some (operand_add (OLww (ts, a)) (OLww (ts', b)))"
proof -
  have "operand_sem z = Some (OLww p) \<longleftrightarrow> z = (case p of (ts, w) \<Rightarrow> encode_lww_register ts w)" for p
    by (cases p) (auto elim!: operand_cases)
  then show ?thesis
    by (auto simp: sum_count_operator_def merge_lww_arm_encode)
qed

lemma operator_mixed:
  assumes "validate_operand x = Ok s" "validate_operand y = Ok t" "s \<noteq> t"
  shows "sum_count_operator (Some x) y = Err MergeTagMismatch"
  using assms by (simp add: sum_count_operator_def)

lemma operand_sem_not_mixed [simp]: "operand_sem z \<noteq> Some OMixed"
  by (auto elim!: operand_cases)

lemma operator_iff:
  "sum_count_operator (Some x) y = Ok z \<longleftrightarrow>
     (\<exists>u v. operand_sem x = Some u \<and> operand_sem y = Some v \<and> operand_sem z = Some (operand_add u v))"
    (is "?L \<longleftrightarrow> ?R")
proof
  assume L: ?L
  then obtain s t where st: "validate_operand x = Ok s" "validate_operand y = Ok t"
    by (auto simp: sum_count_operator_def rbind_Ok)
  then obtain u v where uv: "operand_sem x = Some u" "operand_sem y = Some v"
    by (meson validate_operand_Ok)
  have "s = t" using L operator_mixed [OF st] by fastforce
  then have "operand_sem z = Some (operand_add u v)"
    using uv L st operator_numeric operator_count operator_lww
    by (elim operand_cases) (auto simp: numeric_tag_def)
  then show ?R using uv by blast
next
  assume ?R
  then obtain u v where uv: "operand_sem x = Some u" "operand_sem y = Some v"
    and z: "operand_sem z = Some (operand_add u v)" by blast
  show ?L
    using uv(1)
  proof (cases rule: operand_cases)
    case (1 t a)
    with uv(2) z show ?thesis by (cases rule: operand_cases) (auto simp: operator_numeric split: if_splits)
  next
    case (2 a)
    with uv(2) z show ?thesis by (cases rule: operand_cases) (auto simp: operator_count split: if_splits)
  next
    case (3 ts a)
    with uv(2) z show ?thesis by (cases rule: operand_cases) (auto simp: operator_lww)
  qed
qed

lemma operand_add_assoc: "operand_add (operand_add u v) w = operand_add u (operand_add v w)"
  by (cases u; cases v; cases w) (auto simp: max.assoc min.assoc)

lemma operand_add_commute: "operand_add u v = operand_add v u"
  by (cases u; cases v) (auto simp: max.commute min.commute)

interpretation merge_operator:
  merge_semigroup operand_add "\<lambda>x y. sum_count_operator (Some x) y" operand_sem
proof
  show "operand_sem x = Some u \<Longrightarrow> operand_sem y = Some u \<Longrightarrow> x = y" for x y u
    by (elim operand_cases) (auto dest: unsigned_word_eqI)
qed (use operand_add_assoc operand_add_commute operator_iff in auto)

section \<open>Registers\<close>

text \<open>
  A register keeps the operand of greatest rank. Merging such operands never fails, and neither
  grouping, order nor repetition of the operands matters.
\<close>

locale register_merge =
  fixes merge :: "bytes \<Rightarrow> bytes \<Rightarrow> ('e, bytes) result" and valid :: "bytes \<Rightarrow> bool"
    and rank :: "bytes \<Rightarrow> 'r::linorder"
  assumes merge_greater:
    "valid x \<Longrightarrow> valid y \<Longrightarrow> merge x y = Ok (if rank x \<le> rank y then y else x)"
    and rank_unique: "valid x \<Longrightarrow> valid y \<Longrightarrow> rank x = rank y \<Longrightarrow> x = y"
begin

lemma grouping_greatest:
  assumes "\<forall>x \<in> set (operands t). valid x"
  shows "\<exists>z \<in> set (operands t). merge_grouping merge t = Ok z
    \<and> (\<forall>x \<in> set (operands t). rank x \<le> rank z)"
  using assms
proof (induction t)
  case (Merged l r)
  then obtain x y where
    x: "x \<in> set (operands l)" "merge_grouping merge l = Ok x" "\<forall>w \<in> set (operands l). rank w \<le> rank x"
    and y: "y \<in> set (operands r)" "merge_grouping merge r = Ok y" "\<forall>w \<in> set (operands r). rank w \<le> rank y"
    by auto
  then have "merge x y = Ok (if rank x \<le> rank y then y else x)"
    using Merged.prems by (intro merge_greater) auto
  then show ?case using x y by (cases "rank x \<le> rank y") (auto intro: order_trans)
qed auto

lemma grouping_set_only:
  assumes "\<forall>x \<in> set (operands t). valid x" "set (operands t) = set (operands t')"
  shows "\<exists>z. merge_grouping merge t = Ok z \<and> merge_grouping merge t' = Ok z"
proof -
  obtain z z' where z: "z \<in> set (operands t)" "merge_grouping merge t = Ok z"
      "\<forall>x \<in> set (operands t). rank x \<le> rank z"
    and z': "z' \<in> set (operands t')" "merge_grouping merge t' = Ok z'"
      "\<forall>x \<in> set (operands t'). rank x \<le> rank z'"
    using grouping_greatest [of t] grouping_greatest [of t'] assms by auto
  then have "z = z'" using assms by (intro rank_unique) (auto intro: order_antisym)
  then show ?thesis using z z' by blast
qed

end

definition max_rank :: "bytes \<Rightarrow> int" where
  "max_rank bs = ival (the (decode_max bs))"

definition min_rank :: "bytes \<Rightarrow> int" where
  "min_rank bs = - ival (the (decode_min bs))"

definition lww_rank :: "bytes \<Rightarrow> u64 \<times> i64" where
  "lww_rank bs = the (decode_lww_register bs)"

lemma validate_register:
  "validate_operand bs = Ok (tag_byte MaxRegister) \<longleftrightarrow> (\<exists>v. bs = encode_max v)"
  "validate_operand bs = Ok (tag_byte MinRegister) \<longleftrightarrow> (\<exists>v. bs = encode_min v)"
  "validate_operand bs = Ok (tag_byte LWWRegister) \<longleftrightarrow> (\<exists>ts v. bs = encode_lww_register ts v)"
proof -
  have "\<exists>u. operand_sem bs = Some u" if "validate_operand bs = Ok (tag_byte t)" for t
    using validate_operand_Ok [OF that] by blast
  then show "validate_operand bs = Ok (tag_byte MaxRegister) \<longleftrightarrow> (\<exists>v. bs = encode_max v)"
    "validate_operand bs = Ok (tag_byte MinRegister) \<longleftrightarrow> (\<exists>v. bs = encode_min v)"
    "validate_operand bs = Ok (tag_byte LWWRegister) \<longleftrightarrow> (\<exists>ts v. bs = encode_lww_register ts v)"
    by (fastforce elim!: operand_cases simp: encode_max_def encode_min_def numeric_tag_def)+
qed

interpretation max_register: register_merge "\<lambda>x y. sum_count_operator (Some x) y"
    "\<lambda>bs. validate_operand bs = Ok (tag_byte MaxRegister)" max_rank
  by unfold_locales
    (auto simp: validate_register max_rank_def decode_max_def encode_max_def tagged_i64.dec_enc
      sum_count_operator_def merge_i64_arm_encode numeric_tag_def max_def i64_order)

interpretation min_register: register_merge "\<lambda>x y. sum_count_operator (Some x) y"
    "\<lambda>bs. validate_operand bs = Ok (tag_byte MinRegister)" min_rank
  by unfold_locales
    (auto simp: validate_register min_rank_def decode_min_def encode_min_def tagged_i64.dec_enc
      sum_count_operator_def merge_i64_arm_encode numeric_tag_def min_def i64_order)

interpretation lww_register: register_merge "\<lambda>x y. sum_count_operator (Some x) y"
    "\<lambda>bs. validate_operand bs = Ok (tag_byte LWWRegister)" lww_rank
proof
  have dec: "decode_lww_register (encode_lww_register ts v) = Some (ts, v)" for ts v
    by (simp add: decode_lww_register_Some)
  fix x y
  assume "validate_operand x = Ok (tag_byte LWWRegister)" "validate_operand y = Ok (tag_byte LWWRegister)"
  then show "sum_count_operator (Some x) y = Ok (if lww_rank x \<le> lww_rank y then y else x)"
    "lww_rank x = lww_rank y \<Longrightarrow> x = y"
    by (auto simp: validate_register lww_rank_def dec sum_count_operator_def merge_lww_arm_encode max_def)
qed

section \<open>Properties\<close>

text \<open>
  (C31) SlateDB may bracket and reorder the merge operands of a key freely: two groupings of the
  same well-formed operands that both succeed produce the same bytes, for every tag.
\<close>

theorem operator_grouping_invariant:
  assumes "\<forall>x \<in> set (operands t). is_ok (validate_operand x)"
    and "mset (operands t) = mset (operands t')"
    and "merge_grouping (\<lambda>x. sum_count_operator (Some x)) t = Ok z"
    and "merge_grouping (\<lambda>x. sum_count_operator (Some x)) t' = Ok z'"
  shows "z = z'"
proof (rule merge_operator.groupings_agree)
  show "\<forall>x \<in> set (operands t). operand_sem x \<noteq> None"
    using assms(1) validate_operand_Ok by (fastforce simp: is_ok_iff)
qed (use assms in simp_all)

theorem operator_grouping_invariant_witness:
  "merge_grouping (\<lambda>x. sum_count_operator (Some x))
     (Merged (Operand (encode_sum (of_ival 5)))
       (Merged (Operand (encode_sum 1)) (Operand (encode_sum (of_ival 3)))))
   = merge_grouping (\<lambda>x. sum_count_operator (Some x))
     (Merged (Merged (Operand (encode_sum (of_ival 3))) (Operand (encode_sum (of_ival 5))))
       (Operand (encode_sum 1)))" (is "merge_grouping ?m ?t = merge_grouping ?m ?t'")
proof -
  obtain z z' where ok: "merge_grouping ?m ?t = Ok z" "merge_grouping ?m ?t' = Ok z'"
    by (simp add: encode_sum_def sum_count_operator_def numeric_tag_def merge_i64_arm_encode
        checked_add_i64_def checked_i64_add_def i64_eval)
  have "z = z'"
    by (rule operator_grouping_invariant [OF _ _ ok]) (simp_all add: encode_sum_def numeric_tag_def)
  then show ?thesis using ok by simp
qed

text \<open>
  (C32) MAX, MIN and last-writer-wins registers: merging well-formed operands of one of these tags
  never fails, and the result depends on the set of operands only, so replaying or duplicating an
  operand is harmless.
\<close>

theorem register_operands_idempotent:
  assumes "tag \<in> {MaxRegister, MinRegister, LWWRegister}"
    and "\<forall>x \<in> set (operands t). validate_operand x = Ok (tag_byte tag)"
    and "set (operands t) = set (operands t')"
  shows "\<exists>z. merge_grouping (\<lambda>x. sum_count_operator (Some x)) t = Ok z
    \<and> merge_grouping (\<lambda>x. sum_count_operator (Some x)) t' = Ok z"
  using assms max_register.grouping_set_only [of t t'] min_register.grouping_set_only [of t t']
    lww_register.grouping_set_only [of t t'] by auto

theorem register_operands_idempotent_witness:
  "\<exists>z. merge_grouping (\<lambda>x. sum_count_operator (Some x))
      (Merged (Operand (encode_max (of_ival 5))) (Operand (encode_max (of_ival 8)))) = Ok z
    \<and> merge_grouping (\<lambda>x. sum_count_operator (Some x))
      (Merged (Operand (encode_max (of_ival 8)))
        (Merged (Operand (encode_max (of_ival 5))) (Operand (encode_max (of_ival 8))))) = Ok z"
  by (rule register_operands_idempotent [of MaxRegister])
    (auto simp: encode_max_def numeric_tag_def)

text \<open>
  (C33) The operator fails closed: a result is produced only from a well-formed incoming operand
  and, when a value already exists, a well-formed existing value with the same tag byte; the result
  is itself well formed with that tag.
\<close>

theorem operator_fail_closed:
  assumes "sum_count_operator existing_value v = Ok z"
  shows "is_ok (validate_operand v) \<and> validate_operand z = validate_operand v
    \<and> (\<forall>existing. existing_value = Some existing \<longrightarrow> validate_operand existing = validate_operand v)"
proof (cases existing_value)
  case None
  then show ?thesis using assms by (auto simp: sum_count_operator_def rbind_Ok is_ok_iff)
next
  case (Some existing)
  then have op: "sum_count_operator (Some existing) v = Ok z" using assms by simp
  then obtain s t where st: "validate_operand existing = Ok s" "validate_operand v = Ok t"
    by (auto simp: sum_count_operator_def rbind_Ok)
  have "s = t" using op operator_mixed [OF st] by fastforce
  moreover have "validate_operand z = Ok t"
  proof -
    obtain u w where "operand_sem existing = Some u" "operand_sem v = Some w"
      "operand_sem z = Some (operand_add u w)"
      using op operator_iff by blast
    then show ?thesis
      using st \<open>s = t\<close> by (elim operand_cases) (auto split: if_splits)
  qed
  ultimately show ?thesis using Some st by (simp add: is_ok_iff)
qed

theorem operator_fail_closed_witness:
  "validate_operand (encode_count 7) = validate_operand (encode_count 3)"
proof -
  have "sum_count_operator (Some (encode_count 4)) (encode_count 3) = Ok (encode_count 7)"
    by (simp add: sum_count_operator_def merge_count_arm_encode checked_add_u64_def
        checked_u64_add_def checked_add_w_def)
  then show ?thesis using operator_fail_closed by blast
qed

section \<open>Reads through a law\<close>

lemma WeightAddV1_sel:
  "law_id WeightAddV1 = 1" "law_name WeightAddV1 = ''WeightAdd''"
  "law_identity WeightAddV1 = Some (encode_i64 0)" "law_merge WeightAddV1 = weight_add_merge"
  "law_is_identity WeightAddV1 = weight_add_is_identity"
  by (simp_all add: WeightAddV1_def WEIGHT_ADD_ID_def)

lemma SumCountV1_sel:
  "law_id SumCountV1 = 2" "law_name SumCountV1 = ''SumCount''"
  "law_identity SumCountV1 = Some (encode_sum_count 0 0)" "law_merge SumCountV1 = sum_count_merge"
  "law_is_identity SumCountV1 = sum_count_is_identity"
  by (simp_all add: SumCountV1_def SUM_COUNT_ID_def)

lemma ascii_names:
  "map ascii_lower ''WeightAdd'' = ''weightadd''" "map ascii_lower ''SumCount'' = ''sumcount''"
  "map ascii_lower ''Sum'' = ''sum''" "map ascii_lower ''Count'' = ''count''"
  "map ascii_lower ''PNCounter'' = ''pncounter''" "map ascii_lower ''PN-Counter'' = ''pn-counter''"
  "map ascii_lower ''MaxRegister'' = ''maxregister''" "map ascii_lower ''Max'' = ''max''"
  "map ascii_lower ''MinRegister'' = ''minregister''" "map ascii_lower ''Min'' = ''min''"
  "map ascii_lower ''LWWRegister'' = ''lwwregister''" "map ascii_lower ''LWW'' = ''lww''"
  by (simp_all add: ascii_lower_def char_of_def bit_0)

lemma weight_add_compatible:
  "is_compatible_with_law tag WeightAddV1 \<longleftrightarrow> tag = Sum \<or> tag = PNCounter"
  by (cases tag) (simp_all add: WeightAddV1_sel base_name_def eq_ignore_ascii_case_def ascii_names del: list.map)

lemma sum_count_compatible: "is_compatible_with_law tag SumCountV1 \<longleftrightarrow> tag = Count"
  by (cases tag) (simp_all add: SumCountV1_sel base_name_def eq_ignore_ascii_case_def ascii_names del: list.map)

lemma encode_i64_Cons: "encode_i64 v = ucast (drop_bit 56 (bits v)) # tl (encode_i64 v)"
  by (simp add: encode_i64_eq encode_u64_be_def)

text \<open>
  Reading a raw \<open>WeightAdd/v1\<close> weight through its law always succeeds: whatever the weight,
  its first byte is never mistaken for a tag of another representation, the stored bytes come
  back unchanged and only the applied counter moves.
\<close>

theorem weight_read_accepted:
  "get_merged allow (Ok (Some (encode_weight w))) WeightAddV1 mt =
     (Ok (Some (encode_weight w)), mt\<lparr>applied_total := applied_total mt + 1\<rparr>)"
proof -
  have "resolve_law_operand WeightAddV1 (encode_i64 w) = Ok (Raw (encode_i64 w))"
  proof (cases "encode_i64 w")
    case (Cons b p)
    then have "length p = 7" using length_encode_i64 [of w] by simp
    then show ?thesis
      unfolding Cons
      by (cases "from_u8 b")
        (auto simp: resolve_law_operand_def weight_add_compatible WeightAddV1_sel expected_len_def
          from_u8_Some elim!: payload_len.elims)
  qed (simp add: resolve_law_operand_def)
  moreover have "is_ok (weight_add_merge (encode_i64 w) (encode_i64 0))"
    by (simp add: weight_law.merge_identity)
  ultimately have "is_valid_law_operand WeightAddV1 (encode_i64 w)"
    by (simp add: is_valid_law_operand_def WeightAddV1_sel view_payload_def)
  then show ?thesis by (simp add: get_merged_def encode_weight_def)
qed

lemma ival_uint: "ival v = (if uint (bits v) < 2 ^ 63 then uint (bits v) else uint (bits v) - 2 ^ 64)"
proof -
  have "ival v + 2 ^ 63 = uint (bits v + SIGN_BIT)"
    using unat_signed_order_key [of v] by (simp add: signed_order_key_def xor_SIGN_BIT)
  also have "\<dots> = (uint (bits v) + 2 ^ 63) mod 2 ^ 64"
    by (simp add: uint_word_ariths SIGN_BIT_def)
  finally have "ival v = (uint (bits v) + 2 ^ 63) mod 2 ^ 64 - 2 ^ 63" by simp
  moreover have "uint (bits v) < 2 ^ 64" "0 \<le> uint (bits v)" using uint_lt2p [of "bits v"] by simp_all
  ultimately show ?thesis
    using mod_pos_pos_trivial [of "uint (bits v) + 2 ^ 63" "2 ^ 64"]
      mod_pos_pos_trivial [of "uint (bits v) - 2 ^ 63" "2 ^ 64"]
      mod_add_self2 [of "uint (bits v) - 2 ^ 63" "2 ^ 64"]
    by (auto simp: add.commute)
qed

lemma first_byte_Count:
  "ucast (drop_bit 56 (bits v)) = tag_byte Count \<longleftrightarrow> 2 ^ 57 \<le> ival v \<and> ival v < 3 * 2 ^ 56"
proof -
  have lt: "unat (bits v) < 2 ^ 64" using unat_less [of "bits v"] by simp
  then have "unat (bits v) div 2 ^ 56 < 256" by simp
  moreover have "unat (drop_bit 56 (bits v)) = unat (bits v) div 2 ^ 56"
    unfolding unat_drop_bit_eq by (simp only: drop_bit_eq_div)
  ultimately have "ucast (drop_bit 56 (bits v)) = (2 :: u8) \<longleftrightarrow> unat (bits v) div 2 ^ 56 = 2"
    by (simp only: word_unat_eq_iff unsigned_ucast_eq take_bit_eq_mod) simp
  also have "\<dots> \<longleftrightarrow> 2 ^ 57 \<le> unat (bits v) \<and> unat (bits v) < 3 * 2 ^ 56"
    by (auto simp: div_nat_eqI)
  also have "\<dots> \<longleftrightarrow> 2 ^ 57 \<le> ival v \<and> ival v < 3 * 2 ^ 56"
  proof -
    obtain u where "unat (bits v) = u" "uint (bits v) = int u" by (metis uint_nat)
    then show ?thesis using lt by (auto simp: ival_uint)
  qed
  finally show ?thesis by (simp add: tag_byte.simps)
qed

text \<open>
  (C34) Reading a raw \<open>SumCount/v1\<close> accumulator through its law succeeds exactly when the sum is
  outside the range from \<open>2^57\<close> up to \<open>3 * 2^56\<close>. In that range the first byte of the sum is the
  Count tag, which the law is compatible with, so a valid accumulator is reported as corrupt.
\<close>

theorem sum_count_read_accepted_iff:
  "is_valid_law_operand SumCountV1 (encode_sum_count s c) \<longleftrightarrow>
     \<not> (2 ^ 57 \<le> ival s \<and> ival s < 3 * 2 ^ 56)"
proof -
  define b where "b = (ucast (drop_bit 56 (bits s)) :: u8)"
  define p where "p = tl (encode_i64 s) @ encode_i64 c"
  have p: "encode_sum_count s c = b # p" "length p = 15"
    unfolding encode_sum_count_def p_def b_def
    by (subst encode_i64_Cons [of s], simp) simp
  have "resolve_law_operand SumCountV1 (b # p) =
      (if b = tag_byte Count then Err (MalformedTaggedLength Count 9 16) else Ok (Raw (b # p)))"
    using p(2)
    by (cases "from_u8 b")
      (auto simp: resolve_law_operand_def sum_count_compatible SumCountV1_sel expected_len_def
        from_u8_Some encode_sum_count_def elim!: payload_len.elims)
  moreover have "is_ok (sum_count_merge (encode_sum_count s c) (encode_sum_count 0 0))"
    by (simp add: sum_count_law.merge_identity)
  ultimately have "is_valid_law_operand SumCountV1 (encode_sum_count s c) \<longleftrightarrow> b \<noteq> tag_byte Count"
    by (simp add: is_valid_law_operand_def SumCountV1_sel view_payload_def p(1))
  then show ?thesis by (simp add: b_def first_byte_Count)
qed

text \<open>
  A Count-tagged value resolves as a compatible operand of \<open>SumCount/v1\<close>, but its eight-byte payload
  is never a valid accumulator of that law.
\<close>

lemma count_tag_never_valid_sum_count:
  "resolve_law_operand SumCountV1 (encode_count n) = Ok (Tagged Count (encode_u64 n))"
  "\<not> is_valid_law_operand SumCountV1 (encode_count n)"
proof -
  show r: "resolve_law_operand SumCountV1 (encode_count n) = Ok (Tagged Count (encode_u64 n))"
    by (simp add: resolve_law_operand_def encode_count_def sum_count_compatible expected_len_def)
  have "encode_u64 n \<noteq> encode_sum_count s c" for s c
    by (rule notI, drule arg_cong [where f = length]) (simp add: encode_sum_count_def)
  then show "\<not> is_valid_law_operand SumCountV1 (encode_count n)"
    by (auto simp: is_valid_law_operand_def r SumCountV1_sel view_payload_def is_ok_iff
        sum_count_is_identity_iff sum_count_law.merge_iff sum_count_sem_Some)
qed

end
