(* ===== verification/Keys.thy ===== *)
theory Keys
  imports Kernels "HOL-Library.Sublist"
begin

text \<open>
  The storage keys of \<open>rockstream-storage/src/keys.rs\<close>: shard-local keys of the operator
  arrangements, their scan prefixes, sort keys, the prefix extractor of the join arrangements and
  the catalog keys. A \<open>[u8; n]\<close> parameter is a byte list, whose length the statements require.
\<close>

section \<open>Namespaces and discriminators\<close>

datatype ShardPrefix = OpState | OpIndex | ViewOutput | ShuffleInbox | ShuffleOutbox | ShardMeta

fun as_byte :: "ShardPrefix \<Rightarrow> u8" where
  "as_byte OpState = 0x01"
| "as_byte OpIndex = 0x02"
| "as_byte ViewOutput = 0x03"
| "as_byte ShuffleInbox = 0x04"
| "as_byte ShuffleOutbox = 0x05"
| "as_byte ShardMeta = 0x06"

definition MINMAX_DISCRIMINATOR :: u8 where "MINMAX_DISCRIMINATOR = 0x4D"
definition DISTINCT_DISCRIMINATOR :: bytes where "DISTINCT_DISCRIMINATOR = [0x44, 0x53]"
definition WINDOW_DISCRIMINATOR :: bytes where "WINDOW_DISCRIMINATOR = [0x57, 0x4E]"
definition TW_DISCRIMINATOR :: bytes where "TW_DISCRIMINATOR = [0x54, 0x57]"
definition WM_DISCRIMINATOR :: bytes where "WM_DISCRIMINATOR = [0x57, 0x4D]"
definition FORMAT_VERSION_DISCRIMINATOR :: bytes where
  "FORMAT_VERSION_DISCRIMINATOR = [0x46, 0x56]"
definition TK_DISCRIMINATOR :: bytes where "TK_DISCRIMINATOR = [0x54, 0x4B]"
definition RC_DISCRIMINATOR :: bytes where "RC_DISCRIMINATOR = [0x52, 0x43]"
definition FACTOR_PAYLOAD_DISCRIMINATOR :: bytes where
  "FACTOR_PAYLOAD_DISCRIMINATOR = [0x46, 0x50]"
definition FACTOR_GOVERNOR_DISCRIMINATOR :: bytes where
  "FACTOR_GOVERNOR_DISCRIMINATOR = [0x46, 0x47]"

datatype JoinSide = Left | Right

fun disc_bytes :: "JoinSide \<Rightarrow> bytes" where
  "disc_bytes Left = [0x4A, 0x4C]"
| "disc_bytes Right = [0x4A, 0x52]"

section \<open>The prefix extractor of the join arrangements\<close>

datatype PrefixTarget = Point bytes | Prefix bytes

fun strip_prefix :: "bytes \<Rightarrow> bytes \<Rightarrow> bytes option" where
  "strip_prefix [] k = Some k"
| "strip_prefix (p # ps) [] = None"
| "strip_prefix (p # ps) (b # bs) = (if p = b then strip_prefix ps bs else None)"

definition logical_key :: "bytes \<Rightarrow> bytes" where
  "logical_key key =
     (case strip_prefix [0xFF, 0x56, 0x32] key of
        Some k \<Rightarrow> k
      | None \<Rightarrow> (case strip_prefix [0xFF, 0x56, 0x33] key of Some k \<Rightarrow> k | None \<Rightarrow> key))"

definition is_join_arrangement :: "bytes \<Rightarrow> bool" where
  "is_join_arrangement logical \<longleftrightarrow>
     length logical \<ge> 3 \<and> logical ! 0 = as_byte OpState
     \<and> (take 2 (drop 1 logical) = disc_bytes Left \<or> take 2 (drop 1 logical) = disc_bytes Right)"

fun prefix_len :: "PrefixTarget \<Rightarrow> usize option" where
  "prefix_len (Point key) =
     (let logical = logical_key key in
      if is_join_arrangement logical \<and> length logical \<ge> 27 then Some (length key - 16)
      else Some (length key))"
| "prefix_len (Prefix key) =
     (let logical = logical_key key in
      if is_join_arrangement logical \<and> length logical > 11 then Some (length key) else None)"

section \<open>Sort keys\<close>

definition minmax_sort_key :: "i64 \<Rightarrow> bool \<Rightarrow> bytes" where
  "minmax_sort_key v invert = to_be 8 (signed_order_key v invert)"

definition minmax_sort_key_decode :: "bytes \<Rightarrow> bool \<Rightarrow> i64" where
  "minmax_sort_key_decode skey invert = signed_order_key_decode (from_be skey) invert"

definition window_sort_key :: "i64 \<Rightarrow> bytes" where
  "window_sort_key v = to_be 8 (signed_order_key v False)"

definition window_sort_key_decode :: "bytes \<Rightarrow> i64" where
  "window_sort_key_decode skey = signed_order_key_decode (from_be skey) False"

definition topk_value_desc_bytes :: "i64 \<Rightarrow> bytes" where
  "topk_value_desc_bytes v = to_be 8 (NOT (bits v XOR 0x8000000000000000))"

definition topk_value_desc_decode :: "bytes \<Rightarrow> i64" where
  "topk_value_desc_decode bs =
     (let raw = NOT (from_be bs :: u64) in I64 (raw XOR 0x8000000000000000))"

section \<open>Shard-local keys\<close>

definition shard_encode :: "ShardPrefix \<Rightarrow> u64 \<Rightarrow> bytes \<Rightarrow> bytes" where
  "shard_encode p operator_id suffix' = [as_byte p] @ encode_u64_be operator_id @ suffix'"

definition shard_decode :: "bytes \<Rightarrow> (u8 \<times> u64 \<times> bytes) option" where
  "shard_decode key =
     (if length key < 9 then None
      else case decode_u64_be (take 8 (drop 1 key)) of
        None \<Rightarrow> None
      | Some operator_id \<Rightarrow> Some (key ! 0, operator_id, drop 9 key))"

definition join_arr_key :: "JoinSide \<Rightarrow> u64 \<Rightarrow> bytes \<Rightarrow> u128 \<Rightarrow> bytes" where
  "join_arr_key side op_id join_key row_id =
     [as_byte OpState] @ disc_bytes side @ encode_u64_be op_id @ join_key @ encode_u128_be row_id"

definition distinct_key :: "u64 \<Rightarrow> u128 \<Rightarrow> bytes" where
  "distinct_key op_id row_hash =
     [as_byte OpState] @ DISTINCT_DISCRIMINATOR @ to_be 8 op_id @ to_be 16 row_hash"

definition distinct_op_prefix :: "u64 \<Rightarrow> bytes" where
  "distinct_op_prefix op_id = [as_byte OpState] @ DISTINCT_DISCRIMINATOR @ to_be 8 op_id"

definition join_arr_op_prefix :: "JoinSide \<Rightarrow> u64 \<Rightarrow> bytes" where
  "join_arr_op_prefix side op_id = [as_byte OpState] @ disc_bytes side @ to_be 8 op_id"

definition join_arr_key_prefix :: "JoinSide \<Rightarrow> u64 \<Rightarrow> bytes \<Rightarrow> bytes" where
  "join_arr_key_prefix side op_id join_key =
     [as_byte OpState] @ disc_bytes side @ to_be 8 op_id @ join_key"

definition try_factor_payload_key :: "JoinSide \<Rightarrow> u64 \<Rightarrow> bytes \<Rightarrow> u128 \<Rightarrow> bytes option" where
  "try_factor_payload_key side op_id capsule_bytes row_id =
     (case checked_usize_to_u32 (length capsule_bytes) of
        None \<Rightarrow> None
      | Some capsule_len \<Rightarrow>
          Some ([as_byte OpState] @ FACTOR_PAYLOAD_DISCRIMINATOR @ disc_bytes side
            @ encode_u64_be op_id @ to_be 4 capsule_len @ capsule_bytes @ encode_u128_be row_id))"

definition factor_payload_key ::
  "JoinSide \<Rightarrow> u64 \<Rightarrow> bytes \<Rightarrow> u128 \<Rightarrow> (unit, bytes) result" where
  "factor_payload_key side op_id capsule_bytes row_id =
     expect (try_factor_payload_key side op_id capsule_bytes row_id)"

definition side_of :: "bytes \<Rightarrow> JoinSide option" where
  "side_of bs = (if bs = [0x4A, 0x4C] then Some Left else if bs = [0x4A, 0x52] then Some Right else None)"

definition decode_factor_payload_key :: "bytes \<Rightarrow> (JoinSide \<times> u64 \<times> bytes \<times> u128) option" where
  "decode_factor_payload_key key =
     (let header_len = 1 + 2 + 2 + 8 + 4 in
      if length key < header_len + 16 \<or> key ! 0 \<noteq> as_byte OpState
         \<or> take 2 (drop 1 key) \<noteq> FACTOR_PAYLOAD_DISCRIMINATOR then None
      else case side_of (take 2 (drop 3 key)) of
        None \<Rightarrow> None
      | Some side \<Rightarrow> (case decode_u64_be (take 8 (drop 5 key)) of
        None \<Rightarrow> None
      | Some op_id \<Rightarrow>
          let capsule_len = unat (from_be (take 4 (drop 13 key)) :: u32) in
          (case usize_checked_add 17 capsule_len of
             None \<Rightarrow> None
           | Some capsule_end \<Rightarrow> (case usize_checked_add capsule_end 16 of
             None \<Rightarrow> None
           | Some row_end \<Rightarrow>
               if row_end \<noteq> length key then None
               else case decode_u128_be (take 16 (drop capsule_end key)) of
                 None \<Rightarrow> None
               | Some row_id \<Rightarrow> Some (side, op_id, take capsule_len (drop 17 key), row_id)))))"

definition factor_payload_op_prefix :: "JoinSide \<Rightarrow> u64 \<Rightarrow> bytes" where
  "factor_payload_op_prefix side op_id =
     [as_byte OpState] @ FACTOR_PAYLOAD_DISCRIMINATOR @ disc_bytes side @ to_be 8 op_id"

definition factor_governor_key :: "u64 \<Rightarrow> bytes" where
  "factor_governor_key op_id = [as_byte OpState] @ FACTOR_GOVERNOR_DISCRIMINATOR @ to_be 8 op_id"

definition operator_prefix :: "ShardPrefix \<Rightarrow> u64 \<Rightarrow> bytes" where
  "operator_prefix p operator_id = [as_byte p] @ encode_u64_be operator_id"

definition namespace_prefix :: "ShardPrefix \<Rightarrow> bytes" where
  "namespace_prefix p = [as_byte p]"

definition meta_key :: "bytes \<Rightarrow> bytes" where
  "meta_key meta_type = [as_byte ShardMeta] @ meta_type"

text \<open>\<open>b"frontier"\<close>, \<open>b"epoch"\<close> and \<open>b"IK"\<close> as bytes.\<close>

definition frontier_key :: bytes where
  "frontier_key = meta_key [0x66, 0x72, 0x6F, 0x6E, 0x74, 0x69, 0x65, 0x72]"

definition format_version_key :: bytes where
  "format_version_key = meta_key FORMAT_VERSION_DISCRIMINATOR"

definition minmax_multiset_key :: "u64 \<Rightarrow> i64 \<Rightarrow> bytes \<Rightarrow> bytes" where
  "minmax_multiset_key op_id group_key skey =
     [as_byte OpState, MINMAX_DISCRIMINATOR] @ to_be 8 op_id @ to_be 8 (bits group_key) @ skey"

definition minmax_group_prefix :: "u64 \<Rightarrow> i64 \<Rightarrow> bytes" where
  "minmax_group_prefix op_id group_key =
     [as_byte OpState, MINMAX_DISCRIMINATOR] @ to_be 8 op_id @ to_be 8 (bits group_key)"

definition minmax_operator_prefix :: "u64 \<Rightarrow> bytes" where
  "minmax_operator_prefix op_id = [as_byte OpState, MINMAX_DISCRIMINATOR] @ to_be 8 op_id"

definition minmax_extremum_key :: "u64 \<Rightarrow> i64 \<Rightarrow> bytes" where
  "minmax_extremum_key op_id group_key =
     [as_byte OpIndex, MINMAX_DISCRIMINATOR] @ to_be 8 op_id @ to_be 8 (bits group_key)"

definition minmax_extremum_op_prefix :: "u64 \<Rightarrow> bytes" where
  "minmax_extremum_op_prefix op_id = [as_byte OpIndex, MINMAX_DISCRIMINATOR] @ to_be 8 op_id"

definition epoch_key :: "u64 \<Rightarrow> bytes" where
  "epoch_key epoch = [as_byte ShardMeta] @ [0x65, 0x70, 0x6F, 0x63, 0x68] @ to_be 8 epoch"

definition idempotency_key :: "u32 \<Rightarrow> bytes \<Rightarrow> bytes" where
  "idempotency_key shard_id key_hash =
     [as_byte OpIndex] @ [0x49, 0x4B] @ to_be 4 shard_id @ key_hash"

definition idempotency_prefix :: "u32 \<Rightarrow> bytes" where
  "idempotency_prefix shard_id = [as_byte OpIndex] @ [0x49, 0x4B] @ to_be 4 shard_id"

definition window_arr_key :: "u64 \<Rightarrow> bytes \<Rightarrow> bytes \<Rightarrow> u128 \<Rightarrow> bytes" where
  "window_arr_key op_id part_key order_key row_id =
     [as_byte OpState] @ WINDOW_DISCRIMINATOR @ to_be 8 op_id @ part_key @ order_key
     @ to_be 16 row_id"

definition window_arr_partition_prefix :: "u64 \<Rightarrow> bytes \<Rightarrow> bytes" where
  "window_arr_partition_prefix op_id part_key =
     [as_byte OpState] @ WINDOW_DISCRIMINATOR @ to_be 8 op_id @ part_key"

definition window_arr_op_prefix :: "u64 \<Rightarrow> bytes" where
  "window_arr_op_prefix op_id = [as_byte OpState] @ WINDOW_DISCRIMINATOR @ to_be 8 op_id"

definition window_prev_output_key :: "u64 \<Rightarrow> bytes \<Rightarrow> u128 \<Rightarrow> bytes" where
  "window_prev_output_key op_id part_key row_hash =
     [as_byte OpIndex] @ WINDOW_DISCRIMINATOR @ to_be 8 op_id @ part_key @ to_be 16 row_hash"

definition window_prev_output_partition_prefix :: "u64 \<Rightarrow> bytes \<Rightarrow> bytes" where
  "window_prev_output_partition_prefix op_id part_key =
     [as_byte OpIndex] @ WINDOW_DISCRIMINATOR @ to_be 8 op_id @ part_key"

definition tumble_window_key :: "u64 \<Rightarrow> i64 \<Rightarrow> bytes \<Rightarrow> bytes" where
  "tumble_window_key op_id window_id group_key =
     [as_byte OpState] @ TW_DISCRIMINATOR @ to_be 8 op_id @ to_be 8 (bits window_id) @ group_key"

definition tumble_window_op_prefix :: "u64 \<Rightarrow> bytes" where
  "tumble_window_op_prefix op_id = [as_byte OpState] @ TW_DISCRIMINATOR @ to_be 8 op_id"

definition tumble_window_window_prefix :: "u64 \<Rightarrow> i64 \<Rightarrow> bytes" where
  "tumble_window_window_prefix op_id window_id =
     [as_byte OpState] @ TW_DISCRIMINATOR @ to_be 8 op_id @ to_be 8 (bits window_id)"

definition watermark_key :: "u64 \<Rightarrow> bytes" where
  "watermark_key op_id = [as_byte ShardMeta] @ WM_DISCRIMINATOR @ to_be 8 op_id"

definition topk_key :: "u64 \<Rightarrow> bytes \<Rightarrow> i64 \<Rightarrow> u128 \<Rightarrow> bytes" where
  "topk_key op_id partition_key v row_id =
     [as_byte OpState] @ TK_DISCRIMINATOR @ to_be 8 op_id @ partition_key
     @ topk_value_desc_bytes v @ to_be 16 row_id"

definition topk_partition_prefix :: "u64 \<Rightarrow> bytes \<Rightarrow> bytes" where
  "topk_partition_prefix op_id partition_key =
     [as_byte OpState] @ TK_DISCRIMINATOR @ to_be 8 op_id @ partition_key"

definition topk_op_prefix :: "u64 \<Rightarrow> bytes" where
  "topk_op_prefix op_id = [as_byte OpState] @ TK_DISCRIMINATOR @ to_be 8 op_id"

definition recursion_key :: "u64 \<Rightarrow> u128 \<Rightarrow> u32 \<Rightarrow> bytes" where
  "recursion_key op_id row_hash iteration =
     [as_byte OpState] @ RC_DISCRIMINATOR @ to_be 8 op_id @ to_be 16 row_hash @ to_be 4 iteration"

definition recursion_op_prefix :: "u64 \<Rightarrow> bytes" where
  "recursion_op_prefix op_id = [as_byte OpState] @ RC_DISCRIMINATOR @ to_be 8 op_id"

definition decode_idempotency_key :: "bytes \<Rightarrow> (u32 \<times> bytes) option" where
  "decode_idempotency_key key =
     (if length key \<noteq> 23 then None
      else if key ! 0 \<noteq> as_byte OpIndex \<or> take 2 (drop 1 key) \<noteq> [0x49, 0x4B] then None
      else Some (from_be (take 4 (drop 3 key)), take 16 (drop 7 key)))"

section \<open>Catalog keys\<close>

datatype CatalogType =
  Pipeline | Source | View | Table | Schema | Connector | Index | Workload

fun catalog_byte :: "CatalogType \<Rightarrow> u8" where
  "catalog_byte Pipeline = 0x10"
| "catalog_byte Source = 0x11"
| "catalog_byte View = 0x12"
| "catalog_byte Table = 0x13"
| "catalog_byte Schema = 0x14"
| "catalog_byte Connector = 0x15"
| "catalog_byte Index = 0x16"
| "catalog_byte Workload = 0x17"

definition catalog_encode :: "CatalogType \<Rightarrow> u128 \<Rightarrow> u128 \<Rightarrow> bytes" where
  "catalog_encode catalog_type namespace_id object_id =
     [catalog_byte catalog_type] @ encode_u128_be namespace_id @ encode_u128_be object_id"

definition catalog_encode_with_suffix :: "CatalogType \<Rightarrow> u128 \<Rightarrow> u128 \<Rightarrow> bytes \<Rightarrow> bytes" where
  "catalog_encode_with_suffix catalog_type namespace_id object_id suffix' =
     [catalog_byte catalog_type] @ encode_u128_be namespace_id @ encode_u128_be object_id @ suffix'"

definition catalog_decode :: "bytes \<Rightarrow> (u8 \<times> u128 \<times> u128 \<times> bytes) option" where
  "catalog_decode key =
     (if length key < 33 then None
      else case decode_u128_be (take 16 (drop 1 key)) of
        None \<Rightarrow> None
      | Some namespace_id \<Rightarrow> (case decode_u128_be (take 16 (drop 17 key)) of
        None \<Rightarrow> None
      | Some object_id \<Rightarrow> Some (key ! 0, namespace_id, object_id, drop 33 key)))"

definition catalog_namespace_prefix :: "CatalogType \<Rightarrow> u128 \<Rightarrow> bytes" where
  "catalog_namespace_prefix catalog_type namespace_id =
     [catalog_byte catalog_type] @ to_be 16 namespace_id"

definition catalog_type_prefix :: "CatalogType \<Rightarrow> bytes" where
  "catalog_type_prefix catalog_type = [catalog_byte catalog_type]"

section \<open>Sort keys keep the order\<close>

text \<open>A decoder of a \<open>[u8; 8]\<close> as a partial function on byte lists.\<close>

definition array8 :: "(bytes \<Rightarrow> 'a) \<Rightarrow> bytes \<Rightarrow> 'a option" where
  "array8 f bs = (if length bs = 8 then Some (f bs) else None)"

lemma be_u64: "256 ^ 8 = (2 :: nat) ^ LENGTH(64)"
  by simp

lemma be_u128: "256 ^ 16 = (2 :: nat) ^ LENGTH(128)"
  by simp

lemma be_u32: "256 ^ 4 = (2 :: nat) ^ LENGTH(32)"
  by simp

lemma array8_minmax:
  "array8 (\<lambda>k. minmax_sort_key_decode k invert) bs = Some v \<longleftrightarrow> bs = minmax_sort_key v invert"
  by (auto simp: array8_def minmax_sort_key_decode_def minmax_sort_key_def to_be_from_be [OF be_u64]
      from_be_to_be [OF be_u64])

lemma minmax_sort_key_less:
  "minmax_sort_key v invert < minmax_sort_key w invert \<longleftrightarrow>
     (if invert then ival w < ival v else ival v < ival w)"
  by (simp add: minmax_sort_key_def to_be_less_iff [OF be_u64] signed_order_key_less)

lemma length_minmax_sort_key [simp]: "length (minmax_sort_key v invert) = 8"
  by (simp add: minmax_sort_key_def)

interpretation min_sort:
  ordered_codec "\<lambda>v. minmax_sort_key v False" "array8 (\<lambda>k. minmax_sort_key_decode k False)" 8 ival
  by unfold_locales (auto simp: array8_minmax minmax_sort_key_less)

interpretation max_sort:
  ordered_codec "\<lambda>v. minmax_sort_key v True" "array8 (\<lambda>k. minmax_sort_key_decode k True)" 8
    "\<lambda>v. - ival v"
  by unfold_locales (auto simp: array8_minmax minmax_sort_key_less)

lemma window_sort_key_eq: "window_sort_key v = minmax_sort_key v False"
  by (simp add: window_sort_key_def minmax_sort_key_def)

lemma window_sort_key_decode_eq: "window_sort_key_decode k = minmax_sort_key_decode k False"
  by (simp add: window_sort_key_decode_def minmax_sort_key_decode_def)

lemma topk_value_desc_eq: "topk_value_desc_bytes v = minmax_sort_key v True"
  by (simp add: topk_value_desc_bytes_def minmax_sort_key_def signed_order_key_def SIGN_BIT_def)

lemma topk_value_desc_decode_eq: "topk_value_desc_decode k = minmax_sort_key_decode k True"
  by (simp add: topk_value_desc_decode_def minmax_sort_key_decode_def signed_order_key_decode_def
      SIGN_BIT_def)

lemma minmax_sort_key_decode_encode: "minmax_sort_key_decode (minmax_sort_key v b) b = v"
  using array8_minmax [of b "minmax_sort_key v b" v] by (simp add: array8_def)

text \<open>
  (C37) Sort keys: ascending keys (MIN, window) compare as the signed values do, inverted keys (MAX,
  Top-K) compare in reverse, and each kind decodes to the value it was built from. The first key of
  a prefix scan is therefore the extremum.
\<close>

theorem sort_key_order:
  "(minmax_sort_key v False < minmax_sort_key w False \<longleftrightarrow> v < w)
   \<and> (minmax_sort_key v True < minmax_sort_key w True \<longleftrightarrow> w < v)
   \<and> (window_sort_key v < window_sort_key w \<longleftrightarrow> v < w)
   \<and> (topk_value_desc_bytes v < topk_value_desc_bytes w \<longleftrightarrow> w < v)
   \<and> minmax_sort_key_decode (minmax_sort_key v b) b = v
   \<and> window_sort_key_decode (window_sort_key v) = v
   \<and> topk_value_desc_decode (topk_value_desc_bytes v) = v"
  by (simp add: minmax_sort_key_less i64_order window_sort_key_eq window_sort_key_decode_eq
      topk_value_desc_eq topk_value_desc_decode_eq minmax_sort_key_decode_encode)

section \<open>Storage keys are unambiguous\<close>

text \<open>The logical keys of the state arrangements, and the bytes each is stored under.\<close>

datatype state_key =
    KAggregate u64 bytes
  | KJoin JoinSide u64 bytes u128
  | KDistinct u64 u128
  | KFactor JoinSide u64 bytes u128
  | KGovernor u64
  | KMinmax u64 i64 bytes
  | KExtremum u64 i64
  | KWindow u64 bytes bytes u128
  | KWindowOutput u64 bytes u128
  | KTumble u64 i64 bytes
  | KTopk u64 bytes i64 u128
  | KRecursion u64 u128 u32
  | KIdempotency u32 bytes
  | KWatermark u64
  | KEpoch u64
  | KFrontier
  | KFormatVersion

fun storage_key :: "state_key \<Rightarrow> bytes" where
  "storage_key (KAggregate op_id group_key) = shard_encode OpState op_id group_key"
| "storage_key (KJoin side op_id k r) = join_arr_key side op_id k r"
| "storage_key (KDistinct op_id r) = distinct_key op_id r"
| "storage_key (KFactor side op_id c r) =
     (case try_factor_payload_key side op_id c r of Some k \<Rightarrow> k | None \<Rightarrow> [])"
| "storage_key (KGovernor op_id) = factor_governor_key op_id"
| "storage_key (KMinmax op_id g k) = minmax_multiset_key op_id g k"
| "storage_key (KExtremum op_id g) = minmax_extremum_key op_id g"
| "storage_key (KWindow op_id p k r) = window_arr_key op_id p k r"
| "storage_key (KWindowOutput op_id p r) = window_prev_output_key op_id p r"
| "storage_key (KTumble op_id w g) = tumble_window_key op_id w g"
| "storage_key (KTopk op_id p v r) = topk_key op_id p v r"
| "storage_key (KRecursion op_id r i) = recursion_key op_id r i"
| "storage_key (KIdempotency s h) = idempotency_key s h"
| "storage_key (KWatermark op_id) = watermark_key op_id"
| "storage_key (KEpoch e) = epoch_key e"
| "storage_key KFrontier = frontier_key"
| "storage_key KFormatVersion = format_version_key"

text \<open>
  The byte arrays have their declared length, an order key is a window sort key, a capsule length
  fits in 32 bits, and the operator of an undiscriminated aggregate key is below \<open>2^56\<close>: its most
  significant byte is then no discriminator.
\<close>

fun wf_key :: "state_key \<Rightarrow> bool" where
  "wf_key (KAggregate op_id group_key) \<longleftrightarrow> drop_bit 56 op_id = 0"
| "wf_key (KFactor side op_id c r) \<longleftrightarrow> length c < 2 ^ 32"
| "wf_key (KMinmax op_id g k) \<longleftrightarrow> length k = 8"
| "wf_key (KWindow op_id p k r) \<longleftrightarrow> length k = 8"
| "wf_key (KIdempotency s h) \<longleftrightarrow> length h = 16"
| "wf_key _ \<longleftrightarrow> True"

lemma to_be_inject [simp]:
  "to_be 8 a = to_be 8 (b :: u64) \<longleftrightarrow> a = b" "to_be 16 c = to_be 16 (d :: u128) \<longleftrightarrow> c = d"
  "to_be 4 e = to_be 4 (f :: u32) \<longleftrightarrow> e = f"
  by (metis from_be_to_be be_u64 be_u128 be_u32)+

lemma to_be_append_inject [simp]:
  "to_be 8 a @ xs = to_be 8 (b :: u64) @ ys \<longleftrightarrow> a = b \<and> xs = ys"
  "to_be 16 c @ xs = to_be 16 (d :: u128) @ ys \<longleftrightarrow> c = d \<and> xs = ys"
  "to_be 4 e @ xs = to_be 4 (f :: u32) @ ys \<longleftrightarrow> e = f \<and> xs = ys"
  by simp_all

lemma small_op_first_byte: "drop_bit 56 op_id = 0 \<Longrightarrow> \<exists>rest. encode_u64_be op_id = 0 # rest"
  by (simp add: encode_u64_be_def)

lemma first_byte_zero:
  "drop_bit 56 op_id = 0 \<Longrightarrow> b \<noteq> 0 \<Longrightarrow> encode_u64_be op_id @ xs \<noteq> b # ys"
  by (auto simp: encode_u64_be_def)

lemmas key_defs = shard_encode_def join_arr_key_def distinct_key_def try_factor_payload_key_def
  factor_governor_key_def minmax_multiset_key_def minmax_extremum_key_def window_arr_key_def
  window_prev_output_key_def tumble_window_key_def topk_key_def recursion_key_def
  idempotency_key_def watermark_key_def epoch_key_def frontier_key_def format_version_key_def
  meta_key_def MINMAX_DISCRIMINATOR_def DISTINCT_DISCRIMINATOR_def WINDOW_DISCRIMINATOR_def
  TW_DISCRIMINATOR_def WM_DISCRIMINATOR_def FORMAT_VERSION_DISCRIMINATOR_def TK_DISCRIMINATOR_def
  RC_DISCRIMINATOR_def FACTOR_PAYLOAD_DISCRIMINATOR_def FACTOR_GOVERNOR_DISCRIMINATOR_def

text \<open>The first three bytes of a key tell the arrangement it belongs to.\<close>

fun family :: "state_key \<Rightarrow> nat" where
  "family (KAggregate _ _) = 0"
| "family (KJoin _ _ _ _) = 1"
| "family (KDistinct _ _) = 2"
| "family (KFactor _ _ _ _) = 3"
| "family (KGovernor _) = 4"
| "family (KMinmax _ _ _) = 5"
| "family (KExtremum _ _) = 6"
| "family (KWindow _ _ _ _) = 7"
| "family (KWindowOutput _ _ _) = 8"
| "family (KTumble _ _ _) = 9"
| "family (KTopk _ _ _ _) = 10"
| "family (KRecursion _ _ _) = 11"
| "family (KIdempotency _ _) = 12"
| "family (KWatermark _) = 13"
| "family (KEpoch _) = 14"
| "family KFrontier = 15"
| "family KFormatVersion = 16"

fun family_of_bytes :: "bytes \<Rightarrow> nat" where
  "family_of_bytes (a # b # c # _) =
     (if a = 0x01 then
        (if b = 0x00 then 0 else if b = 0x4A then 1 else if b = 0x44 then 2
         else if b = 0x46 then (if c = 0x50 then 3 else 4)
         else if b = 0x4D then 5 else if b = 0x57 then 7
         else if b = 0x54 then (if c = 0x57 then 9 else 10) else 11)
      else if a = 0x02 then (if b = 0x4D then 6 else if b = 0x57 then 8 else 12)
      else (if b = 0x57 then 13 else if b = 0x65 then 14 else if b = 0x66 then 15 else 16))"
| "family_of_bytes _ = 17"

lemma family_storage_key: "wf_key k \<Longrightarrow> family_of_bytes (storage_key k) = family k"
proof (cases k)
  case (KJoin side op_id j r)
  then show ?thesis by (cases side) (simp_all add: key_defs)
next
  case (KMinmax op_id g j)
  then show ?thesis by (simp add: key_defs flip: encode_u64_be_eq) (simp add: encode_u64_be_def)
next
  case (KExtremum op_id g)
  then show ?thesis by (simp add: key_defs flip: encode_u64_be_eq) (simp add: encode_u64_be_def)
qed (simp_all add: key_defs encode_u64_be_def checked_usize_to_u32_def)

lemma disc_bytes_inject [simp]: "disc_bytes s = disc_bytes s' \<longleftrightarrow> s = s'"
  by (cases s; cases s') simp_all

lemma disc_bytes_append_inject [simp]: "disc_bytes s @ xs = disc_bytes s' @ ys \<longleftrightarrow> s = s' \<and> xs = ys"
  by (cases s; cases s') simp_all

lemma topk_value_desc_inject [simp]:
  "topk_value_desc_bytes v = topk_value_desc_bytes w \<longleftrightarrow> v = w"
  by (simp add: topk_value_desc_eq max_sort.enc_inject)

lemma length_topk_value_desc [simp]: "length (topk_value_desc_bytes v) = 8"
  by (simp add: topk_value_desc_eq)



section \<open>Scan prefixes are exact\<close>

datatype state_scan =
    SJoin JoinSide u64
  | SDistinct u64
  | SFactor JoinSide u64
  | SMinmax u64
  | SMinmaxGroup u64 i64
  | SExtremum u64
  | SWindow u64
  | STumble u64
  | STumbleWindow u64 i64
  | STopk u64
  | SRecursion u64
  | SIdempotency u32

fun scan_prefix :: "state_scan \<Rightarrow> bytes" where
  "scan_prefix (SJoin side op_id) = join_arr_op_prefix side op_id"
| "scan_prefix (SDistinct op_id) = distinct_op_prefix op_id"
| "scan_prefix (SFactor side op_id) = factor_payload_op_prefix side op_id"
| "scan_prefix (SMinmax op_id) = minmax_operator_prefix op_id"
| "scan_prefix (SMinmaxGroup op_id g) = minmax_group_prefix op_id g"
| "scan_prefix (SExtremum op_id) = minmax_extremum_op_prefix op_id"
| "scan_prefix (SWindow op_id) = window_arr_op_prefix op_id"
| "scan_prefix (STumble op_id) = tumble_window_op_prefix op_id"
| "scan_prefix (STumbleWindow op_id w) = tumble_window_window_prefix op_id w"
| "scan_prefix (STopk op_id) = topk_op_prefix op_id"
| "scan_prefix (SRecursion op_id) = recursion_op_prefix op_id"
| "scan_prefix (SIdempotency shard_id) = idempotency_prefix shard_id"

fun selects :: "state_scan \<Rightarrow> state_key \<Rightarrow> bool" where
  "selects (SJoin side op_id) k = (case k of KJoin side' op_id' _ _ \<Rightarrow> side' = side \<and> op_id' = op_id | _ \<Rightarrow> False)"
| "selects (SDistinct op_id) k = (case k of KDistinct op_id' _ \<Rightarrow> op_id' = op_id | _ \<Rightarrow> False)"
| "selects (SFactor side op_id) k = (case k of KFactor side' op_id' _ _ \<Rightarrow> side' = side \<and> op_id' = op_id | _ \<Rightarrow> False)"
| "selects (SMinmax op_id) k = (case k of KMinmax op_id' _ _ \<Rightarrow> op_id' = op_id | _ \<Rightarrow> False)"
| "selects (SMinmaxGroup op_id g) k = (case k of KMinmax op_id' g' _ \<Rightarrow> op_id' = op_id \<and> g' = g | _ \<Rightarrow> False)"
| "selects (SExtremum op_id) k = (case k of KExtremum op_id' _ \<Rightarrow> op_id' = op_id | _ \<Rightarrow> False)"
| "selects (SWindow op_id) k = (case k of KWindow op_id' _ _ _ \<Rightarrow> op_id' = op_id | _ \<Rightarrow> False)"
| "selects (STumble op_id) k = (case k of KTumble op_id' _ _ \<Rightarrow> op_id' = op_id | _ \<Rightarrow> False)"
| "selects (STumbleWindow op_id w) k = (case k of KTumble op_id' w' _ \<Rightarrow> op_id' = op_id \<and> w' = w | _ \<Rightarrow> False)"
| "selects (STopk op_id) k = (case k of KTopk op_id' _ _ _ \<Rightarrow> op_id' = op_id | _ \<Rightarrow> False)"
| "selects (SRecursion op_id) k = (case k of KRecursion op_id' _ _ \<Rightarrow> op_id' = op_id | _ \<Rightarrow> False)"
| "selects (SIdempotency shard_id) k = (case k of KIdempotency shard_id' _ \<Rightarrow> shard_id' = shard_id | _ \<Rightarrow> False)"

lemmas prefix_defs = join_arr_op_prefix_def distinct_op_prefix_def factor_payload_op_prefix_def
  minmax_operator_prefix_def minmax_group_prefix_def minmax_extremum_op_prefix_def
  window_arr_op_prefix_def tumble_window_op_prefix_def tumble_window_window_prefix_def
  topk_op_prefix_def recursion_op_prefix_def idempotency_prefix_def

lemma prefix_same_length: "length xs = length ys \<Longrightarrow> prefix xs (ys @ zs) \<longleftrightarrow> xs = ys"
  by (auto simp: prefix_def)

lemma prefix_same_length_append:
  "length xs = length ys \<Longrightarrow> prefix (xs @ us) (ys @ zs) \<longleftrightarrow> xs = ys \<and> prefix us zs"
  by (auto simp: prefix_def)

lemma prefix_to_be [simp]:
  "prefix (to_be 8 (a :: u64)) (to_be 8 (b :: u64) @ xs) \<longleftrightarrow> a = b"
  "prefix (to_be 4 (e :: u32)) (to_be 4 (f :: u32) @ xs) \<longleftrightarrow> e = f"
  "prefix (to_be 8 a @ ys) (to_be 8 b @ xs) \<longleftrightarrow> a = b \<and> prefix ys xs"
  "prefix (to_be 8 a) (to_be 8 b) \<longleftrightarrow> a = b"
  "prefix (disc_bytes s @ ys) (disc_bytes s' @ xs) \<longleftrightarrow> s = s' \<and> prefix ys xs"
  by (simp_all add: prefix_same_length prefix_same_length_append prefix_same_length [where zs = "[]", simplified])
    (cases s; cases s'; simp)

fun scan_family :: "state_scan \<Rightarrow> nat" where
  "scan_family (SJoin _ _) = 1"
| "scan_family (SDistinct _) = 2"
| "scan_family (SFactor _ _) = 3"
| "scan_family (SMinmax _) = 5"
| "scan_family (SMinmaxGroup _ _) = 5"
| "scan_family (SExtremum _) = 6"
| "scan_family (SWindow _) = 7"
| "scan_family (STumble _) = 9"
| "scan_family (STumbleWindow _ _) = 9"
| "scan_family (STopk _) = 10"
| "scan_family (SRecursion _) = 11"
| "scan_family (SIdempotency _) = 12"

lemma scan_family_prefix: "family_of_bytes (scan_prefix s @ xs) = scan_family s"
proof (cases s)
  case (SJoin side op_id)
  then show ?thesis by (cases side) (simp_all add: prefix_defs)
qed (simp_all add: prefix_defs key_defs encode_u64_be_eq [symmetric], simp_all add: encode_u64_be_def)



section \<open>Decoders\<close>

lemma take_drop_step: "drop m xs = take n (drop m xs) @ drop (m + n) xs"
  by (metis append_take_drop_id drop_drop add.commute)

lemma side_of_Some: "side_of bs = Some side \<longleftrightarrow> bs = disc_bytes side"
  by (cases side) (auto simp: side_of_def)

lemma length_disc_bytes [simp]: "length (disc_bytes side) = 2"
  by (cases side) simp_all

lemma unat_of_nat_u32: "n < 2 ^ 32 \<Longrightarrow> unat (of_nat n :: u32) = n"
  by (simp add: unat_of_nat take_bit_eq_mod)

lemma decode_factor_payload_sound:
  assumes "decode_factor_payload_key key = Some (side, op_id, c, r)"
  shows "try_factor_payload_key side op_id c r = Some key"
proof -
  define n where "n = unat (from_be (take 4 (drop 13 key)) :: u32)"
  have key: "key ! 0 = 1" "take 2 (drop 1 key) = [0x46, 0x50]" "take 2 (drop 3 key) = disc_bytes side"
    "take 8 (drop 5 key) = encode_u64_be op_id" "length key = 33 + n"
    "c = take n (drop 17 key)" "take 16 (drop (17 + n) key) = encode_u128_be r"
    using assms
    by (auto simp: decode_factor_payload_key_def Let_def FACTOR_PAYLOAD_DISCRIMINATOR_def side_of_Some
        u64_be.dec_Some u128_be.dec_Some usize_checked_add_def n_def [symmetric]
        split: if_splits option.splits)
  have n: "n < 2 ^ 32" using unat_less [of "from_be (take 4 (drop 13 key)) :: u32"] by (simp add: n_def)
  then have "of_nat n = (from_be (take 4 (drop 13 key)) :: u32)" by (simp add: n_def)
  then have len: "take 4 (drop 13 key) = to_be 4 (of_nat n :: u32)"
    using key(5) to_be_from_be [OF be_u32, of "take 4 (drop 13 key)"] by simp
  have "take 1 key = [1]" using key(1,5) by (cases key) simp_all
  moreover have "drop 1 key = take 2 (drop 1 key) @ drop 3 key"
    "drop 3 key = take 2 (drop 3 key) @ drop 5 key" "drop 5 key = take 8 (drop 5 key) @ drop 13 key"
    "drop 13 key = take 4 (drop 13 key) @ drop 17 key"
    "drop 17 key = take n (drop 17 key) @ drop (17 + n) key"
    using take_drop_step [of 1 key 2] take_drop_step [of 3 key 2] take_drop_step [of 5 key 8]
      take_drop_step [of 13 key 4] take_drop_step [of 17 key n]
    by (simp_all only: one_plus_numeral numeral_plus_numeral add_num_simps)
  moreover have "take 16 (drop (17 + n) key) = drop (17 + n) key" using key(5) by simp
  ultimately have "key = [1] @ take 2 (drop 1 key) @ take 2 (drop 3 key) @ take 8 (drop 5 key)
      @ take 4 (drop 13 key) @ take n (drop 17 key) @ take 16 (drop (17 + n) key)"
    by (metis append_take_drop_id)
  then have "key = [1] @ [0x46, 0x50] @ disc_bytes side @ encode_u64_be op_id
      @ to_be 4 (of_nat n :: u32) @ c @ encode_u128_be r"
    by (simp only: key(2,3,4,7) len key(6) [symmetric])
  moreover have "length c = n" using key(5,6) by simp
  ultimately show ?thesis
    using n by (simp add: try_factor_payload_key_def FACTOR_PAYLOAD_DISCRIMINATOR_def
        checked_usize_to_u32_def)
qed

lemma decode_factor_payload_complete:
  assumes "try_factor_payload_key side op_id c r = Some key"
  shows "decode_factor_payload_key key = Some (side, op_id, c, r)"
proof -
  have n: "length c < 2 ^ 32"
    and key: "key = 1 # 0x46 # 0x50 # disc_bytes side @ encode_u64_be op_id
      @ to_be 4 (of_nat (length c) :: u32) @ c @ encode_u128_be r"
    using assms by (auto simp: try_factor_payload_key_def FACTOR_PAYLOAD_DISCRIMINATOR_def
        checked_usize_to_u32_def split: if_splits)
  have "unat (from_be (to_be 4 (of_nat (length c) :: u32)) :: u32) = length c"
    using n by (simp add: from_be_to_be [OF be_u32] unat_of_nat_u32)
  moreover have drops: "take 4 (drop 13 key) = to_be 4 (of_nat (length c) :: u32)"
      "drop 17 key = c @ encode_u128_be r" "key ! 0 = 1" "take 2 (drop 1 key) = [0x46, 0x50]"
      "take 2 (drop 3 key) = disc_bytes side" "take 8 (drop 5 key) = encode_u64_be op_id"
      "length key = 33 + length c"
    by (cases side; simp add: key)+
  moreover have "drop (17 + length c) key = encode_u128_be r"
    using drops(2) by (metis drop_drop add.commute append_eq_conv_conj)
  ultimately show ?thesis
    using n
    by (simp add: decode_factor_payload_key_def FACTOR_PAYLOAD_DISCRIMINATOR_def Let_def
        side_of_Some [THEN iffD2] usize_checked_add_def usize_max_def)
qed

text \<open>
  Factorized payload keys: decoding accepts exactly the keys the encoder produces and returns
  the side, operator, capsule and row they were built from; truncated, overlong and
  length-mismatched keys are all rejected.
\<close>

theorem factor_payload_roundtrip:
  "decode_factor_payload_key key = Some (side, op_id, capsule, row_id) \<longleftrightarrow>
     try_factor_payload_key side op_id capsule row_id = Some key"
  using decode_factor_payload_sound decode_factor_payload_complete by blast

lemma shard_decode_Some:
  "shard_decode key = Some (p, op_id, rest) \<longleftrightarrow> key = [p] @ encode_u64_be op_id @ rest"
proof
  assume dec: "shard_decode key = Some (p, op_id, rest)"
  then have "key ! 0 = p" "take 8 (drop 1 key) = encode_u64_be op_id" "drop 9 key = rest" "key \<noteq> []"
    by (auto simp: shard_decode_def u64_be.dec_Some split: if_splits option.splits)
  then show "key = [p] @ encode_u64_be op_id @ rest"
    using take_drop_step [of 1 key 8] by (cases key) auto
qed (simp add: shard_decode_def)

lemma catalog_decode_Some:
  "catalog_decode key = Some (t, ns, obj, rest) \<longleftrightarrow>
     key = [t] @ encode_u128_be ns @ encode_u128_be obj @ rest"
proof
  assume dec: "catalog_decode key = Some (t, ns, obj, rest)"
  then have "key ! 0 = t" "take 16 (drop 1 key) = encode_u128_be ns"
    "take 16 (drop 17 key) = encode_u128_be obj" "drop 33 key = rest" "key \<noteq> []"
    by (auto simp: catalog_decode_def u128_be.dec_Some split: if_splits option.splits)
  then show "key = [t] @ encode_u128_be ns @ encode_u128_be obj @ rest"
    using take_drop_step [of 1 key 16] take_drop_step [of 17 key 16] by (cases key) auto
qed (simp add: catalog_decode_def)

lemma decode_idempotency_key_Some:
  "decode_idempotency_key key = Some (shard_id, h) \<longleftrightarrow>
     length h = 16 \<and> key = idempotency_key shard_id h"
proof
  assume dec: "decode_idempotency_key key = Some (shard_id, h)"
  then have "length key = 23" "key ! 0 = 2" "take 2 (drop 1 key) = [0x49, 0x4B]"
    "from_be (take 4 (drop 3 key)) = shard_id" "take 16 (drop 7 key) = h"
    by (auto simp: decode_idempotency_key_def split: if_splits)
  moreover from this have "take 4 (drop 3 key) = to_be 4 shard_id"
    using to_be_from_be [OF be_u32, of "take 4 (drop 3 key)"] by simp
  ultimately show "length h = 16 \<and> key = idempotency_key shard_id h"
    using take_drop_step [of 1 key 2] take_drop_step [of 3 key 4] take_drop_step [of 7 key 16]
    by (cases key) (auto simp: idempotency_key_def numeral_2_eq_2)
qed (auto simp: decode_idempotency_key_def idempotency_key_def from_be_to_be [OF be_u32])


lemma catalog_byte_inject [simp]: "catalog_byte t = catalog_byte t' \<longleftrightarrow> t = t'"
  by (cases t; cases t') simp_all

text \<open>
  Tenant isolation of the catalog: scanning the prefix of a catalog type in one namespace finds
  the objects of that type in that namespace and no object of another namespace or type.
\<close>

theorem catalog_namespace_isolation:
  "prefix (catalog_namespace_prefix t ns) (catalog_encode_with_suffix t' ns' obj rest) \<longleftrightarrow>
     t = t' \<and> ns = ns'"
  by (simp add: catalog_namespace_prefix_def catalog_encode_with_suffix_def encode_u128_be_eq
      prefix_same_length)

section \<open>The prefix extractor never hides a join row\<close>

definition version_header :: "bytes \<Rightarrow> bool" where
  "version_header h \<longleftrightarrow> h \<in> {[], [0xFF, 0x56, 0x32], [0xFF, 0x56, 0x33]}"

lemma logical_key_version:
  assumes "version_header h" "k \<noteq> []" "hd k \<noteq> 0xFF"
  shows "logical_key (h @ k) = k"
  using assms by (cases k) (auto simp: version_header_def logical_key_def)

text \<open>
  (C39) The bloom filter of the join arrangements has no false negatives for a probe by join key: for
  every stored row, under each storage format, the filtered part of its key is exactly the scan
  prefix of its join key, and that prefix is probed at its full length.
\<close>

theorem join_prefix_extractor_sound:
  assumes "version_header h" "join_key \<noteq> []"
  shows "\<exists>n. prefix_len (Point (h @ join_arr_key side op_id join_key row_id)) = Some n
    \<and> take n (h @ join_arr_key side op_id join_key row_id)
        = h @ join_arr_key_prefix side op_id join_key
    \<and> prefix_len (Prefix (h @ join_arr_key_prefix side op_id join_key))
        = Some (length (h @ join_arr_key_prefix side op_id join_key))"
proof -
  let ?k = "join_arr_key side op_id join_key row_id"
  let ?p = "join_arr_key_prefix side op_id join_key"
  have k: "?k = ?p @ encode_u128_be row_id"
    by (simp add: join_arr_key_def join_arr_key_prefix_def encode_u64_be_eq)
  have p: "length ?p > 11" "?p \<noteq> []" "hd ?p \<noteq> 0xFF"
    using assms(2) by (simp_all add: join_arr_key_prefix_def)
  have join: "is_join_arrangement (?p @ xs)" for xs
    by (cases side) (simp_all add: join_arr_key_prefix_def is_join_arrangement_def)
  have "logical_key (h @ ?p) = ?p" "logical_key (h @ ?k) = ?k"
    using p assms(1) by (auto simp: k intro!: logical_key_version)
  then show ?thesis using p join [of "[]"] join [of "encode_u128_be row_id"] by (simp add: k)
qed

theorem join_prefix_extractor_sound_witness:
  "\<exists>n. prefix_len (Point ([0xFF, 0x56, 0x33] @ join_arr_key Right 4 [9, 9] 77)) = Some n
    \<and> take n ([0xFF, 0x56, 0x33] @ join_arr_key Right 4 [9, 9] 77)
        = [0xFF, 0x56, 0x33] @ join_arr_key_prefix Right 4 [9, 9]
    \<and> prefix_len (Prefix ([0xFF, 0x56, 0x33] @ join_arr_key_prefix Right 4 [9, 9]))
        = Some (length ([0xFF, 0x56, 0x33] @ join_arr_key_prefix Right 4 [9, 9]))"
  by (rule join_prefix_extractor_sound) (simp_all add: version_header_def)

end
