(* ===== verification/Storage.thy ===== *)
theory Storage
  imports Keys
begin

text \<open>
  Write batches of \<open>rockstream-storage/src/shard_db.rs\<close> and what they do to the contents of a shard.

  The storage engine is not part of the repository. Its contents are a map from keys to values, on
  which the operations of a batch take effect together and in the order of the batch, which is what
  the engine documents. How the engine combines a merge operand with a stored value is a parameter.
\<close>

datatype BatchOp = Put bytes bytes | Delete bytes | MergeOp bytes bytes

type_synonym WriteBatch = "BatchOp list"

fun op_size :: "BatchOp \<Rightarrow> usize" where
  "op_size (Put k v) = length k + length v"
| "op_size (Delete k) = length k"
| "op_size (MergeOp k v) = length k + length v"

definition byte_size :: "WriteBatch \<Rightarrow> usize" where
  "byte_size b = sum_list (map op_size b)"

definition batch_put :: "bytes \<Rightarrow> bytes \<Rightarrow> WriteBatch \<Rightarrow> WriteBatch" where
  "batch_put k v b = b @ [Put k v]"

definition batch_delete :: "bytes \<Rightarrow> WriteBatch \<Rightarrow> WriteBatch" where
  "batch_delete k b = b @ [Delete k]"

definition merge_from :: "WriteBatch \<Rightarrow> WriteBatch \<Rightarrow> WriteBatch" where
  "merge_from other b = b @ other"

type_synonym contents = "bytes \<Rightarrow> bytes option"

fun apply_op :: "(bytes option \<Rightarrow> bytes \<Rightarrow> bytes) \<Rightarrow> BatchOp \<Rightarrow> contents \<Rightarrow> contents" where
  "apply_op mrg (Put k v) c = c(k \<mapsto> v)"
| "apply_op mrg (Delete k) c = c(k := None)"
| "apply_op mrg (MergeOp k v) c = c(k \<mapsto> mrg (c k) v)"

definition write_batch :: "(bytes option \<Rightarrow> bytes \<Rightarrow> bytes) \<Rightarrow> WriteBatch \<Rightarrow> contents \<Rightarrow> contents" where
  "write_batch mrg b c = fold (apply_op mrg) b c"

text \<open>What a scan of a prefix returns: every entry under the prefix, once, in key order.\<close>

definition scan_of :: "contents \<Rightarrow> bytes \<Rightarrow> (bytes \<times> bytes) list \<Rightarrow> bool" where
  "scan_of c p es \<longleftrightarrow> bt_ok es \<and> (\<forall>k v. (k, v) \<in> set es \<longleftrightarrow> c k = Some v \<and> take (length p) k = p)"

fun op_key :: "BatchOp \<Rightarrow> bytes" where
  "op_key (Put k v) = k"
| "op_key (Delete k) = k"
| "op_key (MergeOp k v) = k"

lemma write_batch_other: "k \<notin> op_key ` set b \<Longrightarrow> write_batch mrg b c k = c k"
proof (induction b arbitrary: c)
  case (Cons x b)
  then show ?case by (cases x) (simp_all add: write_batch_def)
qed (simp add: write_batch_def)

lemma write_batch_append: "write_batch mrg (a @ b) c = write_batch mrg b (write_batch mrg a c)"
  by (simp add: write_batch_def)

lemma write_deletes: "write_batch mrg (map (\<lambda>x. Delete (f x)) xs) c = (\<lambda>k. if k \<in> f ` set xs then None else c k)"
  by (induction xs arbitrary: c) (auto simp: write_batch_def fun_eq_iff)

lemma write_puts:
  "distinct (map f xs) \<Longrightarrow>
    write_batch mrg (map (\<lambda>x. Put (f x) (g x)) xs) c =
      (\<lambda>k. case map_of (map (\<lambda>x. (f x, g x)) xs) k of Some v \<Rightarrow> Some v | None \<Rightarrow> c k)"
proof (induction xs arbitrary: c)
  case (Cons x xs)
  then have "map_of (map (\<lambda>x. (f x, g x)) xs) (f x) = None" by (auto simp: map_of_eq_None_iff)
  moreover have "write_batch mrg (map (\<lambda>x. Put (f x) (g x)) (x # xs)) c =
      write_batch mrg (map (\<lambda>x. Put (f x) (g x)) xs) (c(f x \<mapsto> g x))"
    by (simp add: write_batch_def)
  ultimately show ?case using Cons by (auto simp: fun_eq_iff split: option.splits)
qed (simp add: write_batch_def)

end
