(* ===== verification/PhysicalCommit.thy ===== *)
theory PhysicalCommit
  imports Storage "HOL-Library.Option_ord"
begin

text \<open>
  The physical group-commit driver of \<open>rockstream-ops/src/group_commit/physical.rs\<close>: one owner
  task drains staged epochs into atomic storage batches, retries, and acknowledges callers.

  Each critical section of the code (one hold of the state mutex) is one operation on \<open>pc_state\<close>;
  the driver task alternates between beginning a flight, persisting it and finishing it, while
  callers stage epochs, request flushes and cancel. Storage is a log of committed groups of which a
  prefix is durable; every attempt may fail, time out, and take effect in spite of that. Fixed
  message texts of errors sent to callers are the empty byte string; texts that come from storage
  are kept.
\<close>

section \<open>State\<close>

definition MAX_GROUP_COMMIT_OPERATIONS :: usize where "MAX_GROUP_COMMIT_OPERATIONS = 131072"
definition MAX_GROUP_COMMIT_WAITERS :: usize where "MAX_GROUP_COMMIT_WAITERS = 1024"
definition MAX_GROUP_COMMIT_RETRY_COUNT :: usize where "MAX_GROUP_COMMIT_RETRY_COUNT = 3"
definition MAX_COMMIT_DIAGNOSTIC_BYTES :: usize where "MAX_COMMIT_DIAGNOSTIC_BYTES = 1024"

text \<open>A waiter and a flush reply are the identifiers of their one-shot channels.\<close>

type_synonym chan = nat

record Entry =
  batch :: WriteBatch
  entry_bytes :: usize
  entry_operations :: usize
  staged_at :: nat
  waiter :: "chan option"

record State =
  pending :: "(u64, Entry) omap"
  uncertain :: "(u64, Entry) omap"
  requests :: "(u64, chan) omap"
  next_request :: u64
  retained_bytes :: usize
  retained_epochs :: usize
  retained_operations :: usize
  last_committed :: "u64 option"
  sealed_epoch :: "u64 option"
  in_flight :: bool
  force_flush :: bool
  retry_required :: bool
  write_outcome_unknown :: bool
  closing :: bool

record Config =
  max_delay :: nat
  max_bytes :: usize
  max_epochs :: usize

record Flight =
  entries :: "(u64, Entry) omap"
  flight_requests :: "u64 list"
  source :: u8

datatype Outcome = Durable | WriteFailed bytes | FlushUnknown bytes | WriteUnknown bytes

datatype OpError =
    AdmissionStopped
  | EpochNotNewer u64 "u64 option"
  | CapacityExceeded string usize usize
  | RequestsExhausted
  | FrontierReadTimeout
  | StorageFailed
  | FrontierMalformed

datatype Reply =
    EpochAck chan u64 WriteBatch
  | EpochFail chan u64 bytes
  | FlushAck chan "u64 list"
  | FlushFail chan bytes

definition state_default :: State where
  "state_default = \<lparr>
     pending = [], uncertain = [], requests = [], next_request = 0, retained_bytes = 0,
     retained_epochs = 0, retained_operations = 0, last_committed = None, sealed_epoch = None,
     in_flight = False, force_flush = False, retry_required = False,
     write_outcome_unknown = False, closing = False\<rparr>"

definition last_key :: "(u64, 'v) omap \<Rightarrow> u64" where
  "last_key m = fst (last m)"

section \<open>Bounded diagnostics and waiter slots\<close>

definition is_char_boundary :: "bytes \<Rightarrow> nat \<Rightarrow> bool" where
  "is_char_boundary text' i \<longleftrightarrow>
     i = 0 \<or> i = length text' \<or> (i < length text' \<and> (text' ! i AND 0xC0) \<noteq> 0x80)"

fun char_boundary_below :: "bytes \<Rightarrow> nat \<Rightarrow> nat" where
  "char_boundary_below text' 0 = 0"
| "char_boundary_below text' (Suc n) =
     (if is_char_boundary text' (Suc n) then Suc n else char_boundary_below text' n)"

definition diagnostic :: "bytes \<Rightarrow> bytes" where
  "diagnostic text' =
     (if length text' > MAX_COMMIT_DIAGNOSTIC_BYTES
      then take (char_boundary_below text' MAX_COMMIT_DIAGNOSTIC_BYTES) text' else text')"

text \<open>The compare-and-exchange loop of \<open>WaiterSlot::acquire\<close>, linearised, and its drop.\<close>

definition slot_acquire :: "usize \<Rightarrow> (OpError, usize) result" where
  "slot_acquire counter =
     (if counter \<ge> MAX_GROUP_COMMIT_WAITERS
      then Err (CapacityExceeded ''physical_commit_waiters'' counter MAX_GROUP_COMMIT_WAITERS)
      else Ok (counter + 1))"

definition slot_release :: "usize \<Rightarrow> (OpError, usize) result" where
  "slot_release counter = (if counter = 0 then Panic else Ok (counter - 1))"

section \<open>Opening and admission\<close>

text \<open>The stored frontier as read at open time; the read may time out or fail.\<close>

datatype frontier_read = ReadTimeout | ReadFailed | ReadValue "bytes option"

definition open_frontier :: "frontier_read \<Rightarrow> (OpError, u64 option) result" where
  "open_frontier r =
     (case r of
        ReadTimeout \<Rightarrow> Err FrontierReadTimeout
      | ReadFailed \<Rightarrow> Err StorageFailed
      | ReadValue None \<Rightarrow> Ok None
      | ReadValue (Some bs) \<Rightarrow>
          if length bs = 8 then Ok (Some (from_be bs)) else Err FrontierMalformed)"

definition pc_open :: "frontier_read \<Rightarrow> (OpError, State) result" where
  "pc_open r = rbind (open_frontier r) (\<lambda>frontier.
     Ok (state_default\<lparr>last_committed := frontier, sealed_epoch := frontier\<rparr>))"

definition stage ::
  "Config \<Rightarrow> u64 \<Rightarrow> WriteBatch \<Rightarrow> chan option \<Rightarrow> nat \<Rightarrow> State \<Rightarrow> (OpError, unit) result \<times> State" where
  "stage cfg epoch b w now s =
     (let bs = byte_size b; operations = length b in
      if closing s \<or> retry_required s then (Err AdmissionStopped, s)
      else if (case sealed_epoch s of None \<Rightarrow> False | Some sealed \<Rightarrow> epoch \<le> sealed)
              \<or> bt_contains (pending s) epoch
      then (Err (EpochNotNewer epoch (sealed_epoch s)), s)
      else case usize_checked_add (retained_bytes s) bs of
        None \<Rightarrow> (Err (CapacityExceeded ''physical_commit_bytes'' usize_max (max_bytes cfg)), s)
      | Some proposed \<Rightarrow>
          if proposed > max_bytes cfg
          then (Err (CapacityExceeded ''physical_commit_bytes'' proposed (max_bytes cfg)), s)
          else if retained_epochs s \<ge> max_epochs cfg
          then (Err (CapacityExceeded ''physical_commit_epochs'' (retained_epochs s) (max_epochs cfg)), s)
          else case usize_checked_add (retained_operations s) operations of
            None \<Rightarrow> (Err (CapacityExceeded ''physical_commit_operations'' usize_max
                       MAX_GROUP_COMMIT_OPERATIONS), s)
          | Some proposed_operations \<Rightarrow>
              if proposed_operations > MAX_GROUP_COMMIT_OPERATIONS
              then (Err (CapacityExceeded ''physical_commit_operations'' proposed_operations
                      MAX_GROUP_COMMIT_OPERATIONS), s)
              else
                (Ok (), s\<lparr>
                   pending := bt_insert epoch \<lparr>batch = b, entry_bytes = bs,
                     entry_operations = operations, staged_at = now, waiter = w\<rparr> (pending s),
                   retained_bytes := proposed,
                   retained_epochs := retained_epochs s + 1,
                   retained_operations := proposed_operations,
                   force_flush := force_flush s
                     \<or> (proposed = max_bytes cfg \<or> retained_epochs s + 1 = max_epochs cfg)\<rparr>))"

text \<open>The critical section of \<open>flush\<close>, the drop of a flush request, and the first step of \<open>shutdown\<close>.\<close>

definition flush_request :: "chan \<Rightarrow> State \<Rightarrow> (OpError, u64) result \<times> State" where
  "flush_request reply s =
     (case checked_add_w (next_request s) 1 of
        None \<Rightarrow> (Err RequestsExhausted, s)
      | Some n \<Rightarrow>
          (Ok (next_request s),
           s\<lparr>next_request := n, requests := bt_insert (next_request s) reply (requests s)\<rparr>))"

definition flush_request_drop :: "u64 \<Rightarrow> State \<Rightarrow> State" where
  "flush_request_drop i s = s\<lparr>requests := bt_remove i (requests s)\<rparr>"

definition shutdown_begin :: "State \<Rightarrow> State" where
  "shutdown_begin s = s\<lparr>closing := True\<rparr>"

section \<open>The driver: beginning a flight\<close>

definition oldest_staged :: "(u64, Entry) omap \<Rightarrow> nat option" where
  "oldest_staged m =
     (case map (\<lambda>e. staged_at (snd e)) m of [] \<Rightarrow> None | t # ts \<Rightarrow> Some (fold min ts t))"

definition drive_begin ::
  "Config \<Rightarrow> nat \<Rightarrow> State \<Rightarrow> (OpError, Flight option \<times> nat option \<times> Reply list \<times> State) result" where
  "drive_begin cfg now s0 =
     (let (failed, s) =
        (if write_outcome_unknown s0 \<and> requests s0 \<noteq> []
         then (map (\<lambda>e. FlushFail (snd e) []) (requests s0), s0\<lparr>requests := []\<rparr>)
         else ([], s0));
        oldest = oldest_staged (pending s);
        due = (case oldest of None \<Rightarrow> False | Some t \<Rightarrow> now - t \<ge> max_delay cfg);
        requested = (requests s \<noteq> []);
        ready = (requested \<or> (\<not> retry_required s \<and> (due \<or> force_flush s)))
      in
      if ready \<and> (pending s \<noteq> [] \<or> uncertain s \<noteq> []) \<and> \<not> write_outcome_unknown s
      then
        rbind (expect (begin_owner (pending s \<noteq> []) (uncertain s \<noteq> []) (write_outcome_unknown s)))
          (\<lambda>src.
           let (es, s1) =
             (if src = FLIGHT_UNCERTAIN then (uncertain s, s\<lparr>uncertain := []\<rparr>)
              else (pending s, s\<lparr>pending := []\<rparr>));
             s2 = (if es \<noteq> [] then s1\<lparr>sealed_epoch := Some (last_key es)\<rparr> else s1);
             s3 = s2\<lparr>in_flight := True, force_flush := False\<rparr>
           in Ok (Some \<lparr>entries = es, flight_requests = map fst (requests s3), source = src\<rparr>,
                  None, failed, s3))
      else
        let (empty, s1) =
          (if requested \<and> pending s = [] \<and> uncertain s = []
           then (map (\<lambda>e. FlushAck (snd e) []) (requests s), s\<lparr>requests := []\<rparr>)
           else ([], s));
          delay = (if retry_required s1 then None
                   else map_option (\<lambda>t. max_delay cfg - (now - t)) oldest)
        in Ok (None, delay, failed @ empty, s1))"

section \<open>The driver: persisting a flight\<close>

text \<open>
  Storage as the driver sees it: the groups whose write reached the database, in order, and how many
  of them are durable. An attempt that does not report success may have reached the database all the
  same; its flag says whether it did.
\<close>

record Store =
  db_log :: "(u64 \<times> WriteBatch) list list"
  db_durable :: nat

datatype write_io = WOk | WErr bytes bool | WTimeout bool
datatype flush_io = FOk | FErr bytes bool | FTimeout bool

definition group_of :: "(u64, Entry) omap \<Rightarrow> (u64 \<times> WriteBatch) list" where
  "group_of es = map (\<lambda>e. (fst e, batch (snd e))) es"

text \<open>The merged batch of a group, with the frontier key written last.\<close>

definition merged_batch :: "(u64 \<times> WriteBatch) list \<Rightarrow> WriteBatch" where
  "merged_batch g =
     (let merged = fold (\<lambda>e. merge_from (snd e)) g []
      in if g = [] then merged else batch_put frontier_key (to_be 8 (last_key g)) merged)"

definition db_write :: "(u64 \<times> WriteBatch) list \<Rightarrow> Store \<Rightarrow> Store" where
  "db_write g d = d\<lparr>db_log := db_log d @ [g]\<rparr>"

definition db_flush :: "Store \<Rightarrow> Store" where
  "db_flush d = d\<lparr>db_durable := length (db_log d)\<rparr>"

text \<open>\<open>Inl\<close>: the loop left the function with an outcome; \<open>Inr\<close>: it fell through.\<close>

fun write_loop ::
  "nat \<Rightarrow> (nat \<Rightarrow> write_io) \<Rightarrow> (u64 \<times> WriteBatch) list \<Rightarrow> Store \<Rightarrow> (Outcome + unit) \<times> Store" where
  "write_loop 0 io g d = (Inr (), d)"
| "write_loop (Suc n) io g d =
     (case io (MAX_GROUP_COMMIT_RETRY_COUNT - Suc n) of
        WOk \<Rightarrow> (Inr (), db_write g d)
      | WTimeout hit \<Rightarrow> (Inl (WriteUnknown []), if hit then db_write g d else d)
      | WErr error hit \<Rightarrow>
          let d' = (if hit then db_write g d else d) in
          if n = 0 then (Inl (WriteFailed (diagnostic error)), d') else write_loop n io g d')"

fun flush_loop :: "nat \<Rightarrow> (nat \<Rightarrow> flush_io) \<Rightarrow> Store \<Rightarrow> Outcome \<times> Store" where
  "flush_loop 0 io d = (WriteUnknown [], d)"
| "flush_loop (Suc n) io d =
     (case io (MAX_GROUP_COMMIT_RETRY_COUNT - Suc n) of
        FOk \<Rightarrow> (Durable, db_flush d)
      | FErr error hit \<Rightarrow>
          let d' = (if hit then db_flush d else d) in
          if n = 0 then (FlushUnknown (diagnostic error), d') else flush_loop n io d'
      | FTimeout hit \<Rightarrow>
          let d' = (if hit then db_flush d else d) in
          if n = 0 then (FlushUnknown [], d') else flush_loop n io d')"

text \<open>
  The flush loop asserts before it gives up that a written, unflushed commit is classified as
  unknown; it is (lemma \<open>flush_assertion\<close>), so the assertion has no branch here.
\<close>

definition persist ::
  "Flight \<Rightarrow> (nat \<Rightarrow> write_io) \<Rightarrow> (nat \<Rightarrow> flush_io) \<Rightarrow> Store \<Rightarrow> Outcome \<times> Store" where
  "persist f wio fio d =
     (if source f \<noteq> FLIGHT_UNCERTAIN then
        (case write_loop MAX_GROUP_COMMIT_RETRY_COUNT wio (group_of (entries f)) d of
           (Inl outcome, d') \<Rightarrow> (outcome, d')
         | (Inr _, d') \<Rightarrow> flush_loop MAX_GROUP_COMMIT_RETRY_COUNT fio d')
      else flush_loop MAX_GROUP_COMMIT_RETRY_COUNT fio d)"

section \<open>The driver: finishing a flight\<close>

definition entry_waiters :: "(u64, Entry) omap \<Rightarrow> (chan \<times> u64 \<times> WriteBatch) list" where
  "entry_waiters es =
     concat (map (\<lambda>(k, e). case waiter e of None \<Rightarrow> [] | Some w \<Rightarrow> [(w, k, batch e)]) es)"

definition take_waiters :: "(u64, Entry) omap \<Rightarrow> (u64, Entry) omap" where
  "take_waiters es = map (\<lambda>(k, e). (k, e\<lparr>waiter := None\<rparr>)) es"

fun outcome_kind :: "Outcome \<Rightarrow> u8 \<times> bytes option" where
  "outcome_kind Durable = (DURABLE, None)"
| "outcome_kind (WriteFailed error) = (WRITE_FAILED, Some error)"
| "outcome_kind (FlushUnknown error) = (OUTCOME_UNKNOWN, Some error)"
| "outcome_kind (WriteUnknown error) = (OUTCOME_UNKNOWN, Some error)"

fun is_write_unknown :: "Outcome \<Rightarrow> bool" where
  "is_write_unknown (WriteUnknown _) = True"
| "is_write_unknown _ = False"

text \<open>A failed \<open>expect\<close> or assertion is \<open>Panic\<close>.\<close>

definition assert_that :: "bool \<Rightarrow> ('e, unit) result" where
  "assert_that b = (if b then Ok () else Panic)"

text \<open>
  The first critical section of \<open>finish\<close>: its value is the result to send (the epochs, or the error
  text) and the waiters to send it to.
\<close>

definition finish_commit ::
  "Flight \<Rightarrow> Outcome \<Rightarrow> State \<Rightarrow>
     (OpError, (u64 list + bytes) \<times> (chan \<times> u64 \<times> WriteBatch) list \<times> State) result" where
  "finish_commit f outcome s =
     (let epochs = map fst (entries f);
          waiters = entry_waiters (entries f);
          es = take_waiters (entries f);
          bs = bt_sum entry_bytes es;
          operations = bt_sum entry_operations es;
          (kind, error) = outcome_kind outcome
      in
      rbind (expect (if epochs = [] then None else Some (last epochs))) (\<lambda>flight_last.
      rbind (expect (finish_transition (source f) kind (retained_epochs s) (length epochs)
               (retained_bytes s) bs (retained_operations s) operations (last_committed s)
               flight_last)) (\<lambda>(owner, re, rb, ro, frontier, ack).
      rbind (assert_that (frontier \<ge> last_committed s)) (\<lambda>_.
      let s1 = s\<lparr>retained_epochs := re, retained_bytes := rb, retained_operations := ro,
                 last_committed := frontier, in_flight := False, retry_required := \<not> ack,
                 write_outcome_unknown := is_write_unknown outcome\<rparr>
      in
      if ack then
        rbind (assert_that (owner = COMMITTED)) (\<lambda>_. Ok (Inl epochs, waiters, s1))
      else if owner = PENDING then
        rbind (expect error) (\<lambda>e.
        Ok (Inr e, waiters, s1\<lparr>pending := bt_append (pending s1) es\<rparr>))
      else
        rbind (assert_that (owner = UNCERTAIN)) (\<lambda>_.
        rbind (expect error) (\<lambda>e.
        Ok (Inr e, waiters, s1\<lparr>uncertain := bt_append (uncertain s1) es\<rparr>)))))))"

text \<open>Sending the result to the waiters, then the second critical section for the requests.\<close>

definition waiter_reply :: "(u64 list + bytes) \<Rightarrow> chan \<times> u64 \<times> WriteBatch \<Rightarrow> Reply" where
  "waiter_reply res w =
     (case w of (c, k, b) \<Rightarrow> (case res of Inl _ \<Rightarrow> EpochAck c k b | Inr e \<Rightarrow> EpochFail c k e))"

definition request_reply :: "(u64 list + bytes) \<Rightarrow> chan \<Rightarrow> Reply" where
  "request_reply res c = (case res of Inl epochs \<Rightarrow> FlushAck c epochs | Inr e \<Rightarrow> FlushFail c e)"

fun answer_requests :: "(u64 list + bytes) \<Rightarrow> u64 list \<Rightarrow> State \<Rightarrow> Reply list \<times> State" where
  "answer_requests res [] s = ([], s)"
| "answer_requests res (i # is) s =
     (case bt_get (requests s) i of
        None \<Rightarrow> answer_requests res is s
      | Some c \<Rightarrow>
          let (rs, s') = answer_requests res is (s\<lparr>requests := bt_remove i (requests s)\<rparr>)
          in (request_reply res c # rs, s'))"

definition finish_reply ::
  "(u64 list + bytes) \<Rightarrow> (chan \<times> u64 \<times> WriteBatch) list \<Rightarrow> u64 list \<Rightarrow> State \<Rightarrow> Reply list \<times> State" where
  "finish_reply res waiters ids s =
     (let (rs, s') = answer_requests res ids s in (map (waiter_reply res) waiters @ rs, s'))"

text \<open>Dropping a flight that was not finished: the executor cancelled or unwound the driver.\<close>

definition flight_drop :: "Flight \<Rightarrow> State \<Rightarrow> (OpError, Reply list \<times> State) result" where
  "flight_drop f s =
     (let failed = map (waiter_reply (Inr [])) (entry_waiters (entries f));
          es = take_waiters (entries f)
      in
      rbind (expect (if es = [] then None else Some (last_key es))) (\<lambda>flight_last.
      rbind (expect (finish_transition (source f) OUTCOME_UNKNOWN (retained_epochs s) (length es)
               (retained_bytes s) (bt_sum entry_bytes es) (retained_operations s)
               (bt_sum entry_operations es) (last_committed s) flight_last))
        (\<lambda>(owner, re, rb, ro, frontier, ack).
      rbind (assert_that (owner = UNCERTAIN)) (\<lambda>_.
      rbind (assert_that (\<not> ack)) (\<lambda>_.
      let s1 = s\<lparr>retained_epochs := re, retained_bytes := rb, retained_operations := ro,
                 last_committed := frontier, uncertain := bt_append (uncertain s) es,
                 in_flight := False, retry_required := True, write_outcome_unknown := True\<rparr>;
          (rs, s2) = answer_requests (Inr []) (flight_requests f) s1
      in Ok (failed @ rs, s2))))))"

section \<open>The system\<close>

datatype Driver =
    Idle
  | Flying Flight
  | Replying "u64 list + bytes" "(chan \<times> u64 \<times> WriteBatch) list" "u64 list"

record System =
  st :: State
  drv :: Driver
  store :: Store
  replies :: "Reply list"

datatype Event =
    EStage u64 WriteBatch "chan option" nat
  | EFlush chan
  | ECancel u64
  | EShutdown
  | ETick nat
  | EFinish "nat \<Rightarrow> write_io" "nat \<Rightarrow> flush_io"
  | EReply
  | EAbort Store

text \<open>What storage may look like when a flight is abandoned at any point of its I/O.\<close>

definition abandoned_store :: "Flight \<Rightarrow> Store \<Rightarrow> Store \<Rightarrow> bool" where
  "abandoned_store f d d' \<longleftrightarrow>
     (\<exists>k. (source f = FLIGHT_UNCERTAIN \<longrightarrow> k = 0)
        \<and> db_log d' = db_log d @ replicate k (group_of (entries f)))
     \<and> db_durable d \<le> db_durable d' \<and> db_durable d' \<le> length (db_log d')"

inductive pc_step :: "Config \<Rightarrow> System \<Rightarrow> Event \<Rightarrow> System \<Rightarrow> bool" for cfg where
  step_stage: "stage cfg k b w now (st x) = (r, s') \<Longrightarrow>
     pc_step cfg x (EStage k b w now) (x\<lparr>st := s'\<rparr>)"
| step_flush: "flush_request c (st x) = (r, s') \<Longrightarrow> pc_step cfg x (EFlush c) (x\<lparr>st := s'\<rparr>)"
| step_cancel: "pc_step cfg x (ECancel i) (x\<lparr>st := flush_request_drop i (st x)\<rparr>)"
| step_shutdown: "pc_step cfg x EShutdown (x\<lparr>st := shutdown_begin (st x)\<rparr>)"
| step_idle: "drv x = Idle \<Longrightarrow> drive_begin cfg now (st x) = Ok (None, delay, rs, s') \<Longrightarrow>
     pc_step cfg x (ETick now) (x\<lparr>st := s', replies := replies x @ rs\<rparr>)"
| step_begin: "drv x = Idle \<Longrightarrow> drive_begin cfg now (st x) = Ok (Some f, delay, rs, s') \<Longrightarrow>
     pc_step cfg x (ETick now) (x\<lparr>st := s', drv := Flying f, replies := replies x @ rs\<rparr>)"
| step_finish: "drv x = Flying f \<Longrightarrow> persist f wio fio (store x) = (outcome, d) \<Longrightarrow>
     finish_commit f outcome (st x) = Ok (res, waiters, s') \<Longrightarrow>
     pc_step cfg x (EFinish wio fio)
       (x\<lparr>st := s', drv := Replying res waiters (flight_requests f), store := d\<rparr>)"
| step_reply: "drv x = Replying res waiters ids \<Longrightarrow> finish_reply res waiters ids (st x) = (rs, s') \<Longrightarrow>
     pc_step cfg x EReply (x\<lparr>st := s', drv := Idle, replies := replies x @ rs\<rparr>)"
| step_abort: "drv x = Flying f \<Longrightarrow> abandoned_store f (store x) d \<Longrightarrow>
     flight_drop f (st x) = Ok (rs, s') \<Longrightarrow>
     pc_step cfg x (EAbort d) (x\<lparr>st := s', drv := Idle, store := d, replies := replies x @ rs\<rparr>)"

text \<open>The stored frontier: the last write to its key in a prefix of the log.\<close>

fun read_key :: "bytes \<Rightarrow> BatchOp list \<Rightarrow> bytes option \<Rightarrow> bytes option" where
  "read_key k [] v = v"
| "read_key k (Put k' v' # ops) v = read_key k ops (if k' = k then Some v' else v)"
| "read_key k (Delete k' # ops) v = read_key k ops (if k' = k then None else v)"
| "read_key k (MergeOp k' v' # ops) v = read_key k ops v"

definition stored_frontier :: "(u64 \<times> WriteBatch) list list \<Rightarrow> bytes option" where
  "stored_frontier l = read_key frontier_key (concat (map merged_batch l)) None"

text \<open>A log of non-empty groups in epoch order, whose last epochs never decrease.\<close>

definition log_ok :: "(u64 \<times> WriteBatch) list list \<Rightarrow> bool" where
  "log_ok l \<longleftrightarrow> (\<forall>g \<in> set l. g \<noteq> [] \<and> bt_ok g) \<and> sorted (map last_key l)"

definition pc_init :: "System \<Rightarrow> bool" where
  "pc_init x \<longleftrightarrow>
     log_ok (db_log (store x)) \<and> db_durable (store x) = length (db_log (store x))
     \<and> pc_open (ReadValue (stored_frontier (db_log (store x)))) = Ok (st x)
     \<and> drv x = Idle \<and> replies x = []"

section \<open>Invariants\<close>

definition flying :: "System \<Rightarrow> (u64, Entry) omap" where
  "flying x = (case drv x of Flying f \<Rightarrow> entries f | _ \<Rightarrow> [])"

definition entry_ok :: "Entry \<Rightarrow> bool" where
  "entry_ok e \<longleftrightarrow> entry_bytes e = byte_size (batch e) \<and> entry_operations e = length (batch e)"

definition all_entries :: "System \<Rightarrow> (u64 \<times> Entry) multiset" where
  "all_entries x = mset (pending (st x)) + mset (uncertain (st x)) + mset (flying x)"

text \<open>Accounting: the counters are exactly the retained work, within the admission bounds.\<close>

definition acct_inv :: "Config \<Rightarrow> System \<Rightarrow> bool" where
  "acct_inv cfg x \<longleftrightarrow>
     bt_ok (pending (st x)) \<and> bt_ok (uncertain (st x)) \<and> bt_ok (flying x)
     \<and> retained_epochs (st x) = size (all_entries x)
     \<and> retained_bytes (st x) = (\<Sum>e\<in>#all_entries x. entry_bytes (snd e))
     \<and> retained_operations (st x) = (\<Sum>e\<in>#all_entries x. entry_operations (snd e))
     \<and> retained_bytes (st x) \<le> max_bytes cfg
     \<and> retained_epochs (st x) \<le> max_epochs cfg
     \<and> retained_operations (st x) \<le> MAX_GROUP_COMMIT_OPERATIONS
     \<and> (\<forall>e \<in># all_entries x. entry_ok (snd e))"

text \<open>Order: where epochs stand relative to the committed and the sealed frontier.\<close>

definition order_inv :: "System \<Rightarrow> bool" where
  "order_inv x \<longleftrightarrow>
     last_committed (st x) \<le> sealed_epoch (st x)
     \<and> (\<forall>e \<in># all_entries x. last_committed (st x) < Some (fst e))
     \<and> (pending (st x) \<noteq> [] \<longrightarrow> sealed_epoch (st x) \<le> Some (last_key (pending (st x))))
     \<and> (uncertain (st x) \<noteq> [] \<longrightarrow>
          flying x = [] \<and> sealed_epoch (st x) = Some (last_key (uncertain (st x))))
     \<and> (uncertain (st x) \<noteq> [] \<or> flying x \<noteq> [] \<longrightarrow>
          (\<forall>e \<in> set (pending (st x)). sealed_epoch (st x) < Some (fst e)))
     \<and> (\<forall>f. drv x = Flying f \<longrightarrow>
          entries f \<noteq> [] \<and> uncertain (st x) = [] \<and> \<not> write_outcome_unknown (st x)
          \<and> sealed_epoch (st x) = Some (last_key (entries f))
          \<and> source f \<in> {FLIGHT_PENDING, FLIGHT_UNCERTAIN})
     \<and> (in_flight (st x) \<longleftrightarrow> flying x \<noteq> [])"

definition logged :: "(u64 \<times> WriteBatch) list list \<Rightarrow> u64 \<Rightarrow> WriteBatch \<Rightarrow> bool" where
  "logged l k b \<longleftrightarrow> (\<exists>g \<in> set l. (k, b) \<in> set g)"

definition durably_logged :: "Store \<Rightarrow> u64 \<Rightarrow> WriteBatch \<Rightarrow> bool" where
  "durably_logged d k b \<longleftrightarrow> logged (take (db_durable d) (db_log d)) k b"

text \<open>Storage: what the log holds of the work in each place, and of what was acknowledged.\<close>

definition log_inv :: "System \<Rightarrow> bool" where
  "log_inv x \<longleftrightarrow>
     log_ok (db_log (store x)) \<and> db_durable (store x) \<le> length (db_log (store x))
     \<and> (\<forall>g \<in> set (db_log (store x)). Some (last_key g) \<le> sealed_epoch (st x))
     \<and> (\<forall>c. last_committed (st x) = Some c \<longrightarrow>
          0 < db_durable (store x) \<and> c \<le> last_key (db_log (store x) ! (db_durable (store x) - 1)))
     \<and> (\<not> write_outcome_unknown (st x) \<longrightarrow>
          (\<forall>e \<in> set (uncertain (st x)). logged (db_log (store x)) (fst e) (batch (snd e))))
     \<and> (\<forall>f. drv x = Flying f \<longrightarrow> source f = FLIGHT_UNCERTAIN \<longrightarrow>
          (\<forall>e \<in> set (entries f). logged (db_log (store x)) (fst e) (batch (snd e))))"

definition ack_ok :: "System \<Rightarrow> u64 \<Rightarrow> WriteBatch \<Rightarrow> bool" where
  "ack_ok x k b \<longleftrightarrow> durably_logged (store x) k b \<and> Some k \<le> last_committed (st x)"

definition reply_inv :: "System \<Rightarrow> bool" where
  "reply_inv x \<longleftrightarrow>
     (\<forall>c k b. EpochAck c k b \<in> set (replies x) \<longrightarrow> ack_ok x k b)
     \<and> (\<forall>c ks k. FlushAck c ks \<in> set (replies x) \<longrightarrow> k \<in> set ks \<longrightarrow> Some k \<le> last_committed (st x))
     \<and> (\<forall>ks ws ids. drv x = Replying (Inl ks) ws ids \<longrightarrow>
          (\<forall>(c, k, b) \<in> set ws. ack_ok x k b) \<and> (\<forall>k \<in> set ks. Some k \<le> last_committed (st x)))"

definition pc_inv :: "Config \<Rightarrow> System \<Rightarrow> bool" where
  "pc_inv cfg x \<longleftrightarrow> acct_inv cfg x \<and> order_inv x \<and> log_inv x \<and> reply_inv x"

section \<open>The operations under the invariants\<close>

lemma flush_assertion: "commit_outcome True False = COMMIT_UNKNOWN"
  by (simp add: commit_outcome_def)

lemma last_key_ge: "bt_ok m \<Longrightarrow> e \<in> set m \<Longrightarrow> fst e \<le> last_key m"
proof (induction m)
  case (Cons a m)
  then show ?case
    by (cases "m = []") (auto simp: last_key_def bt_ok_Cons intro: less_imp_le)
qed simp

lemma last_key_in: "m \<noteq> [] \<Longrightarrow> last_key m \<in> fst ` set m"
  by (simp add: last_key_def)

lemma take_waiters_simps [simp]:
  "fst ` set (take_waiters es) = fst ` set es" "length (take_waiters es) = length es"
  "take_waiters es = [] \<longleftrightarrow> es = []" "last_key (take_waiters es) = last_key es"
  "bt_sum entry_bytes (take_waiters es) = bt_sum entry_bytes es"
  "bt_sum entry_operations (take_waiters es) = bt_sum entry_operations es"
  "map fst (take_waiters es) = map fst es"
proof -
  show "fst ` set (take_waiters es) = fst ` set es" by (force simp: take_waiters_def)
  show "length (take_waiters es) = length es" "take_waiters es = [] \<longleftrightarrow> es = []"
    by (simp_all add: take_waiters_def)
  show "map fst (take_waiters es) = map fst es" by (auto simp: take_waiters_def)
  show "bt_sum entry_bytes (take_waiters es) = bt_sum entry_bytes es"
    "bt_sum entry_operations (take_waiters es) = bt_sum entry_operations es"
    by (induction es) (auto simp: take_waiters_def bt_sum_def)
  show "last_key (take_waiters es) = last_key es"
    by (cases es rule: rev_cases) (auto simp: take_waiters_def last_key_def)
qed

lemma bt_ok_take_waiters [simp]: "bt_ok (take_waiters es) \<longleftrightarrow> bt_ok es"
  by (simp add: bt_ok_def)

lemma take_waiters_sums:
  "(\<Sum>e\<in>#mset (take_waiters es). entry_bytes (snd e)) = (\<Sum>e\<in>#mset es. entry_bytes (snd e))"
  "(\<Sum>e\<in>#mset (take_waiters es). entry_operations (snd e)) = (\<Sum>e\<in>#mset es. entry_operations (snd e))"
  using take_waiters_simps(5,6) [of es] by (simp_all add: bt_sum_mset)

lemma take_waiters_in:
  "e \<in> set (take_waiters es) \<Longrightarrow>
     \<exists>e' \<in> set es. fst e = fst e' \<and> batch (snd e) = batch (snd e') \<and> (entry_ok (snd e) \<longleftrightarrow> entry_ok (snd e'))"
proof -
  assume "e \<in> set (take_waiters es)"
  then obtain k v where "(k, v) \<in> set es" "e = (k, v\<lparr>waiter := None\<rparr>)"
    by (auto simp: take_waiters_def)
  then show ?thesis by (intro bexI [of _ "(k, v)"]) (simp_all add: entry_ok_def)
qed

lemma last_map_fst: "es \<noteq> [] \<Longrightarrow> last (map fst es) = last_key es"
  by (simp add: last_map last_key_def)

lemma less_SomeD: "(\<not> (case o' of None \<Rightarrow> False | Some s \<Rightarrow> k \<le> s)) \<longleftrightarrow> o' < Some (k :: u64)"
  by (cases o') auto

lemma stage_cases:
  assumes "stage cfg k b w now s = (r, s')"
  shows "s' = s \<or>
    (r = Ok () \<and> \<not> closing s \<and> \<not> retry_required s \<and> sealed_epoch s < Some k
     \<and> bt_get (pending s) k = None \<and> retained_bytes s + byte_size b \<le> max_bytes cfg
     \<and> retained_epochs s < max_epochs cfg
     \<and> retained_operations s + length b \<le> MAX_GROUP_COMMIT_OPERATIONS
     \<and> (\<exists>ff. s' = s\<lparr>pending := bt_insert k \<lparr>batch = b, entry_bytes = byte_size b,
                entry_operations = length b, staged_at = now, waiter = w\<rparr> (pending s),
              retained_bytes := retained_bytes s + byte_size b,
              retained_epochs := retained_epochs s + 1,
              retained_operations := retained_operations s + length b,
              force_flush := ff\<rparr>))"
  using assms
  by (auto simp: stage_def Let_def usize_checked_add_def bt_contains_def less_SomeD [symmetric]
      split: if_splits option.splits)

lemma flush_request_state:
  "flush_request c s = (r, s') \<Longrightarrow> s' = s\<lparr>requests := requests s', next_request := next_request s'\<rparr>"
  by (auto simp: flush_request_def split: option.splits)

lemma begin_cases:
  assumes "drive_begin cfg now s = Ok (Some f, delay, rs, s')"
  shows "rs = [] \<and> \<not> write_outcome_unknown s \<and>
    (uncertain s \<noteq> [] \<and> source f = FLIGHT_UNCERTAIN \<and> entries f = uncertain s
       \<and> s' = s\<lparr>uncertain := [], sealed_epoch := Some (last_key (uncertain s)), in_flight := True,
                 force_flush := False\<rparr>
     \<or> uncertain s = [] \<and> pending s \<noteq> [] \<and> source f = FLIGHT_PENDING \<and> entries f = pending s
       \<and> s' = s\<lparr>pending := [], sealed_epoch := Some (last_key (pending s)), in_flight := True,
                 force_flush := False\<rparr>)"
  using assms
  by (auto simp: drive_begin_def Let_def begin_owner_def split: if_splits)

lemma begin_idle_cases:
  assumes "drive_begin cfg now s = Ok (None, delay, rs, s')"
  shows "s' = s\<lparr>requests := requests s'\<rparr> \<and> (\<forall>x \<in> set rs. \<exists>c. x = FlushFail c [] \<or> x = FlushAck c [])"
  using assms
  by (auto simp: drive_begin_def Let_def begin_owner_def split: if_splits option.splits)

lemma begin_no_panic: "drive_begin cfg now s \<noteq> Panic"
  by (auto simp: drive_begin_def Let_def begin_owner_def split: if_splits)

lemma answer_requests_state:
  "answer_requests res ids s = (rs, s') \<Longrightarrow>
     s' = s\<lparr>requests := requests s'\<rparr> \<and> (\<forall>x \<in> set rs. \<exists>c. x = request_reply res c)"
proof (induction ids arbitrary: s rs s')
  case (Cons i ids)
  then show ?case by (fastforce split: option.splits prod.splits)
qed auto

lemma finish_transition_durable:
  "src \<in> {FLIGHT_PENDING, FLIGHT_UNCERTAIN} \<Longrightarrow> 0 < fe \<Longrightarrow> fe \<le> re \<Longrightarrow> fb \<le> rb \<Longrightarrow> fo \<le> ro \<Longrightarrow>
     cur \<le> Some l \<Longrightarrow>
     finish_transition src DURABLE re fe rb fb ro fo cur l =
       Some (COMMITTED, re - fe, rb - fb, ro - fo, Some l, True)"
  by (auto simp: finish_transition_def split: option.splits)

lemma finish_transition_failed:
  "0 < fe \<Longrightarrow> fe \<le> re \<Longrightarrow> fb \<le> rb \<Longrightarrow> fo \<le> ro \<Longrightarrow>
     finish_transition FLIGHT_PENDING WRITE_FAILED re fe rb fb ro fo cur l =
       Some (PENDING, re, rb, ro, cur, False)"
  by (simp add: finish_transition_def)

lemma finish_transition_unknown:
  "src \<in> {FLIGHT_PENDING, FLIGHT_UNCERTAIN} \<Longrightarrow> 0 < fe \<Longrightarrow> fe \<le> re \<Longrightarrow> fb \<le> rb \<Longrightarrow> fo \<le> ro \<Longrightarrow>
     finish_transition src OUTCOME_UNKNOWN re fe rb fb ro fo cur l =
       Some (UNCERTAIN, re, rb, ro, cur, False)"
  by (auto simp: finish_transition_def)

definition flight_ok :: "Flight \<Rightarrow> State \<Rightarrow> bool" where
  "flight_ok f s \<longleftrightarrow>
     entries f \<noteq> [] \<and> source f \<in> {FLIGHT_PENDING, FLIGHT_UNCERTAIN}
     \<and> length (entries f) \<le> retained_epochs s
     \<and> bt_sum entry_bytes (entries f) \<le> retained_bytes s
     \<and> bt_sum entry_operations (entries f) \<le> retained_operations s
     \<and> last_committed s \<le> Some (last_key (entries f))"

lemma flying_flight_ok:
  assumes "acct_inv cfg x" "order_inv x" "drv x = Flying f"
  shows "flight_ok f (st x)"
proof -
  have fl: "flying x = entries f" using assms(3) by (simp add: flying_def)
  have "last_committed (st x) \<le> Some (last_key (entries f))"
    using assms(2,3) unfolding order_inv_def by metis
  then show ?thesis
    using assms by (simp add: flight_ok_def acct_inv_def all_entries_def order_inv_def fl bt_sum_mset)
qed

lemma finish_durable:
  assumes "flight_ok f s"
  shows "finish_commit f Durable s = Ok (Inl (map fst (entries f)), entry_waiters (entries f),
    s\<lparr>retained_epochs := retained_epochs s - length (entries f),
      retained_bytes := retained_bytes s - bt_sum entry_bytes (entries f),
      retained_operations := retained_operations s - bt_sum entry_operations (entries f),
      last_committed := Some (last_key (entries f)), in_flight := False, retry_required := False,
      write_outcome_unknown := False\<rparr>)"
  using assms
  by (simp add: flight_ok_def finish_commit_def last_map_fst finish_transition_durable assert_that_def)

lemma finish_failed:
  assumes "flight_ok f s" "source f = FLIGHT_PENDING"
  shows "finish_commit f (WriteFailed e) s = Ok (Inr e, entry_waiters (entries f),
    s\<lparr>in_flight := False, retry_required := True, write_outcome_unknown := False,
      pending := bt_append (pending s) (take_waiters (entries f))\<rparr>)"
  using assms
  by (simp add: flight_ok_def finish_commit_def last_map_fst finish_transition_failed assert_that_def)

lemma finish_unknown:
  assumes "flight_ok f s" "outcome_kind outcome = (OUTCOME_UNKNOWN, Some e)"
  shows "finish_commit f outcome s = Ok (Inr e, entry_waiters (entries f),
    s\<lparr>in_flight := False, retry_required := True, write_outcome_unknown := is_write_unknown outcome,
      uncertain := bt_append (uncertain s) (take_waiters (entries f))\<rparr>)"
  using assms
  by (simp add: flight_ok_def finish_commit_def last_map_fst finish_transition_unknown assert_that_def)

lemma flight_drop_cases:
  assumes "flight_ok f s" "flight_drop f s = Ok (rs, s')"
  shows "(\<exists>q. s' = s\<lparr>uncertain := bt_append (uncertain s) (take_waiters (entries f)), in_flight := False,
      retry_required := True, write_outcome_unknown := True, requests := q\<rparr>)
    \<and> (\<forall>x \<in> set rs. \<exists>c k e. x = EpochFail c k e \<or> x = FlushFail c e)"
proof -
  let ?s1 = "s\<lparr>uncertain := bt_append (uncertain s) (take_waiters (entries f)), in_flight := False,
      retry_required := True, write_outcome_unknown := True\<rparr>"
  obtain rs' where "answer_requests (Inr []) (flight_requests f) ?s1 = (rs', s')"
    and rs: "rs = map (waiter_reply (Inr [])) (entry_waiters (entries f)) @ rs'"
    using assms
    by (auto simp: flight_ok_def flight_drop_def last_map_fst finish_transition_unknown
        assert_that_def Let_def split: prod.splits)
  then show ?thesis
    using answer_requests_state by (fastforce simp: waiter_reply_def request_reply_def)
qed

lemma flight_drop_no_panic: "flight_ok f s \<Longrightarrow> \<exists>rs s'. flight_drop f s = Ok (rs, s')"
  by (simp add: flight_ok_def flight_drop_def finish_transition_unknown assert_that_def Let_def
      case_prod_unfold)

lemma write_loop_store:
  "write_loop n io g d = (r, d') \<Longrightarrow>
     \<exists>k. db_log d' = db_log d @ replicate k g \<and> db_durable d' = db_durable d
       \<and> (r = Inr () \<longrightarrow> 0 < n \<longrightarrow> 0 < k)
       \<and> (\<forall>out. r = Inl out \<longrightarrow> (\<exists>e. out = WriteFailed e \<or> out = WriteUnknown e))"
proof (induction n arbitrary: d)
  case 0
  then show ?case by (auto intro: exI [of _ 0])
next
  case (Suc n)
  show ?case
  proof (cases "io (MAX_GROUP_COMMIT_RETRY_COUNT - Suc n)")
    case WOk
    then show ?thesis using Suc.prems by (auto simp: db_write_def intro: exI [of _ 1])
  next
    case (WTimeout hit)
    then show ?thesis
      using Suc.prems by (auto simp: db_write_def intro: exI [of _ "if hit then 1 else 0"])
  next
    case (WErr error hit)
    define d1 where "d1 = (if hit then db_write g d else d)"
    have d1: "db_log d1 = db_log d @ replicate (if hit then 1 else 0) g" "db_durable d1 = db_durable d"
      by (simp_all add: d1_def db_write_def)
    show ?thesis
    proof (cases "n = 0")
      case True
      then show ?thesis using Suc.prems WErr d1 by (auto simp: d1_def [symmetric])
    next
      case False
      then have "write_loop n io g d1 = (r, d')"
        using Suc.prems WErr by (simp add: d1_def)
      then obtain k where "db_log d' = db_log d1 @ replicate k g" "db_durable d' = db_durable d1"
        "r = Inr () \<longrightarrow> 0 < k" "\<forall>out. r = Inl out \<longrightarrow> (\<exists>e. out = WriteFailed e \<or> out = WriteUnknown e)"
        using Suc.IH False by blast
      then show ?thesis
        using d1 by (intro exI [of _ "(if hit then 1 else 0) + k"]) (auto simp: replicate_add)
    qed
  qed
qed

lemma flush_loop_store:
  "flush_loop n io d = (r, d') \<Longrightarrow>
     db_log d' = db_log d \<and> (db_durable d' = db_durable d \<or> db_durable d' = length (db_log d))
     \<and> (r = Durable \<longrightarrow> db_durable d' = length (db_log d))
     \<and> (r = Durable \<or> (\<exists>e. r = FlushUnknown e) \<or> (n = 0 \<and> r = WriteUnknown []))"
proof (induction n arbitrary: d)
  case (Suc n)
  have retry: ?case
    if "n = 0 \<and> r = FlushUnknown e \<and> d' = d1 \<or> n \<noteq> 0 \<and> flush_loop n io d1 = (r, d')"
      and d1: "d1 = (if hit then db_flush d else d)" for e d1 hit
  proof (cases "n = 0")
    case True
    then show ?thesis using that by (simp add: db_flush_def)
  next
    case False
    then have "flush_loop n io d1 = (r, d')" using that by simp
    from Suc.IH [OF this] show ?thesis using d1 False by (auto simp: db_flush_def split: if_splits)
  qed
  show ?case
  proof (cases "io (MAX_GROUP_COMMIT_RETRY_COUNT - Suc n)")
    case FOk
    then show ?thesis using Suc.prems by (auto simp: db_flush_def)
  next
    case (FErr error hit)
    then show ?thesis
      using Suc.prems by (intro retry [where hit = hit]) (auto simp: Let_def split: if_splits)
  next
    case (FTimeout hit)
    then show ?thesis
      using Suc.prems by (intro retry [where hit = hit]) (auto simp: Let_def split: if_splits)
  qed
qed auto

lemma persist_store:
  assumes "persist f wio fio d = (out, d')"
  shows "\<exists>k. db_log d' = db_log d @ replicate k (group_of (entries f))
    \<and> (source f = FLIGHT_UNCERTAIN \<longrightarrow> k = 0)
    \<and> (db_durable d' = db_durable d \<or> db_durable d' = length (db_log d'))
    \<and> (out = Durable \<longrightarrow> db_durable d' = length (db_log d'))
    \<and> (out = Durable \<or> (\<exists>e. out = FlushUnknown e) \<longrightarrow> source f \<noteq> FLIGHT_UNCERTAIN \<longrightarrow> 0 < k)
    \<and> (source f = FLIGHT_UNCERTAIN \<longrightarrow> out = Durable \<or> (\<exists>e. out = FlushUnknown e))"
proof (cases "source f = FLIGHT_UNCERTAIN")
  case True
  then show ?thesis
    using assms flush_loop_store [of MAX_GROUP_COMMIT_RETRY_COUNT fio d out d']
    by (auto simp: persist_def MAX_GROUP_COMMIT_RETRY_COUNT_def intro!: exI [of _ 0])
next
  case False
  obtain r d1 where w: "write_loop MAX_GROUP_COMMIT_RETRY_COUNT wio (group_of (entries f)) d = (r, d1)"
    by fastforce
  then obtain k where k: "db_log d1 = db_log d @ replicate k (group_of (entries f))"
    "db_durable d1 = db_durable d" "r = Inr () \<longrightarrow> 0 < k"
    "\<forall>out. r = Inl out \<longrightarrow> (\<exists>e. out = WriteFailed e \<or> out = WriteUnknown e)"
    using write_loop_store [OF w] by (auto simp: MAX_GROUP_COMMIT_RETRY_COUNT_def)
  show ?thesis
  proof (cases r)
    case (Inl out')
    then have "out' = out" "d1 = d'" using assms w False by (auto simp: persist_def)
    then show ?thesis using k Inl False by auto
  next
    case (Inr u)
    then have "flush_loop MAX_GROUP_COMMIT_RETRY_COUNT fio d1 = (out, d')"
      using assms w False by (auto simp: persist_def)
    from flush_loop_store [OF this] show ?thesis
      using k Inr False by (intro exI [of _ k]) auto
  qed
qed

section \<open>Every step keeps the invariants\<close>

lemma key_le_last_key: "bt_ok m \<Longrightarrow> k \<in> fst ` set m \<Longrightarrow> k \<le> last_key m"
  using last_key_ge by fastforce

lemma pc_inv_requests:
  "pc_inv cfg x \<Longrightarrow>
     pc_inv cfg (x\<lparr>st := (st x)\<lparr>requests := r, next_request := n, closing := c\<rparr>\<rparr>)"
  by (simp add: pc_inv_def acct_inv_def order_inv_def log_inv_def reply_inv_def ack_ok_def
      all_entries_def flying_def)

lemma ack_ok_update [simp]:
  "ack_ok (x\<lparr>replies := r\<rparr>) = ack_ok x" "ack_ok (x\<lparr>drv := d\<rparr>) = ack_ok x"
  by (simp_all add: ack_ok_def fun_eq_iff)

lemma pc_inv_replies:
  assumes "pc_inv cfg x"
    and "\<And>c k b. EpochAck c k b \<in> set rs \<Longrightarrow> ack_ok x k b"
    and "\<And>c ks k. FlushAck c ks \<in> set rs \<Longrightarrow> k \<in> set ks \<Longrightarrow> Some k \<le> last_committed (st x)"
  shows "pc_inv cfg (x\<lparr>replies := replies x @ rs\<rparr>)"
proof -
  have "acct_inv cfg (x\<lparr>replies := replies x @ rs\<rparr>)" "order_inv (x\<lparr>replies := replies x @ rs\<rparr>)"
    "log_inv (x\<lparr>replies := replies x @ rs\<rparr>)"
    using assms(1)
    by (simp_all add: pc_inv_def acct_inv_def order_inv_def log_inv_def all_entries_def flying_def)
  moreover have "reply_inv (x\<lparr>replies := replies x @ rs\<rparr>)"
    using assms(1) by (auto simp: pc_inv_def reply_inv_def dest: assms(2,3))
  ultimately show ?thesis by (simp add: pc_inv_def)
qed

lemma stage_inv:
  assumes inv: "pc_inv cfg x" and "stage cfg k b w now (st x) = (r, s')"
  shows "pc_inv cfg (x\<lparr>st := s'\<rparr>)"
proof (cases "s' = st x")
  case True
  then show ?thesis using inv by simp
next
  case False
  define e where "e = \<lparr>batch = b, entry_bytes = byte_size b, entry_operations = length b,
    staged_at = now, waiter = w\<rparr>"
  obtain ff where new: "sealed_epoch (st x) < Some k" "bt_get (pending (st x)) k = None"
    and bounds: "retained_bytes (st x) + byte_size b \<le> max_bytes cfg"
      "retained_epochs (st x) < max_epochs cfg"
      "retained_operations (st x) + length b \<le> MAX_GROUP_COMMIT_OPERATIONS"
    and s': "s' = (st x)\<lparr>pending := bt_insert k e (pending (st x)),
      retained_bytes := retained_bytes (st x) + byte_size b,
      retained_epochs := retained_epochs (st x) + 1,
      retained_operations := retained_operations (st x) + length b,
      force_flush := ff\<rparr>"
    using stage_cases [OF assms(2)] False unfolding e_def by blast
  let ?y = "x\<lparr>st := s'\<rparr>"
  have ms: "mset (bt_insert k e (pending (st x))) = add_mset (k, e) (mset (pending (st x)))"
    using new(2) by (rule bt_mset_insert)
  then have set_new: "set (bt_insert k e (pending (st x))) = insert (k, e) (set (pending (st x)))"
    by (metis set_mset_add_mset_insert set_mset_mset)
  have e: "entry_ok e" "entry_bytes e = byte_size b" "entry_operations e = length b"
    by (simp_all add: e_def entry_ok_def)
  have all: "all_entries ?y = add_mset (k, e) (all_entries x)"
    by (simp add: s' ms all_entries_def flying_def)
  have acct: "acct_inv cfg ?y"
    using inv bounds e unfolding pc_inv_def acct_inv_def all by (simp add: s' flying_def)
  have bt: "bt_ok (bt_insert k e (pending (st x)))"
    using inv by (simp add: pc_inv_def acct_inv_def)
  have "Some k \<le> Some (last_key (bt_insert k e (pending (st x))))"
    using last_key_ge [OF bt, of "(k, e)"] set_new by simp
  then have le: "sealed_epoch (st x) \<le> Some (last_key (bt_insert k e (pending (st x))))"
    using new(1) by (meson less_imp_le order_trans)
  have "last_committed (st x) < Some k"
    using inv new(1) unfolding pc_inv_def order_inv_def by (meson le_less_trans)
  then have "order_inv ?y"
    using inv new(1) le unfolding pc_inv_def order_inv_def all
    by (simp add: flying_def set_new s')
  moreover have "reply_inv ?y" "log_inv ?y"
    using inv by (simp_all add: pc_inv_def reply_inv_def ack_ok_def log_inv_def s')
  ultimately show ?thesis using acct by (simp add: pc_inv_def)
qed

lemma begin_inv:
  assumes inv: "pc_inv cfg x" and "drv x = Idle"
    and "drive_begin cfg now (st x) = Ok (Some f, delay, rs, s')"
  shows "pc_inv cfg (x\<lparr>st := s', drv := Flying f, replies := replies x @ rs\<rparr>)"
proof -
  let ?y = "x\<lparr>st := s', drv := Flying f, replies := replies x @ rs\<rparr>"
  have fx: "flying x = []" using assms(2) by (simp add: flying_def)
  have fy: "flying ?y = entries f" by (simp add: flying_def)
  have w: "\<not> write_outcome_unknown (st x)" "rs = []"
    using begin_cases [OF assms(3)] by blast+
  consider (u) "uncertain (st x) \<noteq> []" "source f = FLIGHT_UNCERTAIN" "entries f = uncertain (st x)"
      "s' = (st x)\<lparr>uncertain := [], sealed_epoch := Some (last_key (uncertain (st x))),
         in_flight := True, force_flush := False\<rparr>"
    | (p) "uncertain (st x) = []" "pending (st x) \<noteq> []" "source f = FLIGHT_PENDING"
      "entries f = pending (st x)"
      "s' = (st x)\<lparr>pending := [], sealed_epoch := Some (last_key (pending (st x))),
         in_flight := True, force_flush := False\<rparr>"
    using begin_cases [OF assms(3)] by blast
  then show ?thesis
  proof cases
    case u
    have seal: "sealed_epoch (st x) = Some (last_key (uncertain (st x)))"
      using inv u(1) by (simp add: pc_inv_def order_inv_def)
    have all: "all_entries ?y = all_entries x" unfolding all_entries_def fx fy by (simp add: u)
    have "acct_inv cfg ?y" "order_inv ?y" "log_inv ?y" "reply_inv ?y"
      using inv w fx seal u(1)
      unfolding pc_inv_def acct_inv_def order_inv_def log_inv_def reply_inv_def ack_ok_def all fy
      by (simp_all add: u)
    then show ?thesis by (simp add: pc_inv_def)
  next
    case p
    have seal: "sealed_epoch (st x) \<le> Some (last_key (pending (st x)))"
      using inv p(2) by (simp add: pc_inv_def order_inv_def)
    have all: "all_entries ?y = all_entries x" unfolding all_entries_def fx fy by (simp add: p)
    have "last_committed (st x) \<le> Some (last_key (pending (st x)))"
      using inv seal unfolding pc_inv_def order_inv_def by (meson order_trans)
    moreover have "Some (last_key g) \<le> Some (last_key (pending (st x)))"
      if "g \<in> set (db_log (store x))" for g
      using inv seal that unfolding pc_inv_def log_inv_def by (meson order_trans)
    ultimately have "acct_inv cfg ?y" "order_inv ?y" "log_inv ?y" "reply_inv ?y"
      using inv w fx p(1,2)
      unfolding pc_inv_def acct_inv_def order_inv_def log_inv_def reply_inv_def ack_ok_def all fy
      by (simp_all add: p)
    then show ?thesis by (simp add: pc_inv_def)
  qed
qed

lemma last_key_group [simp]: "es \<noteq> [] \<Longrightarrow> last_key (group_of es) = last_key es"
  by (simp add: last_key_def group_of_def last_map)

lemma group_of_empty [simp]: "group_of es = [] \<longleftrightarrow> es = []" "[] = group_of es \<longleftrightarrow> es = []"
  by (auto simp: group_of_def)

lemma group_ok: "bt_ok es \<Longrightarrow> bt_ok (group_of es)"
  by (simp add: bt_ok_def group_of_def comp_def)

lemma in_group: "e \<in> set es \<Longrightarrow> (fst e, batch (snd e)) \<in> set (group_of es)"
  by (auto simp: group_of_def)

lemma logged_mono: "logged l k b \<Longrightarrow> set l \<subseteq> set l' \<Longrightarrow> logged l' k b"
  by (auto simp: logged_def)

lemma durably_logged_mono:
  assumes "durably_logged d k b" "db_log d' = db_log d @ z" "db_durable d \<le> db_durable d'"
  shows "durably_logged d' k b"
proof -
  have "set (take (db_durable d) (db_log d)) \<subseteq> set (take (db_durable d') (db_log d'))"
    using set_take_subset_set_take [OF assms(3), of "db_log d"] assms(2) by auto
  then show ?thesis using assms(1) unfolding durably_logged_def by (rule logged_mono [rotated])
qed

lemma last_key_mono:
  assumes "log_ok l" "i \<le> j" "j < length l"
  shows "last_key (l ! i) \<le> last_key (l ! j)"
  using assms sorted_nth_mono [of "map last_key l" i j] by (simp add: log_ok_def)

lemma logged_last:
  assumes "log_ok l" "logged l k b"
  shows "l \<noteq> [] \<and> k \<le> last_key (l ! (length l - 1))"
proof -
  obtain g where "g \<in> set l" "(k, b) \<in> set g" "bt_ok g"
    using assms by (auto simp: logged_def log_ok_def)
  then obtain i where i: "i < length l" "(k, b) \<in> set (l ! i)" "bt_ok (l ! i)"
    by (metis in_set_conv_nth)
  have "k \<le> last_key (l ! i)" using last_key_ge [OF i(3,2)] by simp
  also have "\<dots> \<le> last_key (l ! (length l - 1))" using i by (intro last_key_mono [OF assms(1)]) auto
  finally show ?thesis using i by auto
qed

text \<open>What the I/O of a flight leaves of the storage invariant, however it ended.\<close>

definition storage_ok :: "State \<Rightarrow> Store \<Rightarrow> bool" where
  "storage_ok s d \<longleftrightarrow>
     log_ok (db_log d) \<and> db_durable d \<le> length (db_log d)
     \<and> (\<forall>g \<in> set (db_log d). Some (last_key g) \<le> sealed_epoch s)
     \<and> (\<forall>c. last_committed s = Some c \<longrightarrow>
          0 < db_durable d \<and> c \<le> last_key (db_log d ! (db_durable d - 1)))"

lemma abandoned_storage_ok:
  assumes inv: "pc_inv cfg x" and fl: "drv x = Flying f" and ab: "abandoned_store f (store x) d"
  shows "storage_ok (st x) d"
proof -
  have f: "entries f \<noteq> []" "sealed_epoch (st x) = Some (last_key (entries f))" "bt_ok (entries f)"
    using inv fl by (auto simp: pc_inv_def order_inv_def acct_inv_def flying_def)
  have old: "log_ok (db_log (store x))" "db_durable (store x) \<le> length (db_log (store x))"
    "\<forall>g \<in> set (db_log (store x)). last_key g \<le> last_key (entries f)"
    "\<forall>c. last_committed (st x) = Some c \<longrightarrow> 0 < db_durable (store x) \<and>
       c \<le> last_key (db_log (store x) ! (db_durable (store x) - 1))"
    using inv f(2) by (auto simp: pc_inv_def log_inv_def)
  obtain k where k: "db_log d = db_log (store x) @ replicate k (group_of (entries f))"
    "db_durable (store x) \<le> db_durable d" "db_durable d \<le> length (db_log d)"
    using ab by (auto simp: abandoned_store_def)
  have ok: "log_ok (db_log d)"
    using old(1,3) f(1,3) k(1) group_ok [OF f(3)]
    by (auto simp: log_ok_def sorted_append map_replicate_const sorted_replicate)
  have "0 < db_durable d \<and> c \<le> last_key (db_log d ! (db_durable d - 1))"
    if "last_committed (st x) = Some c" for c
  proof -
    let ?i = "db_durable (store x) - 1"
    have c: "0 < db_durable (store x)" "c \<le> last_key (db_log (store x) ! ?i)"
      using old(4) that by blast+
    have "?i < length (db_log (store x))" using c(1) old(2) by linarith
    then have "db_log (store x) ! ?i = db_log d ! ?i" using k(1) by (simp add: nth_append)
    also have "last_key \<dots> \<le> last_key (db_log d ! (db_durable d - 1))"
      using c(1) k(2,3) by (intro last_key_mono [OF ok]) auto
    finally show ?thesis using c k(2) by simp
  qed
  then show ?thesis using ok k old(3) f by (auto simp: storage_ok_def)
qed

lemma persist_abandoned:
  assumes "persist f wio fio d = (out, d')" "db_durable d \<le> length (db_log d)"
  shows "abandoned_store f d d'"
  using persist_store [OF assms(1)] assms(2) by (auto simp: abandoned_store_def)

lemma persist_logged:
  assumes "persist f wio fio d = (out, d')" "out = Durable \<or> (\<exists>e. out = FlushUnknown e)"
    and "source f = FLIGHT_UNCERTAIN \<Longrightarrow> \<forall>e \<in> set (entries f). logged (db_log d) (fst e) (batch (snd e))"
    and "e \<in> set (entries f)"
  shows "logged (db_log d') (fst e) (batch (snd e))"
proof (cases "source f = FLIGHT_UNCERTAIN")
  case True
  then show ?thesis using persist_store [OF assms(1)] assms(3,4) by (auto intro: logged_mono)
next
  case False
  then obtain k where "db_log d' = db_log d @ replicate k (group_of (entries f))" "0 < k"
    using persist_store [OF assms(1)] assms(2) by blast
  then show ?thesis using in_group [OF assms(4)] by (auto simp: logged_def)
qed

text \<open>The acknowledgements already given survive an extension of storage and of the frontier.\<close>

lemma reply_inv_extend:
  assumes "reply_inv x" "abandoned_store f (store x) d" "last_committed (st x) \<le> last_committed s'"
    and "\<And>ks ws ids. dr = Replying (Inl ks) ws ids \<Longrightarrow>
      (\<forall>(c, k, b) \<in> set ws. durably_logged d k b \<and> Some k \<le> last_committed s')
      \<and> (\<forall>k \<in> set ks. Some k \<le> last_committed s')"
  shows "reply_inv (x\<lparr>st := s', drv := dr, store := d\<rparr>)"
proof -
  have "durably_logged (store x) k b \<Longrightarrow> durably_logged d k b" for k b
    using assms(2) by (auto simp: abandoned_store_def intro: durably_logged_mono)
  moreover have "Some k \<le> last_committed (st x) \<Longrightarrow> Some k \<le> last_committed s'" for k
    using assms(3) by (rule order_trans [rotated])
  ultimately show ?thesis
    using assms(1,4) by (auto simp: reply_inv_def ack_ok_def)
qed

text \<open>What the invariant says of a flight in the air.\<close>

lemma flying_facts:
  assumes inv: "pc_inv cfg x" and fl: "drv x = Flying f"
  shows "flying x = entries f" "entries f \<noteq> []" "bt_ok (entries f)" "uncertain (st x) = []"
    "sealed_epoch (st x) = Some (last_key (entries f))"
    "\<And>e. e \<in> set (pending (st x)) \<Longrightarrow> sealed_epoch (st x) < Some (fst e)"
    "\<And>e. e \<in> set (entries f) \<Longrightarrow> Some (fst e) \<le> sealed_epoch (st x)"
    "bt_ok (pending (st x))"
    "all_entries x = mset (pending (st x)) + mset (entries f)"
    "source f = FLIGHT_UNCERTAIN \<Longrightarrow>
       \<forall>e \<in> set (entries f). logged (db_log (store x)) (fst e) (batch (snd e))"
proof -
  show fx: "flying x = entries f" using fl by (simp add: flying_def)
  show ne: "entries f \<noteq> []" and un: "uncertain (st x) = []"
    and seal: "sealed_epoch (st x) = Some (last_key (entries f))"
    using inv fl unfolding pc_inv_def order_inv_def by blast+
  show ok: "bt_ok (entries f)" and "bt_ok (pending (st x))"
    using inv fx by (auto simp: pc_inv_def acct_inv_def)
  show "sealed_epoch (st x) < Some (fst e)" if "e \<in> set (pending (st x))" for e
    using inv that ne fx unfolding pc_inv_def order_inv_def by metis
  show "Some (fst e) \<le> sealed_epoch (st x)" if "e \<in> set (entries f)" for e
    using last_key_ge [OF ok that] seal by simp
  show "all_entries x = mset (pending (st x)) + mset (entries f)"
    by (simp add: all_entries_def un fx)
  show "source f = FLIGHT_UNCERTAIN \<Longrightarrow>
       \<forall>e \<in> set (entries f). logged (db_log (store x)) (fst e) (batch (snd e))"
    using inv fl unfolding pc_inv_def log_inv_def by blast
qed

lemma finish_durable_inv:
  assumes inv: "pc_inv cfg x" and fl: "drv x = Flying f"
    and per: "persist f wio fio (store x) = (Durable, d)"
    and fin: "finish_commit f Durable (st x) = Ok (res, waiters, s')"
  shows "pc_inv cfg (x\<lparr>st := s', drv := Replying res waiters (flight_requests f), store := d\<rparr>)"
proof -
  let ?y = "x\<lparr>st := s', drv := Replying res waiters (flight_requests f), store := d\<rparr>"
  note ff = flying_facts [OF inv fl]
  have fok: "flight_ok f (st x)" using inv fl by (auto simp: pc_inv_def intro: flying_flight_ok)
  note fin' = finish_durable [OF fok]
  have s': "s' = (st x)\<lparr>retained_epochs := retained_epochs (st x) - length (entries f),
      retained_bytes := retained_bytes (st x) - bt_sum entry_bytes (entries f),
      retained_operations := retained_operations (st x) - bt_sum entry_operations (entries f),
      last_committed := Some (last_key (entries f)), in_flight := False, retry_required := False,
      write_outcome_unknown := False\<rparr>" and res: "res = Inl (map fst (entries f))"
    and waiters: "waiters = entry_waiters (entries f)"
    using fin fin' by simp_all
  have ab: "abandoned_store f (store x) d"
    using inv per by (auto simp: pc_inv_def log_inv_def intro: persist_abandoned)
  have sto: "storage_ok (st x) d" by (rule abandoned_storage_ok [OF inv fl ab])
  have dur: "db_durable d = length (db_log d)" using persist_store [OF per] by blast
  have lg: "logged (db_log d) (fst e) (batch (snd e))" if "e \<in> set (entries f)" for e
    using persist_logged [OF per _ ff(10) that] by simp
  have pk: "pending (st x) \<noteq> [] \<Longrightarrow> sealed_epoch (st x) \<le> Some (last_key (pending (st x)))"
    using inv by (simp add: pc_inv_def order_inv_def)
  have all: "all_entries ?y = mset (pending (st x))"
    by (simp add: all_entries_def flying_def s' ff(4))
  have "acct_inv cfg ?y"
    using inv ff(4,8,9) unfolding pc_inv_def acct_inv_def all
    by (simp add: s' flying_def bt_sum_mset)
  moreover have "order_inv ?y"
    using ff pk unfolding order_inv_def all by (simp add: s' flying_def)
  moreover have "log_inv ?y"
  proof -
    obtain e where "e \<in> set (entries f)" "last_key (entries f) = fst e"
      using last_key_in [OF ff(2)] by auto
    then have "logged (db_log d) (last_key (entries f)) (batch (snd e))" using lg by simp
    with sto have "db_log d \<noteq> [] \<and> last_key (entries f) \<le> last_key (db_log d ! (length (db_log d) - 1))"
      by (intro logged_last) (auto simp: storage_ok_def)
    then show ?thesis using sto ff(4) dur by (simp add: storage_ok_def log_inv_def s')
  qed
  moreover have "reply_inv ?y"
  proof (rule reply_inv_extend [OF _ ab])
    show "reply_inv x" using inv by (simp add: pc_inv_def)
    show "last_committed (st x) \<le> last_committed s'" using fok by (simp add: flight_ok_def s')
  next
    fix ks ws ids
    assume "Replying res waiters (flight_requests f) = Replying (Inl ks) ws ids"
    then have "ks = map fst (entries f)" "ws = entry_waiters (entries f)" using res waiters by simp_all
    then show "(\<forall>(c, k, b) \<in> set ws. durably_logged d k b \<and> Some k \<le> last_committed s')
      \<and> (\<forall>k \<in> set ks. Some k \<le> last_committed s')"
      using lg ff(5,7) dur
      by (auto simp: entry_waiters_def s' durably_logged_def split: option.splits)
  qed
  ultimately show ?thesis by (simp add: pc_inv_def)
qed

text \<open>A flight whose entries return to the retained work, their waiters taken.\<close>

lemma retained_mset:
  assumes inv: "pc_inv cfg x" and fl: "drv x = Flying f"
  shows "mset (bt_append (pending (st x)) (take_waiters (entries f)))
    = mset (pending (st x)) + mset (take_waiters (entries f))"
proof (rule bt_mset_append)
  note ff = flying_facts [OF inv fl]
  show "distinct (map fst (take_waiters (entries f)))" using ff(3) by (simp add: bt_ok_distinct)
  show "fst ` set (pending (st x)) \<inter> fst ` set (take_waiters (entries f)) = {}"
    using ff(6,7) by (auto simp: disjoint_iff) (meson leD)
qed

lemma retained_acct:
  assumes inv: "pc_inv cfg x" and fl: "drv x = Flying f"
  defines "all \<equiv> mset (pending (st x)) + mset (take_waiters (entries f))"
  shows "retained_epochs (st x) = size all
     \<and> retained_bytes (st x) = (\<Sum>e\<in>#all. entry_bytes (snd e))
     \<and> retained_operations (st x) = (\<Sum>e\<in>#all. entry_operations (snd e))
     \<and> retained_bytes (st x) \<le> max_bytes cfg
     \<and> retained_epochs (st x) \<le> max_epochs cfg
     \<and> retained_operations (st x) \<le> MAX_GROUP_COMMIT_OPERATIONS
     \<and> (\<forall>e \<in># all. entry_ok (snd e))"
proof -
  note ff = flying_facts [OF inv fl]
  have "\<forall>e \<in> set (take_waiters (entries f)). entry_ok (snd e)"
    using inv ff(9) take_waiters_in [of _ "entries f"]
    by (fastforce simp: pc_inv_def acct_inv_def)
  then show ?thesis
    using inv unfolding pc_inv_def acct_inv_def ff(9) all_def
    by (simp add: take_waiters_sums ball_Un)
qed

lemma retained_order:
  assumes inv: "pc_inv cfg x" and fl: "drv x = Flying f"
  shows "last_committed (st x) \<le> sealed_epoch (st x)
    \<and> (\<forall>e \<in># mset (pending (st x)) + mset (take_waiters (entries f)). last_committed (st x) < Some (fst e))"
proof -
  have "\<forall>e \<in> set (take_waiters (entries f)). last_committed (st x) < Some (fst e)"
    using inv flying_facts(9) [OF inv fl] take_waiters_in [of _ "entries f"]
    by (fastforce simp: pc_inv_def order_inv_def)
  then show ?thesis
    using inv flying_facts(9) [OF inv fl] by (auto simp: pc_inv_def order_inv_def)
qed

lemma finish_failed_inv:
  assumes inv: "pc_inv cfg x" and fl: "drv x = Flying f"
    and per: "persist f wio fio (store x) = (WriteFailed e, d)"
    and fin: "finish_commit f (WriteFailed e) (st x) = Ok (res, waiters, s')"
  shows "pc_inv cfg (x\<lparr>st := s', drv := Replying res waiters (flight_requests f), store := d\<rparr>)"
proof -
  let ?y = "x\<lparr>st := s', drv := Replying res waiters (flight_requests f), store := d\<rparr>"
  let ?p = "bt_append (pending (st x)) (take_waiters (entries f))"
  note ff = flying_facts [OF inv fl]
  have fok: "flight_ok f (st x)" using inv fl by (auto simp: pc_inv_def intro: flying_flight_ok)
  have src: "source f = FLIGHT_PENDING"
    using persist_store [OF per] fok by (auto simp: flight_ok_def)
  have s': "s' = (st x)\<lparr>in_flight := False, retry_required := True, write_outcome_unknown := False,
      pending := ?p\<rparr>" and res: "res = Inr e"
    using fin finish_failed [OF fok src] by simp_all
  have ab: "abandoned_store f (store x) d"
    using inv per by (auto simp: pc_inv_def log_inv_def intro: persist_abandoned)
  have ms: "mset ?p = mset (pending (st x)) + mset (take_waiters (entries f))"
    by (rule retained_mset [OF inv fl])
  have bt: "bt_ok ?p" using ff(8) by simp
  have "last_key (entries f) \<in> fst ` set ?p" using last_key_in [OF ff(2)] by simp
  then have seal: "last_key (entries f) \<le> last_key ?p" by (rule key_le_last_key [OF bt])
  have all: "all_entries ?y = mset (pending (st x)) + mset (take_waiters (entries f))"
    by (simp add: all_entries_def flying_def s' ff(4) ms)
  have "acct_inv cfg ?y"
    using retained_acct [OF inv fl] ff(4) bt unfolding acct_inv_def all by (simp add: s' flying_def)
  moreover have "order_inv ?y"
    using retained_order [OF inv fl] seal ff(4,5) unfolding order_inv_def all
    by (simp add: s' flying_def)
  moreover have "log_inv ?y"
    using abandoned_storage_ok [OF inv fl ab] ff(4) by (simp add: storage_ok_def log_inv_def s')
  moreover have "reply_inv ?y"
    using inv by (intro reply_inv_extend [OF _ ab]) (auto simp: pc_inv_def s' res)
  ultimately show ?thesis by (simp add: pc_inv_def)
qed

text \<open>An outcome that stays unknown, reported or by abandonment.\<close>

lemma unknown_inv:
  assumes inv: "pc_inv cfg x" and fl: "drv x = Flying f" and ab: "abandoned_store f (store x) d"
    and s': "s' = (st x)\<lparr>in_flight := False, retry_required := True, write_outcome_unknown := wu,
      uncertain := bt_append (uncertain (st x)) (take_waiters (entries f))\<rparr>"
    and wu: "\<And>e. \<not> wu \<Longrightarrow> e \<in> set (entries f) \<Longrightarrow> logged (db_log d) (fst e) (batch (snd e))"
    and dr: "dr = Idle \<or> (\<exists>e ws ids. dr = Replying (Inr e) ws ids)"
  shows "pc_inv cfg (x\<lparr>st := s', drv := dr, store := d\<rparr>)"
proof -
  let ?y = "x\<lparr>st := s', drv := dr, store := d\<rparr>"
  let ?es = "take_waiters (entries f)"
  note ff = flying_facts [OF inv fl]
  have un: "uncertain s' = ?es" using ff(3,4) by (simp add: s' bt_append_Nil_left)
  have rest: "pending s' = pending (st x)" "retained_epochs s' = retained_epochs (st x)"
    "retained_bytes s' = retained_bytes (st x)" "retained_operations s' = retained_operations (st x)"
    "last_committed s' = last_committed (st x)" "sealed_epoch s' = sealed_epoch (st x)"
    "in_flight s' = False" "write_outcome_unknown s' = wu"
    by (simp_all add: s')
  have fy: "flying ?y = []" using dr by (auto simp: flying_def)
  have all: "all_entries ?y = mset (pending (st x)) + mset ?es"
    unfolding all_entries_def fy by (simp add: un rest)
  have "acct_inv cfg ?y"
    using retained_acct [OF inv fl] ff(3,8) unfolding acct_inv_def all fy by (simp add: un rest)
  moreover have "order_inv ?y"
  proof -
    have "pending (st x) \<noteq> [] \<Longrightarrow> sealed_epoch (st x) \<le> Some (last_key (pending (st x)))"
      using inv by (simp add: pc_inv_def order_inv_def)
    then show ?thesis
      using retained_order [OF inv fl] ff(2,5,6) dr unfolding order_inv_def all fy
      by (auto simp: un rest)
  qed
  moreover have "log_inv ?y"
  proof -
    have "logged (db_log d) (fst e) (batch (snd e))" if "\<not> wu" "e \<in> set ?es" for e
      using wu [OF that(1)] take_waiters_in [OF that(2)] by metis
    then show ?thesis
      using abandoned_storage_ok [OF inv fl ab] dr by (auto simp: storage_ok_def log_inv_def un rest)
  qed
  moreover have "reply_inv ?y"
    using inv dr by (intro reply_inv_extend [OF _ ab]) (auto simp: pc_inv_def rest)
  ultimately show ?thesis by (simp add: pc_inv_def)
qed

lemma finish_inv:
  assumes inv: "pc_inv cfg x" and fl: "drv x = Flying f"
    and per: "persist f wio fio (store x) = (out, d)"
    and fin: "finish_commit f out (st x) = Ok (res, waiters, s')"
  shows "pc_inv cfg (x\<lparr>st := s', drv := Replying res waiters (flight_requests f), store := d\<rparr>)"
proof -
  have fok: "flight_ok f (st x)" using inv fl by (auto simp: pc_inv_def intro: flying_flight_ok)
  have ab: "abandoned_store f (store x) d"
    using inv per by (auto simp: pc_inv_def log_inv_def intro: persist_abandoned)
  have unknown: ?thesis if k: "outcome_kind out = (OUTCOME_UNKNOWN, Some e)" for e
  proof (rule unknown_inv [OF inv fl ab])
    have f: "finish_commit f out (st x) = Ok (Inr e, entry_waiters (entries f),
      (st x)\<lparr>in_flight := False, retry_required := True,
        write_outcome_unknown := is_write_unknown out,
        uncertain := bt_append (uncertain (st x)) (take_waiters (entries f))\<rparr>)"
      by (rule finish_unknown [OF fok k])
    show "s' = (st x)\<lparr>in_flight := False, retry_required := True,
        write_outcome_unknown := is_write_unknown out,
        uncertain := bt_append (uncertain (st x)) (take_waiters (entries f))\<rparr>"
      and "Replying res waiters (flight_requests f) = Idle \<or> (\<exists>e ws ids.
        Replying res waiters (flight_requests f) = Replying (Inr e) ws ids)"
      using f fin by simp_all
    show "logged (db_log d) (fst e) (batch (snd e))"
      if "\<not> is_write_unknown out" "e \<in> set (entries f)" for e
      using persist_logged [OF per _ flying_facts(10) [OF inv fl] that(2)] that(1) k
      by (cases out) auto
  qed
  show ?thesis
  proof (cases out)
    case Durable
    then show ?thesis using finish_durable_inv [OF inv fl] per fin by simp
  next
    case (WriteFailed e)
    then show ?thesis using finish_failed_inv [OF inv fl] per fin by simp
  qed (use unknown in simp_all)
qed

lemma abort_inv:
  assumes inv: "pc_inv cfg x" and fl: "drv x = Flying f" and ab: "abandoned_store f (store x) d"
    and drop: "flight_drop f (st x) = Ok (rs, s')"
  shows "pc_inv cfg (x\<lparr>st := s', drv := Idle, store := d, replies := replies x @ rs\<rparr>)"
proof -
  have fok: "flight_ok f (st x)" using inv fl by (auto simp: pc_inv_def intro: flying_flight_ok)
  let ?s = "(st x)\<lparr>in_flight := False, retry_required := True, write_outcome_unknown := True,
      uncertain := bt_append (uncertain (st x)) (take_waiters (entries f))\<rparr>"
  let ?z = "x\<lparr>st := ?s, drv := Idle, store := d\<rparr>"
  obtain q where "s' = (st x)\<lparr>uncertain := bt_append (uncertain (st x)) (take_waiters (entries f)),
      in_flight := False, retry_required := True, write_outcome_unknown := True, requests := q\<rparr>"
    and rs: "\<And>x. x \<in> set rs \<Longrightarrow> \<exists>c k e. x = EpochFail c k e \<or> x = FlushFail c e"
    using flight_drop_cases [OF fok drop] by blast
  then have s': "s' = ?s\<lparr>requests := q, next_request := next_request ?s, closing := closing ?s\<rparr>"
    by simp
  have z: "pc_inv cfg ?z" by (rule unknown_inv [OF inv fl ab, where wu = True]) simp_all
  have "?z\<lparr>st := s'\<rparr> = ?z\<lparr>st := (st ?z)\<lparr>requests := q, next_request := next_request (st ?z),
      closing := closing (st ?z)\<rparr>\<rparr>"
    by (simp add: s')
  with pc_inv_requests [OF z] have "pc_inv cfg (?z\<lparr>st := s'\<rparr>)" by metis
  then have "pc_inv cfg ((?z\<lparr>st := s'\<rparr>)\<lparr>replies := replies (?z\<lparr>st := s'\<rparr>) @ rs\<rparr>)"
    by (rule pc_inv_replies) (use rs in auto)
  moreover have "(?z\<lparr>st := s'\<rparr>)\<lparr>replies := replies (?z\<lparr>st := s'\<rparr>) @ rs\<rparr>
      = x\<lparr>st := s', drv := Idle, store := d, replies := replies x @ rs\<rparr>" by simp
  ultimately show ?thesis by metis
qed

lemma reply_kinds [simp]:
  "EpochAck c k b = waiter_reply res w \<longleftrightarrow> w = (c, k, b) \<and> (\<exists>ks. res = Inl ks)"
  "FlushAck c ks \<noteq> waiter_reply res w" "EpochAck c k b \<noteq> request_reply res c'"
  "FlushAck c ks = request_reply res c' \<longleftrightarrow> c' = c \<and> res = Inl ks"
  by (cases res; cases w; auto simp: waiter_reply_def request_reply_def)+

lemma reply_step_inv:
  assumes inv: "pc_inv cfg x" and dr: "drv x = Replying res waiters ids"
    and rep: "finish_reply res waiters ids (st x) = (rs, s')"
  shows "pc_inv cfg (x\<lparr>st := s', drv := Idle, replies := replies x @ rs\<rparr>)"
proof -
  let ?z = "x\<lparr>drv := Idle\<rparr>"
  obtain rs' where ans: "answer_requests res ids (st x) = (rs', s')"
    and rs: "rs = map (waiter_reply res) waiters @ rs'"
    using rep by (auto simp: finish_reply_def split: prod.splits)
  then obtain q where s': "s' = (st x)\<lparr>requests := q\<rparr>"
    and rs': "\<And>r. r \<in> set rs' \<Longrightarrow> \<exists>c. r = request_reply res c"
    using answer_requests_state [OF ans] by blast
  have fz: "flying ?z = flying x" "all_entries ?z = all_entries x"
    by (simp_all add: flying_def all_entries_def dr)
  have "acct_inv cfg ?z" "order_inv ?z" "log_inv ?z" "reply_inv ?z"
    using inv unfolding pc_inv_def acct_inv_def order_inv_def log_inv_def reply_inv_def fz
    by (simp_all add: dr)
  then have "pc_inv cfg ?z" by (simp add: pc_inv_def)
  then have "pc_inv cfg (?z\<lparr>replies := replies ?z @ rs\<rparr>)"
  proof (rule pc_inv_replies)
    have ws: "res = Inl ks \<Longrightarrow> (c, k, b) \<in> set waiters \<Longrightarrow> ack_ok x k b"
      and ks: "res = Inl ks \<Longrightarrow> k \<in> set ks \<Longrightarrow> Some k \<le> last_committed (st x)" for ks c k b
      using inv dr unfolding pc_inv_def reply_inv_def by fastforce+
    show "ack_ok ?z k b" if "EpochAck c k b \<in> set rs" for c k b
    proof -
      have "\<exists>ks. res = Inl ks" "(c, k, b) \<in> set waiters" using that by (auto simp: rs dest!: rs')
      then show ?thesis using ws by auto
    qed
    show "Some k \<le> last_committed (st ?z)" if "FlushAck c ks \<in> set rs" "k \<in> set ks" for c ks k
    proof -
      have "res = Inl ks" using that(1) by (auto simp: rs dest!: rs')
      then show ?thesis using ks that(2) by simp
    qed
  qed
  from pc_inv_requests [OF this, where r = q and n = "next_request (st x)" and c = "closing (st x)"]
  have "pc_inv cfg (?z\<lparr>replies := replies ?z @ rs, st := s'\<rparr>)" by (simp add: s')
  moreover have "?z\<lparr>replies := replies ?z @ rs, st := s'\<rparr>
      = x\<lparr>st := s', drv := Idle, replies := replies x @ rs\<rparr>" by simp
  ultimately show ?thesis by metis
qed

text \<open>The stored frontier of a log is the last epoch of its last group.\<close>

lemma read_key_append: "read_key k (a @ b) v = read_key k b (read_key k a v)"
  by (induction k a v rule: read_key.induct) simp_all

lemma stored_frontier_simps:
  "stored_frontier [] = None"
  "g \<noteq> [] \<Longrightarrow> stored_frontier (l @ [g]) = Some (to_be 8 (last_key g))"
  by (simp_all add: stored_frontier_def merged_batch_def batch_put_def Let_def read_key_append)

definition log_frontier :: "(u64 \<times> WriteBatch) list list \<Rightarrow> u64 option" where
  "log_frontier l = (if l = [] then None else Some (last_key (last l)))"

lemma open_log:
  assumes "log_ok l"
  shows "pc_open (ReadValue (stored_frontier l))
    = Ok (state_default\<lparr>last_committed := log_frontier l, sealed_epoch := log_frontier l\<rparr>)"
proof (cases l rule: rev_cases)
  case Nil
  then show ?thesis
    by (simp add: pc_open_def open_frontier_def stored_frontier_simps log_frontier_def)
next
  case (snoc l' g)
  then have "g \<noteq> []" using assms by (simp add: log_ok_def)
  then show ?thesis
    by (simp add: snoc pc_open_def open_frontier_def stored_frontier_simps log_frontier_def
        from_be_to_be)
qed

lemma log_frontier_ge: "log_ok l \<Longrightarrow> g \<in> set l \<Longrightarrow> Some (last_key g) \<le> log_frontier l"
proof -
  assume l: "log_ok l" "g \<in> set l"
  then obtain i where "i < length l" "g = l ! i" by (auto simp: in_set_conv_nth)
  then show ?thesis
    using last_key_mono [OF l(1), of i "length l - 1"] l(2)
    by (auto simp: log_frontier_def last_conv_nth)
qed

lemma init_inv: "pc_init x \<Longrightarrow> pc_inv cfg x"
proof -
  assume x: "pc_init x"
  then have ok: "log_ok (db_log (store x))" by (simp add: pc_init_def)
  then have s: "st x = state_default\<lparr>last_committed := log_frontier (db_log (store x)),
      sealed_epoch := log_frontier (db_log (store x))\<rparr>"
    using x open_log [OF ok] by (simp add: pc_init_def)
  have "acct_inv cfg x" "order_inv x" "reply_inv x"
    using x by (simp_all add: acct_inv_def order_inv_def reply_inv_def all_entries_def flying_def
        pc_init_def s state_default_def)
  moreover have "log_inv x"
    using x ok log_frontier_ge [OF ok]
    by (auto simp: log_inv_def pc_init_def s state_default_def log_frontier_def last_conv_nth
        split: if_splits)
  ultimately show ?thesis by (simp add: pc_inv_def)
qed

lemma idle_inv:
  assumes inv: "pc_inv cfg x" and b: "drive_begin cfg now (st x) = Ok (None, delay, rs, s')"
  shows "pc_inv cfg (x\<lparr>st := s', replies := replies x @ rs\<rparr>)"
proof -
  obtain q where s': "s' = (st x)\<lparr>requests := q\<rparr>"
    and rs: "\<And>r. r \<in> set rs \<Longrightarrow> \<exists>c. r = FlushFail c [] \<or> r = FlushAck c []"
    using begin_idle_cases [OF b] by blast
  have "pc_inv cfg (x\<lparr>replies := replies x @ rs\<rparr>)"
    by (rule pc_inv_replies [OF inv]) (use rs in fastforce)+
  from pc_inv_requests [OF this, where r = q and n = "next_request (st x)" and c = "closing (st x)"]
  have "pc_inv cfg (x\<lparr>replies := replies x @ rs, st := s'\<rparr>)" by (simp add: s')
  moreover have "x\<lparr>replies := replies x @ rs, st := s'\<rparr> = x\<lparr>st := s', replies := replies x @ rs\<rparr>" by simp
  ultimately show ?thesis by metis
qed

lemma step_inv: "pc_inv cfg x \<Longrightarrow> pc_step cfg x ev y \<Longrightarrow> pc_inv cfg y"
proof (erule pc_step.cases, goal_cases)
  case (1 k b w now x' r s')
  then show ?case by (auto intro: stage_inv)
next
  case (2 c x' r s')
  obtain q n where "s' = (st x)\<lparr>requests := q, next_request := n\<rparr>"
    using flush_request_state [OF 2(5)] 2(2) by blast
  then show ?case using pc_inv_requests [OF 2(1), where r = q and n = n and c = "closing (st x)"] 2 by simp
next
  case (3 x' i)
  then show ?case
    using pc_inv_requests [OF 3(1), where n = "next_request (st x)" and c = "closing (st x)"]
    by (simp add: flush_request_drop_def)
next
  case (4 x')
  then show ?case
    using pc_inv_requests [OF 4(1), where r = "requests (st x)" and n = "next_request (st x)" and c = True]
    by (simp add: shutdown_begin_def)
qed (auto intro: idle_inv begin_inv finish_inv reply_step_inv abort_inv)

section \<open>Reachable states\<close>

interpretation commit: transition_system pc_init "pc_step cfg" "pc_inv cfg" for cfg
  by unfold_locales (auto intro: init_inv step_inv)

text \<open>What no step takes back: the frontiers, the log, its durable prefix and the replies sent.\<close>

definition pc_progress :: "System \<Rightarrow> System \<Rightarrow> bool" where
  "pc_progress x y \<longleftrightarrow>
     last_committed (st x) \<le> last_committed (st y)
     \<and> (\<exists>z. db_log (store y) = db_log (store x) @ z)
     \<and> db_durable (store x) \<le> db_durable (store y)
     \<and> (\<exists>z. replies y = replies x @ z)"

lemma finish_frontier:
  "finish_commit f out s = Ok (res, ws, s') \<Longrightarrow> last_committed s \<le> last_committed s'"
  by (auto simp: finish_commit_def assert_that_def Let_def rbind_Ok split: if_splits prod.splits)

lemma finish_reply_state:
  "finish_reply res ws ids s = (rs, s') \<Longrightarrow> \<exists>q. s' = s\<lparr>requests := q\<rparr>"
  by (auto simp: finish_reply_def split: prod.splits dest!: answer_requests_state)

lemma abandoned_progress:
  "abandoned_store f d d' \<Longrightarrow> (\<exists>z. db_log d' = db_log d @ z) \<and> db_durable d \<le> db_durable d'"
  by (auto simp: abandoned_store_def)

lemma step_progress: 
  assumes "pc_inv cfg x" "pc_step cfg x ev y"
  shows "pc_progress x y"
  using assms(2)
proof cases
  case (step_stage k b w now r s')
  then show ?thesis
    using stage_cases [of cfg k b w now "st x" r s'] by (auto simp: pc_progress_def)
next
  case (step_flush c r s')
  then show ?thesis by (auto simp: pc_progress_def flush_request_def split: option.splits)
next
  case (step_idle now delay rs s')
  then show ?thesis using begin_idle_cases [OF step_idle(4)] 
    by (auto simp: pc_progress_def) (metis State.select_convs State.surjective State.update_convs order_refl)
next
  case (step_begin now f delay rs s')
  then show ?thesis using begin_cases [OF step_begin(4)] by (auto simp: pc_progress_def)
next
  case (step_finish f wio fio out d res ws s')
  have "abandoned_store f (store x) d"
    using assms(1) step_finish(4) by (auto simp: pc_inv_def log_inv_def intro: persist_abandoned)
  then show ?thesis
    using step_finish finish_frontier abandoned_progress by (auto simp: pc_progress_def)
next
  case (step_reply res ws ids rs s')
  then show ?thesis using finish_reply_state [OF step_reply(4)] by (auto simp: pc_progress_def)
next
  case (step_abort f d rs s')
  then show ?thesis
    using abandoned_progress flight_drop_cases [OF _ step_abort(5)] flying_flight_ok assms(1)
    by (fastforce simp: pc_progress_def pc_inv_def)
qed (auto simp: pc_progress_def flush_request_drop_def shutdown_begin_def)


interpretation commit_progress: monotone_system pc_init "pc_step cfg" "pc_inv cfg" pc_progress for cfg
proof unfold_locales
  show "pc_progress s s" for s by (simp add: pc_progress_def)
  show "pc_progress s u" if "pc_progress s t" "pc_progress t u" for s t u
    using that by (force simp: pc_progress_def)
  show "pc_progress s t" if "pc_inv cfg s" "pc_step cfg s e t" for s e t
    using that by (rule step_progress)
qed

text \<open>The registered flush requests stay in identifier order.\<close>

definition requests_ok :: "System \<Rightarrow> bool" where
  "requests_ok x \<longleftrightarrow> bt_ok (requests (st x))"

lemma answer_requests_ok:
  "answer_requests res ids s = (rs, s') \<Longrightarrow> bt_ok (requests s) \<Longrightarrow> bt_ok (requests s')"
  by (induction ids arbitrary: s rs) (auto split: option.splits prod.splits)

lemma drive_begin_requests:
  "drive_begin cfg now s = Ok (f, delay, rs, s') \<Longrightarrow> requests s' = requests s \<or> requests s' = []"
proof (cases f)
  case None
  then show "drive_begin cfg now s = Ok (f, delay, rs, s') \<Longrightarrow> ?thesis"
    by (auto simp: drive_begin_def Let_def begin_owner_def split: if_splits option.splits)
next
  case (Some f')
  then show "drive_begin cfg now s = Ok (f, delay, rs, s') \<Longrightarrow> ?thesis"
    using begin_cases by fastforce
qed

lemma step_requests_ok: "requests_ok x \<Longrightarrow> pc_step cfg x ev y \<Longrightarrow> requests_ok y"
proof (erule pc_step.cases, goal_cases)
  case (1 k b w now x' r s')
  then show ?case using stage_cases [of cfg k b w now "st x" r s'] by (auto simp: requests_ok_def)
next
  case (2 c x' r s')
  then show ?case by (auto simp: requests_ok_def flush_request_def split: option.splits)
next
  case (5 x' now delay rs s')
  then show ?case using drive_begin_requests [OF 5(6)] by (auto simp: requests_ok_def)
next
  case (6 x' now f delay rs s')
  then show ?case using drive_begin_requests [OF 6(6)] by (auto simp: requests_ok_def)
next
  case (7 x' f wio fio out d res ws s')
  then show ?case
    by (auto simp: requests_ok_def finish_commit_def assert_that_def Let_def rbind_Ok
        split: if_splits prod.splits)
next
  case (8 x' res ws ids rs s')
  then show ?case
    by (auto simp: requests_ok_def finish_reply_def split: prod.splits dest: answer_requests_ok)
next
  case (9 x' f d rs s')
  then show ?case
    by (auto simp: requests_ok_def flight_drop_def assert_that_def Let_def rbind_Ok
        split: if_splits prod.splits dest!: answer_requests_ok)
qed (auto simp: requests_ok_def flush_request_drop_def shutdown_begin_def)

lemma init_requests_ok: "pc_init x \<Longrightarrow> requests_ok x"
  by (auto simp: pc_init_def requests_ok_def pc_open_def rbind_Ok state_default_def
      dest!: sym [of _ "st x"])

interpretation commit_requests: transition_system pc_init "pc_step cfg" requests_ok for cfg
  by unfold_locales (auto intro: init_requests_ok step_requests_ok)

text \<open>With sorted requests, answering every identifier answers every request and leaves none.\<close>

lemma answer_all_requests:
  "bt_ok q \<Longrightarrow> answer_requests res (map fst q) (s\<lparr>requests := q\<rparr>)
     = (map (\<lambda>e. request_reply res (snd e)) q, s\<lparr>requests := []\<rparr>)"
proof (induction q)
  case (Cons e q)
  then have "bt_remove (fst e) q = q"
    by (intro bt_remove_absent) (auto simp: bt_ok_Cons map_of_eq_None_iff)
  then have "bt_remove (fst e) (e # q) = q" by (simp add: bt_remove_def)
  moreover have "bt_get (e # q) (fst e) = Some (snd e)" by (cases e) simp
  ultimately show ?case using Cons by (simp add: bt_ok_Cons)
qed simp


section \<open>A healthy round of the driver\<close>

lemma persist_healthy:
  "source f \<in> {FLIGHT_PENDING, FLIGHT_UNCERTAIN} \<Longrightarrow>
     \<exists>d'. persist f (\<lambda>_. WOk) (\<lambda>_. FOk) d = (Durable, d')"
  by (auto simp: persist_def MAX_GROUP_COMMIT_RETRY_COUNT_def eval_nat_numeral)

lemma begin_ready:
  assumes "\<not> write_outcome_unknown s" "requests s \<noteq> []" "pending s \<noteq> [] \<or> uncertain s \<noteq> []"
  shows "\<exists>f s'. drive_begin cfg now s = Ok (Some f, None, [], s') \<and> requests s' = requests s
     \<and> flight_requests f = map fst (requests s)
     \<and> entries f = (if uncertain s \<noteq> [] then uncertain s else pending s)"
  using assms by (auto simp: drive_begin_def Let_def begin_owner_def)

lemma round_run:
  assumes inv: "pc_inv cfg x" and ro: "requests_ok x" and idle: "drv x = Idle"
    and ready: "\<not> write_outcome_unknown (st x)" "requests (st x) \<noteq> []"
      "pending (st x) \<noteq> [] \<or> uncertain (st x) \<noteq> []"
  defines "es \<equiv> if uncertain (st x) \<noteq> [] then uncertain (st x) else pending (st x)"
  shows "\<exists>y. run (pc_step cfg) x [ETick now, EFinish (\<lambda>_. WOk) (\<lambda>_. FOk), EReply] y
    \<and> drv y = Idle \<and> last_committed (st y) = Some (last_key es) \<and> requests (st y) = []
    \<and> replies y = replies x @ map (waiter_reply (Inl (map fst es))) (entry_waiters es)
        @ map (\<lambda>e. FlushAck (snd e) (map fst es)) (requests (st x))"
proof -
  obtain f s1 where b: "drive_begin cfg now (st x) = Ok (Some f, None, [], s1)"
    "requests s1 = requests (st x)" "flight_requests f = map fst (requests (st x))" "entries f = es"
    using begin_ready [OF ready] unfolding es_def by blast
  let ?x1 = "x\<lparr>st := s1, drv := Flying f, replies := replies x @ []\<rparr>"
  have s1: "pc_step cfg x (ETick now) ?x1" by (rule step_begin [OF idle b(1)])
  have inv1: "pc_inv cfg ?x1" by (rule step_inv [OF inv s1])
  have fok: "flight_ok f s1" using flying_flight_ok [of cfg ?x1 f] inv1 by (simp add: pc_inv_def)
  then obtain d where per: "persist f (\<lambda>_. WOk) (\<lambda>_. FOk) (store ?x1) = (Durable, d)"
    using persist_healthy [of f "store ?x1"] by (auto simp: flight_ok_def)
  define s2 where "s2 = s1\<lparr>retained_epochs := retained_epochs s1 - length (entries f),
      retained_bytes := retained_bytes s1 - bt_sum entry_bytes (entries f),
      retained_operations := retained_operations s1 - bt_sum entry_operations (entries f),
      last_committed := Some (last_key (entries f)), in_flight := False, retry_required := False,
      write_outcome_unknown := False\<rparr>"
  let ?res = "Inl (map fst es)"
  have fin: "finish_commit f Durable (st ?x1) = Ok (?res, entry_waiters es, s2)"
    using finish_durable [OF fok] by (simp add: s2_def b(4))
  let ?x2 = "?x1\<lparr>st := s2, drv := Replying ?res (entry_waiters es) (flight_requests f), store := d\<rparr>"
  have s2: "pc_step cfg ?x1 (EFinish (\<lambda>_. WOk) (\<lambda>_. FOk)) ?x2"
    by (rule step_finish [OF _ per fin]) simp
  have req: "requests s2 = requests (st x)" by (simp add: s2_def b(2))
  have "answer_requests ?res (map fst (requests (st x))) s2
      = (map (\<lambda>e. request_reply ?res (snd e)) (requests (st x)), s2\<lparr>requests := []\<rparr>)"
    using answer_all_requests [of "requests (st x)" ?res s2] ro
    unfolding req [symmetric] requests_ok_def by simp
  then have rep: "finish_reply ?res (entry_waiters es) (flight_requests f) (st ?x2)
      = (map (waiter_reply ?res) (entry_waiters es)
           @ map (\<lambda>e. FlushAck (snd e) (map fst es)) (requests (st x)), s2\<lparr>requests := []\<rparr>)"
    by (simp add: finish_reply_def b(3) request_reply_def)
  let ?x3 = "?x2\<lparr>st := s2\<lparr>requests := []\<rparr>, drv := Idle,
      replies := replies ?x2 @ map (waiter_reply ?res) (entry_waiters es)
        @ map (\<lambda>e. FlushAck (snd e) (map fst es)) (requests (st x))\<rparr>"
  have s3: "pc_step cfg ?x2 EReply ?x3" by (rule step_reply [OF _ rep]) simp
  have "run (pc_step cfg) x [ETick now, EFinish (\<lambda>_. WOk) (\<lambda>_. FOk), EReply] ?x3"
    unfolding run_Cons_iff using s1 s2 s3 by auto
  then show ?thesis by (intro exI [of _ ?x3]) (simp add: s2_def b(4))
qed

section \<open>A concrete run\<close>

definition demo_cfg :: Config where
  "demo_cfg = \<lparr>max_delay = 20, max_bytes = 1000, max_epochs = 4\<rparr>"

definition demo_entry :: Entry where
  "demo_entry = \<lparr>batch = [Put [1] [2]], entry_bytes = 2, entry_operations = 1, staged_at = 0,
     waiter = Some 7\<rparr>"

definition demo_start :: System where
  "demo_start = \<lparr>st = state_default, drv = Idle, store = \<lparr>db_log = [], db_durable = 0\<rparr>,
     replies = []\<rparr>"

definition demo_staged :: System where
  "demo_staged = demo_start\<lparr>st := state_default\<lparr>pending := [(5, demo_entry)], retained_bytes := 2,
     retained_epochs := 1, retained_operations := 1, next_request := 1, requests := [(0, 9)]\<rparr>\<rparr>"

definition demo_flight :: Flight where
  "demo_flight = \<lparr>entries = [(5, demo_entry)], flight_requests = [0], source = FLIGHT_PENDING\<rparr>"

definition demo_flying :: System where
  "demo_flying = demo_start\<lparr>drv := Flying demo_flight, st := state_default\<lparr>retained_bytes := 2,
     retained_epochs := 1, retained_operations := 1, next_request := 1, requests := [(0, 9)],
     sealed_epoch := Some 5, in_flight := True\<rparr>\<rparr>"

definition demo_final :: System where
  "demo_final = \<lparr>st = state_default\<lparr>next_request := 1, last_committed := Some 5,
     sealed_epoch := Some 5\<rparr>, drv = Idle,
     store = \<lparr>db_log = [[(5, [Put [1] [2]])]], db_durable = 1\<rparr>,
     replies = [EpochAck 7 5 [Put [1] [2]], FlushAck 9 [5]]\<rparr>"

lemma demo_init: "pc_init demo_start"
  by (simp add: pc_init_def demo_start_def log_ok_def stored_frontier_simps pc_open_def
      open_frontier_def state_default_def)

lemmas demo_defs = demo_start_def demo_staged_def demo_flying_def demo_final_def demo_flight_def
  demo_entry_def demo_cfg_def state_default_def

lemma demo_run_staged:
  "run (pc_step demo_cfg) demo_start [EStage 5 [Put [1] [2]] (Some 7) 0, EFlush 9] demo_staged"
proof -
  let ?s = "state_default\<lparr>pending := [(5, demo_entry)], retained_bytes := 2, retained_epochs := 1,
     retained_operations := 1\<rparr>"
  have "stage demo_cfg 5 [Put [1] [2]] (Some 7) 0 (st demo_start) = (Ok (), ?s)"
    by (simp add: demo_defs stage_def bt_contains_def byte_size_def usize_checked_add_def usize_max_def
        MAX_GROUP_COMMIT_OPERATIONS_def)
  from step_stage [OF this]
  have a: "pc_step demo_cfg demo_start (EStage 5 [Put [1] [2]] (Some 7) 0) (demo_start\<lparr>st := ?s\<rparr>)" .
  have "flush_request 9 (st (demo_start\<lparr>st := ?s\<rparr>))
      = (Ok 0, ?s\<lparr>next_request := 1, requests := [(0, 9)]\<rparr>)"
    by (simp add: flush_request_def checked_add_w_def demo_defs)
  from step_flush [OF this] have "pc_step demo_cfg (demo_start\<lparr>st := ?s\<rparr>) (EFlush 9) demo_staged"
    by (simp add: demo_defs)
  with a show ?thesis by (auto simp: run_Cons_iff)
qed

lemma demo_run_tick: "pc_step demo_cfg demo_staged (ETick 1) demo_flying"
proof -
  have "drive_begin demo_cfg 1 (st demo_staged) = Ok (Some demo_flight, None, [], st demo_flying)"
    by (simp add: drive_begin_def Let_def begin_owner_def oldest_staged_def last_key_def demo_defs)
  from step_begin [OF _ this] show ?thesis by (simp add: demo_defs)
qed

lemma demo_run_finish:
  "run (pc_step demo_cfg) demo_flying [EFinish (\<lambda>_. WOk) (\<lambda>_. FOk), EReply] demo_final"
proof -
  let ?d = "\<lparr>db_log = [[(5, [Put [1] [2]])]], db_durable = 1\<rparr>"
  let ?s = "(st demo_final)\<lparr>requests := [(0, 9)]\<rparr>"
  let ?y = "demo_flying\<lparr>st := ?s, drv := Replying (Inl [5]) [(7, 5, [Put [1] [2]])] [0], store := ?d\<rparr>"
  have "persist demo_flight (\<lambda>_. WOk) (\<lambda>_. FOk) (store demo_flying) = (Durable, ?d)"
    by (simp add: persist_def MAX_GROUP_COMMIT_RETRY_COUNT_def eval_nat_numeral db_write_def
        db_flush_def group_of_def demo_defs)
  moreover have "finish_commit demo_flight Durable (st demo_flying)
      = Ok (Inl [5], [(7, 5, [Put [1] [2]])], ?s)"
    by (simp add: finish_commit_def finish_transition_def entry_waiters_def take_waiters_def
        bt_sum_def assert_that_def demo_defs)
  moreover have "drv demo_flying = Flying demo_flight" "flight_requests demo_flight = [0]"
    by (simp_all add: demo_defs)
  ultimately have a: "pc_step demo_cfg demo_flying (EFinish (\<lambda>_. WOk) (\<lambda>_. FOk)) ?y"
    using step_finish by metis
  have "finish_reply (Inl [5]) [(7, 5, [Put [1] [2]])] [0] (st ?y)
      = ([EpochAck 7 5 [Put [1] [2]], FlushAck 9 [5]], st demo_final)"
    by (simp add: finish_reply_def waiter_reply_def request_reply_def bt_remove_def demo_defs)
  from step_reply [OF _ this] have "pc_step demo_cfg ?y EReply demo_final"
    by (simp add: demo_defs)
  with a show ?thesis by (auto simp: run_Cons_iff)
qed

lemma demo_run_flying:
  "run (pc_step demo_cfg) demo_start [EStage 5 [Put [1] [2]] (Some 7) 0, EFlush 9, ETick 1] demo_flying"
  using run_append [OF demo_run_staged, of "[ETick 1]"] demo_run_tick by (auto simp: run_Cons_iff)

lemma demo_run_final:
  "run (pc_step demo_cfg) demo_start [EStage 5 [Put [1] [2]] (Some 7) 0, EFlush 9, ETick 1,
     EFinish (\<lambda>_. WOk) (\<lambda>_. FOk), EReply] demo_final"
  using run_append [OF demo_run_flying demo_run_finish] by simp

section \<open>Properties of the commit driver\<close>

text \<open>
  (C4) No acknowledgement before durability: in every state the driver reaches, an epoch whose
  caller was told it is committed stands, with its batch, in the durable prefix of storage and at or
  below the committed frontier.
\<close>

theorem commit_ack_durable:
  assumes "pc_init x0" "run (pc_step cfg) x0 evs x" "EpochAck c k b \<in> set (replies x)"
  shows "durably_logged (store x) k b \<and> Some k \<le> last_committed (st x)"
  using commit.reachable_inv [OF assms(1,2)] assms(3)
  unfolding pc_inv_def reply_inv_def ack_ok_def by blast

theorem commit_ack_durable_witness:
  "durably_logged (store demo_final) 5 [Put [1] [2]] \<and> Some 5 \<le> last_committed (st demo_final)"
  by (rule commit_ack_durable [OF demo_init demo_run_final, where c = 7]) (simp add: demo_final_def)

text \<open>
  (C6) Admission accounting: in every reachable state the retained counters are exactly the number,
  bytes and operations of the epochs that are pending, uncertain or in flight, and none exceeds its
  bound.
\<close>

theorem commit_accounting:
  assumes "pc_init x0" "run (pc_step cfg) x0 evs x"
  shows "retained_epochs (st x) = size (all_entries x)
    \<and> retained_bytes (st x) = (\<Sum>e\<in>#all_entries x. byte_size (batch (snd e)))
    \<and> retained_operations (st x) = (\<Sum>e\<in>#all_entries x. length (batch (snd e)))
    \<and> retained_bytes (st x) \<le> max_bytes cfg \<and> retained_epochs (st x) \<le> max_epochs cfg
    \<and> retained_operations (st x) \<le> MAX_GROUP_COMMIT_OPERATIONS"
proof -
  have acct: "acct_inv cfg x" using commit.reachable_inv [OF assms] by (simp add: pc_inv_def)
  then have "image_mset (\<lambda>e. entry_bytes (snd e)) (all_entries x)
      = image_mset (\<lambda>e. byte_size (batch (snd e))) (all_entries x)"
    "image_mset (\<lambda>e. entry_operations (snd e)) (all_entries x)
      = image_mset (\<lambda>e. length (batch (snd e))) (all_entries x)"
    by (auto simp: acct_inv_def entry_ok_def intro!: image_mset_cong)
  with acct show ?thesis by (simp add: acct_inv_def)
qed

theorem commit_accounting_witness:
  "retained_epochs (st demo_flying) = size (all_entries demo_flying)
   \<and> retained_bytes (st demo_flying) = 2
   \<and> retained_bytes (st demo_flying) = (\<Sum>e\<in>#all_entries demo_flying. byte_size (batch (snd e)))"
  using commit_accounting [OF demo_init demo_run_flying] by (simp add: demo_flying_def)

text \<open>
  (C7) No panic of the driver: in every reachable state beginning a round, finishing a flight with
  whatever outcome storage gave it, and dropping it unfinished return a value; no \<open>expect\<close> and no
  assertion of the three functions fails.
\<close>

theorem commit_no_panic:
  assumes "pc_init x0" "run (pc_step cfg) x0 evs x"
  shows "drive_begin cfg now (st x) \<noteq> Panic
    \<and> (\<forall>f wio fio out d. drv x = Flying f \<longrightarrow> persist f wio fio (store x) = (out, d) \<longrightarrow>
         is_ok (finish_commit f out (st x)) \<and> is_ok (flight_drop f (st x)))"
proof (intro conjI allI impI)
  show "drive_begin cfg now (st x) \<noteq> Panic" by (rule begin_no_panic)
next
  fix f wio fio out d
  assume fl: "drv x = Flying f" and per: "persist f wio fio (store x) = (out, d)"
  have "acct_inv cfg x" "order_inv x"
    using commit.reachable_inv [OF assms] by (simp_all add: pc_inv_def)
  from flying_flight_ok [OF this fl] have fok: "flight_ok f (st x)" .
  show "is_ok (flight_drop f (st x))" using flight_drop_no_panic [OF fok] by auto
  show "is_ok (finish_commit f out (st x))"
  proof (cases out)
    case Durable
    then show ?thesis using finish_durable [OF fok] by simp
  next
    case (WriteFailed e)
    then have "source f = FLIGHT_PENDING"
      using persist_store [OF per] fok by (auto simp: flight_ok_def)
    then show ?thesis using finish_failed [OF fok] WriteFailed by simp
  qed (use finish_unknown [OF fok] in simp_all)
qed

theorem commit_no_panic_witness:
  "is_ok (finish_commit demo_flight (WriteUnknown []) (st demo_flying))
   \<and> is_ok (flight_drop demo_flight (st demo_flying))"
proof -
  have "drv demo_flying = Flying demo_flight" by (simp add: demo_flying_def)
  moreover have "persist demo_flight (\<lambda>_. WTimeout True) (\<lambda>_. FOk) (store demo_flying)
      = (WriteUnknown [], db_write (group_of (entries demo_flight)) (store demo_flying))"
    by (simp add: persist_def MAX_GROUP_COMMIT_RETRY_COUNT_def eval_nat_numeral demo_flight_def)
  ultimately show ?thesis using commit_no_panic [OF demo_init demo_run_flying] by blast
qed

text \<open>
  (C5) Crash recovery: when the process dies in any reachable state and storage keeps any prefix of
  the log that includes its durable part, reopening succeeds in an initial state whose frontier is
  not below the committed one. Every acknowledged epoch is still there, and staging it again is
  refused.
\<close>

theorem commit_crash_recovery:
  assumes "pc_init x0" "run (pc_step cfg) x0 evs x"
    and n: "db_durable (store x) \<le> n" "n \<le> length (db_log (store x))"
  defines "l \<equiv> take n (db_log (store x))"
  shows "\<exists>s. pc_open (ReadValue (stored_frontier l)) = Ok s
    \<and> pc_init \<lparr>st = s, drv = Idle, store = \<lparr>db_log = l, db_durable = n\<rparr>, replies = []\<rparr>
    \<and> last_committed (st x) \<le> last_committed s
    \<and> (\<forall>c k b. EpochAck c k b \<in> set (replies x) \<longrightarrow> logged l k b
         \<and> fst (stage cfg k b' w now s) = Err (EpochNotNewer k (sealed_epoch s)))"
proof -
  have inv: "pc_inv cfg x" by (rule commit.reachable_inv [OF assms(1,2)])
  let ?s = "state_default\<lparr>last_committed := log_frontier l, sealed_epoch := log_frontier l\<rparr>"
  have ok: "log_ok l"
    using inv by (auto simp: pc_inv_def log_inv_def l_def log_ok_def take_map [symmetric]
        dest: in_set_takeD sorted_wrt_take)
  have op: "pc_open (ReadValue (stored_frontier l)) = Ok ?s" by (rule open_log [OF ok])
  have le: "last_committed (st x) \<le> log_frontier l"
  proof (cases "last_committed (st x)")
    case (Some c)
    then have c: "0 < db_durable (store x)" "c \<le> last_key (db_log (store x) ! (db_durable (store x) - 1))"
      using inv by (auto simp: pc_inv_def log_inv_def)
    have "db_log (store x) ! (db_durable (store x) - 1) \<in> set l"
      using c(1) n by (auto simp: l_def in_set_conv_nth intro!: exI [of _ "db_durable (store x) - 1"])
    from log_frontier_ge [OF ok this] c(2) show ?thesis
      unfolding Some by (auto intro: order_trans [rotated])
  qed simp
  have acked: "logged l k b \<and> fst (stage cfg k b' w now ?s) = Err (EpochNotNewer k (sealed_epoch ?s))"
    if "EpochAck c k b \<in> set (replies x)" for c k b
  proof -
    have a: "durably_logged (store x) k b" "Some k \<le> last_committed (st x)"
      using inv that unfolding pc_inv_def reply_inv_def ack_ok_def by blast+
    have "logged l k b"
      using a(1) set_take_subset_set_take [OF n(1)] unfolding durably_logged_def l_def
      by (rule logged_mono)
    moreover have "Some k \<le> log_frontier l" using a(2) le by (rule order_trans)
    ultimately show ?thesis
      by (cases "log_frontier l") (simp_all add: stage_def state_default_def)
  qed
  have "pc_init \<lparr>st = ?s, drv = Idle, store = \<lparr>db_log = l, db_durable = n\<rparr>, replies = []\<rparr>"
    using ok op n by (simp add: pc_init_def l_def)
  then show ?thesis using op le acked by (intro exI [of _ ?s]) simp
qed

theorem commit_crash_recovery_witness:
  "\<exists>s. pc_open (ReadValue (stored_frontier (db_log (store demo_final)))) = Ok s
    \<and> Some 5 \<le> last_committed s
    \<and> fst (stage demo_cfg 5 [] None 0 s) = Err (EpochNotNewer 5 (sealed_epoch s))"
proof -
  have "EpochAck 7 5 [Put [1] [2]] \<in> set (replies demo_final)"
    "db_durable (store demo_final) = 1" "length (db_log (store demo_final)) = 1"
    "take 1 (db_log (store demo_final)) = db_log (store demo_final)"
    "last_committed (st demo_final) = Some 5"
    by (simp_all add: demo_final_def)
  with commit_crash_recovery [OF demo_init demo_run_final, of 1 "[]" None 0] show ?thesis
    by (metis order_refl)
qed

text \<open>
  (C9) Nothing is taken back: along every run from a reachable state the committed frontier never
  decreases, the log and the replies only grow, and what was durable stays durable.
\<close>

theorem commit_monotone:
  assumes "pc_init x0" "run (pc_step cfg) x0 evs x" "run (pc_step cfg) x evs' y"
  shows "last_committed (st x) \<le> last_committed (st y)
    \<and> (\<exists>z. db_log (store y) = db_log (store x) @ z)
    \<and> db_durable (store x) \<le> db_durable (store y)
    \<and> (\<exists>z. replies y = replies x @ z)"
  using commit_progress.run_progress [OF assms(3) commit.reachable_inv [OF assms(1,2)]]
  by (simp add: pc_progress_def)

theorem commit_monotone_witness:
  "last_committed (st demo_flying) \<le> last_committed (st demo_final)
   \<and> last_committed (st demo_final) = Some 5"
  using commit_monotone [OF demo_init demo_run_flying demo_run_finish] by (simp add: demo_final_def)

text \<open>
  (C8) A flush gets through: in every reachable state where the driver is idle, the outcome of no
  write is unknown, a flush is requested and work is retained, one round against working storage
  commits the whole flight (the uncertain epochs if there are any, else the pending ones), tells
  every waiter and every requester, and leaves no request.
\<close>

theorem commit_flush_progress:
  assumes "pc_init x0" "run (pc_step cfg) x0 evs x" "drv x = Idle"
    and "\<not> write_outcome_unknown (st x)" "requests (st x) \<noteq> []"
    and "pending (st x) \<noteq> [] \<or> uncertain (st x) \<noteq> []"
  defines "es \<equiv> if uncertain (st x) \<noteq> [] then uncertain (st x) else pending (st x)"
  shows "\<exists>y. run (pc_step cfg) x [ETick now, EFinish (\<lambda>_. WOk) (\<lambda>_. FOk), EReply] y
    \<and> drv y = Idle \<and> last_committed (st y) = Some (last_key es) \<and> requests (st y) = []
    \<and> replies y = replies x @ map (\<lambda>(c, k, b). EpochAck c k b) (entry_waiters es)
        @ map (\<lambda>e. FlushAck (snd e) (map fst es)) (requests (st x))"
proof -
  have eq: "map (waiter_reply (Inl (map fst es))) (entry_waiters es)
      = map (\<lambda>(c, k, b). EpochAck c k b) (entry_waiters es)"
    by (auto simp: waiter_reply_def)
  show ?thesis
    using round_run [OF commit.reachable_inv [OF assms(1,2)]
        commit_requests.reachable_inv [OF assms(1,2)] assms(3-6), of now, folded es_def]
    unfolding eq .
qed

theorem commit_flush_progress_witness:
  "\<exists>y. run (pc_step demo_cfg) demo_staged [ETick 3, EFinish (\<lambda>_. WOk) (\<lambda>_. FOk), EReply] y
    \<and> last_committed (st y) = Some 5 \<and> FlushAck 9 [5] \<in> set (replies y)"
proof -
  have h: "drv demo_staged = Idle" "\<not> write_outcome_unknown (st demo_staged)"
    "requests (st demo_staged) \<noteq> []" "pending (st demo_staged) \<noteq> [] \<or> uncertain (st demo_staged) \<noteq> []"
    and v: "uncertain (st demo_staged) = []" "pending (st demo_staged) = [(5, demo_entry)]"
    "requests (st demo_staged) = [(0, 9)]"
    by (simp_all add: demo_defs)
  show ?thesis
    using commit_flush_progress [OF demo_init demo_run_staged h, of 3]
    by (auto simp: v last_key_def)
qed

end
