(* ===== verification/FrontierAgg.thy ===== *)
theory FrontierAgg
  imports Kernels "HOL-Library.Option_ord"
begin

text \<open>
  Frontier aggregation of \<open>rockstream-control/src/frontier.rs\<close>: the aggregator that publishes the
  meet of the reports of an authoritative shard membership, and the lease store that elects one
  publisher by a fencing token and keeps the published frontiers.

  Each hold of the aggregator's mutex and each hold of the store's mutex is one operation. The calls
  \<open>acquire_lease\<close> and \<open>try_publish\<close> release the locks at their awaits, so each is a sequence of
  steps of the system below, interleaved with the steps of the other aggregators, with reports,
  membership changes and restarts. The database of the store is a map of keys to bytes; a write may
  fail and take effect all the same. Audit records are not modelled.
\<close>

section \<open>Membership, reports and the aggregator state\<close>

datatype AggregatorError =
    RegistryFull
  | LegacyReportRejected
  | MembershipNotConfigured
  | UnsupportedReportVersion u16
  | ScopeMismatch
  | GenerationMismatch u64 u64
  | InactiveShard u64
  | IncarnationMismatch u64
  | ActivationNotCaughtUp u64 u64
  | GenerationExhausted

definition MAX_REGISTERED_SHARDS :: usize where "MAX_REGISTERED_SHARDS = 100000"
definition FRONTIER_REPORT_VERSION :: u16 where "FRONTIER_REPORT_VERSION = 1"

record FrontierMembership =
  scope :: bytes
  generation :: u64
  active :: "(u64, u64) omap"

record MembershipFrontierReport =
  version :: u16
  report_scope :: bytes
  report_generation :: u64
  shard_id :: u64
  incarnation :: u64
  report_lease_token :: u64
  report_epoch :: u64

record LeaseWiring =
  aggregator_id :: u64
  is_publisher :: bool
  lease_token :: u64

record Inner =
  shard_epochs :: "(u64, u64) omap"
  published :: "u64 option"
  membership :: "FrontierMembership option"
  membership_epochs :: "(u64, u64 option) omap"
  lease :: "LeaseWiring option"

definition inner_new :: Inner where
  "inner_new = \<lparr>shard_epochs = [], published = None, membership = None, membership_epochs = [],
     lease = None\<rparr>"

definition with_active :: "u64 \<Rightarrow> u64 \<Rightarrow> FrontierMembership \<Rightarrow> FrontierMembership" where
  "with_active sh inc m = m\<lparr>active := bt_insert sh inc (active m)\<rparr>"

fun list_min :: "u64 list \<Rightarrow> u64 option" where
  "list_min [] = None"
| "list_min (x # xs) = Some (fold min xs x)"

definition compute_meet :: "Inner \<Rightarrow> u64 option" where
  "compute_meet i = list_min (bt_values (shard_epochs i))"

fun try_fold_meet :: "u64 \<Rightarrow> u64 option list \<Rightarrow> u64 option" where
  "try_fold_meet minimum [] = Some minimum"
| "try_fold_meet minimum (None # es) = None"
| "try_fold_meet minimum (Some e # es) = try_fold_meet (fixed_membership_meet minimum e) es"

definition member_epoch :: "Inner \<Rightarrow> u64 \<Rightarrow> u64 option" where
  "member_epoch i sh = Option.bind (bt_get (membership_epochs i) sh) id"

definition compute_membership_meet :: "Inner \<Rightarrow> u64 option" where
  "compute_membership_meet i =
     (case membership i of
        None \<Rightarrow> None
      | Some m \<Rightarrow>
          (case map (member_epoch i) (bt_keys (active m)) of
             [] \<Rightarrow> None
           | None # _ \<Rightarrow> None
           | Some first # es \<Rightarrow> try_fold_meet first es))"

definition recompute_membership_publication :: "Inner \<Rightarrow> Inner" where
  "recompute_membership_publication i =
     (case compute_membership_meet i of
        None \<Rightarrow>
          (case membership i of
             Some m \<Rightarrow> if active m = [] then i\<lparr>published := None\<rparr> else i
           | None \<Rightarrow> i)
      | Some meet \<Rightarrow> i\<lparr>published := Some (advance_publication (published i) meet)\<rparr>)"

definition with_membership :: "FrontierMembership \<Rightarrow> Inner" where
  "with_membership m = inner_new\<lparr>membership := Some m,
     membership_epochs := map (\<lambda>sh. (sh, None)) (bt_keys (active m))\<rparr>"

definition lease_wiring :: "u64 \<Rightarrow> LeaseWiring" where
  "lease_wiring agg = \<lparr>aggregator_id = agg, is_publisher = False, lease_token = 0\<rparr>"

definition with_membership_and_lease_store :: "FrontierMembership \<Rightarrow> u64 \<Rightarrow> Inner" where
  "with_membership_and_lease_store m agg = (with_membership m)\<lparr>lease := Some (lease_wiring agg)\<rparr>"

definition with_lease_store :: "u64 \<Rightarrow> Inner" where
  "with_lease_store agg = inner_new\<lparr>lease := Some (lease_wiring agg)\<rparr>"

section \<open>Membership changes and reports\<close>

definition caught_up :: "Inner \<Rightarrow> u64 \<Rightarrow> (AggregatorError, unit) result" where
  "caught_up i bootstrap =
     (case published i of
        None \<Rightarrow> Ok ()
      | Some p \<Rightarrow>
          if activation_preserves_publication (Some p) bootstrap then Ok ()
          else Err (ActivationNotCaughtUp bootstrap p))"

definition next_generation :: "FrontierMembership \<Rightarrow> (AggregatorError, u64) result" where
  "next_generation m = ok_or GenerationExhausted (checked_add_w (generation m) 1)"

definition activate_shard ::
  "u64 \<Rightarrow> u64 \<Rightarrow> u64 \<Rightarrow> Inner \<Rightarrow> (AggregatorError, u64 \<times> Inner) result" where
  "activate_shard sh inc bootstrap i =
     rbind (ok_or MembershipNotConfigured (membership i)) (\<lambda>m.
     if bt_contains (active m) sh then Err (InactiveShard sh)
     else
       rbind (caught_up i bootstrap) (\<lambda>_.
       rbind (next_generation m) (\<lambda>g.
       Ok (g, recompute_membership_publication (i\<lparr>
         membership := Some (m\<lparr>generation := g, active := bt_insert sh inc (active m)\<rparr>),
         membership_epochs := bt_insert sh (Some bootstrap) (membership_epochs i)\<rparr>)))))"

definition retire_shard :: "u64 \<Rightarrow> Inner \<Rightarrow> (AggregatorError, u64 \<times> Inner) result" where
  "retire_shard sh i =
     rbind (ok_or MembershipNotConfigured (membership i)) (\<lambda>m.
     if \<not> bt_contains (active m) sh then Err (InactiveShard sh)
     else
       rbind (next_generation m) (\<lambda>g.
       Ok (g, recompute_membership_publication (i\<lparr>
         membership := Some (m\<lparr>generation := g, active := bt_remove sh (active m)\<rparr>),
         membership_epochs := bt_remove sh (membership_epochs i)\<rparr>))))"

definition replace_shard ::
  "u64 \<Rightarrow> u64 \<Rightarrow> u64 \<Rightarrow> u64 \<Rightarrow> Inner \<Rightarrow> (AggregatorError, u64 \<times> Inner) result" where
  "replace_shard old_sh new_sh inc bootstrap i =
     rbind (ok_or MembershipNotConfigured (membership i)) (\<lambda>m.
     if \<not> bt_contains (active m) old_sh \<or> (new_sh \<noteq> old_sh \<and> bt_contains (active m) new_sh)
     then Err (InactiveShard old_sh)
     else
       rbind (caught_up i bootstrap) (\<lambda>_.
       rbind (next_generation m) (\<lambda>g.
       Ok (g, recompute_membership_publication (i\<lparr>
         membership := Some (m\<lparr>generation := g,
           active := bt_insert new_sh inc (bt_remove old_sh (active m))\<rparr>),
         membership_epochs :=
           bt_insert new_sh (Some bootstrap) (bt_remove old_sh (membership_epochs i))\<rparr>)))))"

definition ingest_membership_report ::
  "MembershipFrontierReport \<Rightarrow> Inner \<Rightarrow> (AggregatorError, Inner) result" where
  "ingest_membership_report r i =
     rbind (ok_or MembershipNotConfigured (membership i)) (\<lambda>m.
     if version r \<noteq> FRONTIER_REPORT_VERSION then Err (UnsupportedReportVersion (version r))
     else if report_scope r \<noteq> scope m then Err ScopeMismatch
     else
       let generation_matches = (report_generation r = generation m);
           expected_incarnation = bt_get (active m) (shard_id r);
           is_active = (expected_incarnation \<noteq> None);
           incarnation_matches = (expected_incarnation = Some (incarnation r));
           current_epoch = (case member_epoch i (shard_id r) of None \<Rightarrow> 0 | Some e \<Rightarrow> e)
       in
       case admit_frontier_report (version r) is_active generation_matches incarnation_matches
              current_epoch (report_epoch r) of
         Some new_epoch \<Rightarrow>
           Ok (recompute_membership_publication (i\<lparr>
             membership_epochs := bt_insert (shard_id r) (Some new_epoch) (membership_epochs i)\<rparr>))
       | None \<Rightarrow>
           if version r \<noteq> 1 then Err (UnsupportedReportVersion (version r))
           else if \<not> generation_matches
           then Err (GenerationMismatch (generation m) (report_generation r))
           else if \<not> is_active then Err (InactiveShard (shard_id r))
           else Err (IncarnationMismatch (shard_id r)))"

text \<open>The compatibility path: reports of a shard and an epoch, without membership.\<close>

definition ingest :: "u64 \<Rightarrow> u64 \<Rightarrow> Inner \<Rightarrow> (AggregatorError, Inner) result" where
  "ingest sh epoch i =
     (if membership i \<noteq> None then Err LegacyReportRejected
      else if \<not> bt_contains (shard_epochs i) sh \<and> length (shard_epochs i) \<ge> MAX_REGISTERED_SHARDS
      then Err RegistryFull
      else
        let entry = (case bt_get (shard_epochs i) sh of None \<Rightarrow> 0 | Some e \<Rightarrow> e);
            i1 = i\<lparr>shard_epochs := bt_insert sh (if epoch > entry then epoch else entry) (shard_epochs i)\<rparr>
        in
        case compute_meet i1 of
          None \<Rightarrow> Ok i1
        | Some meet \<Rightarrow>
            (case published i1 of
               None \<Rightarrow> Ok (i1\<lparr>published := Some meet\<rparr>)
             | Some old \<Rightarrow>
                 if meet > old then
                   (if meet \<ge> old then Ok (i1\<lparr>published := Some meet\<rparr>) else Panic)
                 else Ok i1))"

section \<open>The lease store\<close>

datatype FrontierLeaseError = StaleFenceToken u64 u64 | LeaseStorage

record LeaseState =
  fence_token :: u64
  holder :: "u64 option"
  store_published :: "u64 option"
  published_by_generation :: "bytes \<times> u64 \<Rightarrow> u64 option"
  last_write_synced :: bool

record LeaseStore =
  db :: "bytes \<Rightarrow> bytes option"
  ls :: LeaseState

text \<open>A write followed by a flush: both succeed, or one fails and the write may have taken effect.\<close>

datatype db_io = IoOk | IoErr bool

definition db_put :: "bytes \<Rightarrow> bytes \<Rightarrow> db_io \<Rightarrow> (bytes \<Rightarrow> bytes option) \<Rightarrow> bool \<times> (bytes \<Rightarrow> bytes option)" where
  "db_put k v io d =
     (case io of IoOk \<Rightarrow> (True, d(k \<mapsto> v)) | IoErr hit \<Rightarrow> (False, if hit then d(k \<mapsto> v) else d))"

text \<open>The bytes of \<open>frontier/leader\<close> and \<open>frontier/published\<close>.\<close>

definition LEASE_KEY :: bytes where
  "LEASE_KEY = [0x66, 0x72, 0x6F, 0x6E, 0x74, 0x69, 0x65, 0x72, 0x2F, 0x6C, 0x65, 0x61, 0x64, 0x65, 0x72]"

definition PUBLISHED_FRONTIER_KEY :: bytes where
  "PUBLISHED_FRONTIER_KEY = [0x66, 0x72, 0x6F, 0x6E, 0x74, 0x69, 0x65, 0x72, 0x2F, 0x70, 0x75, 0x62,
     0x6C, 0x69, 0x73, 0x68, 0x65, 0x64]"

text \<open>Two lower-case hexadecimal digits of a byte.\<close>

definition hex_digit :: "nat \<Rightarrow> u8" where
  "hex_digit d = of_nat (if d < 10 then 48 + d else 87 + d)"

definition hex_byte :: "u8 \<Rightarrow> bytes" where
  "hex_byte b = [hex_digit (unat b div 16), hex_digit (unat b mod 16)]"

definition published_frontier_generation_key :: "bytes \<Rightarrow> u64 \<Rightarrow> bytes" where
  "published_frontier_generation_key sc g =
     PUBLISHED_FRONTIER_KEY @ [0x2F] @ concat (map hex_byte sc) @ [0x2F] @ decimal (unat g)"

definition read_lease_record :: "(bytes \<Rightarrow> bytes option) \<Rightarrow> u64 \<times> u64 option" where
  "read_lease_record d =
     (case d LEASE_KEY of
        Some bs \<Rightarrow>
          if length bs = 16 then (from_be (take 8 bs), Some (from_be (drop 8 bs))) else (0, None)
      | None \<Rightarrow> (0, None))"

definition read_published_key :: "(bytes \<Rightarrow> bytes option) \<Rightarrow> bytes \<Rightarrow> u64 option" where
  "read_published_key d k =
     (case d k of Some bs \<Rightarrow> if length bs = 8 then Some (from_be bs) else None | None \<Rightarrow> None)"

definition lease_store_open :: "(bytes \<Rightarrow> bytes option) \<Rightarrow> LeaseStore" where
  "lease_store_open d =
     (let (token, h) = read_lease_record d; p = read_published_key d PUBLISHED_FRONTIER_KEY in
      \<lparr>db = d, ls = \<lparr>fence_token = token, holder = h, store_published = p,
         published_by_generation = (\<lambda>_. None), last_write_synced = (p \<noteq> None)\<rparr>\<rparr>)"

definition acquire_publisher_lease ::
  "u64 \<Rightarrow> u64 \<Rightarrow> db_io \<Rightarrow> LeaseStore \<Rightarrow> (FrontierLeaseError, u64) result \<times> LeaseStore" where
  "acquire_publisher_lease agg current io s =
     (if current \<noteq> fence_token (ls s)
      then (Err (StaleFenceToken current (fence_token (ls s))), s)
      else case checked_add_w (fence_token (ls s)) 1 of
        None \<Rightarrow> (Panic, s)
      | Some new_token \<Rightarrow>
          let (ok, d) = db_put LEASE_KEY (to_be 8 new_token @ to_be 8 agg) io (db s) in
          if ok
          then (Ok new_token, s\<lparr>db := d, ls := (ls s)\<lparr>fence_token := new_token, holder := Some agg\<rparr>\<rparr>)
          else (Err LeaseStorage, s\<lparr>db := d\<rparr>))"

definition assert_valid_publisher :: "u64 \<Rightarrow> u64 \<Rightarrow> bool" where
  "assert_valid_publisher token current_fence_token \<longleftrightarrow> token = current_fence_token"

definition assert_flush_before_lease_handoff_read :: "bool \<Rightarrow> bool \<Rightarrow> bool" where
  "assert_flush_before_lease_handoff_read has_published_value synced \<longleftrightarrow>
     \<not> has_published_value \<or> synced"

definition publish_frontier_inner ::
  "u64 \<Rightarrow> (bytes \<times> u64) option \<Rightarrow> u64 \<Rightarrow> bytes \<Rightarrow> db_io \<Rightarrow> LeaseStore \<Rightarrow>
     (FrontierLeaseError, unit) result \<times> LeaseStore" where
  "publish_frontier_inner token mk frontier key io s =
     (if \<not> assert_valid_publisher token (fence_token (ls s)) then (Panic, s)
      else
        let current = (case mk of Some m \<Rightarrow> published_by_generation (ls s) m
                       | None \<Rightarrow> store_published (ls s))
        in
        if (case current of Some c \<Rightarrow> frontier < c | None \<Rightarrow> False) then (Ok (), s)
        else
          let (ok, d) = db_put key (to_be 8 frontier) io (db s) in
          if ok then
            let l = (case mk of
                Some m \<Rightarrow> (ls s)\<lparr>published_by_generation := (published_by_generation (ls s))(m \<mapsto> frontier)\<rparr>
              | None \<Rightarrow> (ls s)\<lparr>store_published := Some frontier\<rparr>)
            in (Ok (), s\<lparr>db := d, ls := l\<lparr>last_write_synced := True\<rparr>\<rparr>)
          else (Err LeaseStorage, s\<lparr>db := d\<rparr>))"

definition publish_frontier ::
  "u64 \<Rightarrow> u64 \<Rightarrow> db_io \<Rightarrow> LeaseStore \<Rightarrow> (FrontierLeaseError, unit) result \<times> LeaseStore" where
  "publish_frontier token frontier io s =
     publish_frontier_inner token None frontier PUBLISHED_FRONTIER_KEY io s"

definition publish_frontier_for_generation ::
  "bytes \<Rightarrow> u64 \<Rightarrow> u64 \<Rightarrow> u64 \<Rightarrow> db_io \<Rightarrow> LeaseStore \<Rightarrow>
     (FrontierLeaseError, unit) result \<times> LeaseStore" where
  "publish_frontier_for_generation sc token g frontier io s =
     publish_frontier_inner token (Some (sc, g)) frontier
       (published_frontier_generation_key sc g) io s"

definition read_published_frontier_after_handoff ::
  "LeaseStore \<Rightarrow> (FrontierLeaseError, u64 option) result" where
  "read_published_frontier_after_handoff s =
     (if assert_flush_before_lease_handoff_read (store_published (ls s) \<noteq> None) (last_write_synced (ls s))
      then Ok (store_published (ls s)) else Panic)"

text \<open>The generation-scoped read fills the cache from the database, whose read may fail.\<close>

definition read_published_frontier_after_handoff_for_generation ::
  "bytes \<Rightarrow> u64 \<Rightarrow> bool \<Rightarrow> LeaseStore \<Rightarrow> (FrontierLeaseError, u64 option) result \<times> LeaseStore" where
  "read_published_frontier_after_handoff_for_generation sc g readable s =
     (case published_by_generation (ls s) (sc, g) of
        Some frontier \<Rightarrow>
          (if assert_flush_before_lease_handoff_read True (last_write_synced (ls s))
           then Ok (Some frontier) else Panic, s)
      | None \<Rightarrow>
          if \<not> readable then (Err LeaseStorage, s)
          else
            (case read_published_key (db s) (published_frontier_generation_key sc g) of
               Some frontier \<Rightarrow>
                 let s' = s\<lparr>ls := (ls s)\<lparr>
                   published_by_generation := (published_by_generation (ls s))((sc, g) \<mapsto> frontier),
                   last_write_synced := True\<rparr>\<rparr>
                 in (if assert_flush_before_lease_handoff_read True (last_write_synced (ls s'))
                     then Ok (Some frontier) else Panic, s')
             | None \<Rightarrow>
                 (if assert_flush_before_lease_handoff_read False (last_write_synced (ls s))
                  then Ok None else Panic, s)))"

section \<open>The cluster: aggregators, one store, and what the shards have made durable\<close>

text \<open>Where an aggregator is inside \<open>acquire_lease\<close> or \<open>try_publish\<close>: between two awaits.\<close>

type_synonym scope_key = "(bytes \<times> u64) option"

datatype AggPc =
    AIdle
  | AcqStart scope_key
  | AcqPeeked scope_key u64
  | AcqGranted scope_key u64
  | AcqRead scope_key u64 "u64 option"
  | PubMeet scope_key u64 u64
  | PubChecked scope_key u64 u64
  | PubDone scope_key u64

definition membership_key :: "Inner \<Rightarrow> scope_key" where
  "membership_key i = map_option (\<lambda>m. (scope m, generation m)) (membership i)"

definition set_publisher :: "bool \<Rightarrow> Inner \<Rightarrow> Inner" where
  "set_publisher b i = i\<lparr>lease := map_option (\<lambda>l. l\<lparr>is_publisher := b\<rparr>) (lease i)\<rparr>"

definition raise_published :: "scope_key \<Rightarrow> u64 \<Rightarrow> Inner \<Rightarrow> Inner" where
  "raise_published mk e i =
     (if membership_key i = mk \<and> (case published i of None \<Rightarrow> True | Some p \<Rightarrow> e > p)
      then i\<lparr>published := Some e\<rparr> else i)"

definition acquire_finish :: "scope_key \<Rightarrow> u64 \<Rightarrow> u64 option \<Rightarrow> Inner \<Rightarrow> Inner" where
  "acquire_finish mk token pub i =
     (let i1 = (case pub of Some e \<Rightarrow> raise_published mk e i | None \<Rightarrow> i) in
      i1\<lparr>lease := map_option (\<lambda>l. l\<lparr>is_publisher := True, lease_token := token\<rparr>) (lease i1)\<rparr>)"

definition handoff_read ::
  "scope_key \<Rightarrow> bool \<Rightarrow> LeaseStore \<Rightarrow> (FrontierLeaseError, u64 option) result \<times> LeaseStore" where
  "handoff_read mk readable s =
     (case mk of
        Some (sc, g) \<Rightarrow> read_published_frontier_after_handoff_for_generation sc g readable s
      | None \<Rightarrow> (read_published_frontier_after_handoff s, s))"

text \<open>The first lock of \<open>try_publish\<close>: \<open>None\<close> means that it returns \<open>false\<close>.\<close>

definition try_publish_start ::
  "Inner \<Rightarrow> (FrontierLeaseError, (scope_key \<times> u64 \<times> u64) option) result" where
  "try_publish_start i =
     rbind (expect (lease i)) (\<lambda>l.
     if \<not> is_publisher l then Ok None
     else
       (case (if membership i \<noteq> None then compute_membership_meet i else compute_meet i) of
          None \<Rightarrow> Ok None
        | Some meet \<Rightarrow> Ok (Some (membership_key i, lease_token l, meet))))"

definition publish_write ::
  "scope_key \<Rightarrow> u64 \<Rightarrow> u64 \<Rightarrow> db_io \<Rightarrow> LeaseStore \<Rightarrow> (FrontierLeaseError, unit) result \<times> LeaseStore" where
  "publish_write mk held meet io s =
     (case mk of
        Some (sc, g) \<Rightarrow> publish_frontier_for_generation sc held g meet io s
      | None \<Rightarrow> publish_frontier held meet io s)"

record Agg =
  inner :: Inner
  pc :: AggPc

record Cluster =
  aggs :: "nat \<Rightarrow> Agg"
  lstore :: LeaseStore
  durable :: "u64 \<Rightarrow> u64 \<Rightarrow> u64"

datatype FaEvent =
    EAdvance u64 u64 u64
  | EReport nat MembershipFrontierReport
  | EActivate nat u64 u64 u64
  | ERetire nat u64
  | EReplace nat u64 u64 u64 u64
  | EAcquire nat db_io bool
  | EPublish nat db_io
  | ERestart

definition set_agg :: "nat \<Rightarrow> Inner \<Rightarrow> AggPc \<Rightarrow> Cluster \<Rightarrow> Cluster" where
  "set_agg a i p c = c\<lparr>aggs := (aggs c)(a := \<lparr>inner = i, pc = p\<rparr>)\<rparr>"

text \<open>
  \<open>members\<close> is the authoritative configuration: the active members of each scope and generation. A
  membership change of an aggregator follows it.
\<close>

definition conforms :: "(bytes \<Rightarrow> u64 \<Rightarrow> (u64, u64) omap) \<Rightarrow> Inner \<Rightarrow> bool" where
  "conforms members i \<longleftrightarrow>
     (\<forall>m. membership i = Some m \<longrightarrow> bt_ok (active m) \<and> active m = members (scope m) (generation m))"

definition fresh_agg :: "(bytes \<Rightarrow> u64 \<Rightarrow> (u64, u64) omap) \<Rightarrow> Agg \<Rightarrow> bool" where
  "fresh_agg members x \<longleftrightarrow>
     conforms members (inner x) \<and> pc x = AIdle
     \<and> (\<exists>agg. inner x = with_lease_store agg
          \<or> (\<exists>m. inner x = with_membership_and_lease_store m agg))"

inductive fa_step ::
  "(bytes \<Rightarrow> u64 \<Rightarrow> (u64, u64) omap) \<Rightarrow> Cluster \<Rightarrow> FaEvent \<Rightarrow> Cluster \<Rightarrow> bool" for members where
  advance: "fa_step members c (EAdvance sh inc e)
     (c\<lparr>durable := (durable c)(sh := (durable c sh)(inc := max (durable c sh inc) e))\<rparr>)"
| report: "report_epoch r \<le> durable c (shard_id r) (incarnation r) \<Longrightarrow>
     ingest_membership_report r (inner (aggs c a)) = Ok i \<Longrightarrow>
     fa_step members c (EReport a r) (set_agg a i (pc (aggs c a)) c)"
| activate: "b \<le> durable c sh inc \<Longrightarrow> activate_shard sh inc b (inner (aggs c a)) = Ok (g, i) \<Longrightarrow>
     conforms members i \<Longrightarrow>
     fa_step members c (EActivate a sh inc b) (set_agg a i (pc (aggs c a)) c)"
| retire: "retire_shard sh (inner (aggs c a)) = Ok (g, i) \<Longrightarrow> conforms members i \<Longrightarrow>
     fa_step members c (ERetire a sh) (set_agg a i (pc (aggs c a)) c)"
| replace: "b \<le> durable c new_sh inc \<Longrightarrow>
     replace_shard old_sh new_sh inc b (inner (aggs c a)) = Ok (g, i) \<Longrightarrow> conforms members i \<Longrightarrow>
     fa_step members c (EReplace a old_sh new_sh inc b) (set_agg a i (pc (aggs c a)) c)"
| acq_start: "pc (aggs c a) = AIdle \<Longrightarrow> lease (inner (aggs c a)) \<noteq> None \<Longrightarrow>
     fa_step members c (EAcquire a io rd)
       (set_agg a (inner (aggs c a)) (AcqStart (membership_key (inner (aggs c a)))) c)"
| acq_peek: "pc (aggs c a) = AcqStart mk \<Longrightarrow>
     fa_step members c (EAcquire a io rd)
       (set_agg a (inner (aggs c a)) (AcqPeeked mk (fence_token (ls (lstore c)))) c)"
| acq_grant: "pc (aggs c a) = AcqPeeked mk t \<Longrightarrow> lease (inner (aggs c a)) = Some l \<Longrightarrow>
     acquire_publisher_lease (aggregator_id l) t io (lstore c) = (Ok tok, s) \<Longrightarrow>
     fa_step members c (EAcquire a io rd)
       (set_agg a (inner (aggs c a)) (AcqGranted mk tok) (c\<lparr>lstore := s\<rparr>))"
| acq_lose: "pc (aggs c a) = AcqPeeked mk t \<Longrightarrow> lease (inner (aggs c a)) = Some l \<Longrightarrow>
     acquire_publisher_lease (aggregator_id l) t io (lstore c) = (Err (StaleFenceToken p q), s) \<Longrightarrow>
     fa_step members c (EAcquire a io rd)
       (set_agg a (set_publisher False (inner (aggs c a))) AIdle (c\<lparr>lstore := s\<rparr>))"
| acq_fail: "pc (aggs c a) = AcqPeeked mk t \<Longrightarrow> lease (inner (aggs c a)) = Some l \<Longrightarrow>
     acquire_publisher_lease (aggregator_id l) t io (lstore c) = (r, s) \<Longrightarrow>
     r = Err LeaseStorage \<or> r = Panic \<Longrightarrow>
     fa_step members c (EAcquire a io rd) (set_agg a (inner (aggs c a)) AIdle (c\<lparr>lstore := s\<rparr>))"
| acq_read: "pc (aggs c a) = AcqGranted mk tok \<Longrightarrow> handoff_read mk rd (lstore c) = (Ok pub, s) \<Longrightarrow>
     fa_step members c (EAcquire a io rd)
       (set_agg a (inner (aggs c a)) (AcqRead mk tok pub) (c\<lparr>lstore := s\<rparr>))"
| acq_read_fail: "pc (aggs c a) = AcqGranted mk tok \<Longrightarrow> handoff_read mk rd (lstore c) = (r, s) \<Longrightarrow>
     \<not> is_ok r \<Longrightarrow>
     fa_step members c (EAcquire a io rd) (set_agg a (inner (aggs c a)) AIdle (c\<lparr>lstore := s\<rparr>))"
| acq_finish: "pc (aggs c a) = AcqRead mk tok pub \<Longrightarrow>
     fa_step members c (EAcquire a io rd)
       (set_agg a (acquire_finish mk tok pub (inner (aggs c a))) AIdle c)"
| pub_start: "pc (aggs c a) = AIdle \<Longrightarrow>
     try_publish_start (inner (aggs c a)) = Ok (Some (mk, held, meet)) \<Longrightarrow>
     fa_step members c (EPublish a io) (set_agg a (inner (aggs c a)) (PubMeet mk held meet) c)"
| pub_check: "pc (aggs c a) = PubMeet mk held meet \<Longrightarrow> fence_token (ls (lstore c)) = held \<Longrightarrow>
     fa_step members c (EPublish a io) (set_agg a (inner (aggs c a)) (PubChecked mk held meet) c)"
| pub_demote: "pc (aggs c a) = PubMeet mk held meet \<Longrightarrow> fence_token (ls (lstore c)) \<noteq> held \<Longrightarrow>
     fa_step members c (EPublish a io) (set_agg a (set_publisher False (inner (aggs c a))) AIdle c)"
| pub_write: "pc (aggs c a) = PubChecked mk held meet \<Longrightarrow>
     publish_write mk held meet io (lstore c) = (Ok (), s) \<Longrightarrow>
     fa_step members c (EPublish a io)
       (set_agg a (inner (aggs c a)) (PubDone mk meet) (c\<lparr>lstore := s\<rparr>))"
| pub_fail: "pc (aggs c a) = PubChecked mk held meet \<Longrightarrow>
     publish_write mk held meet io (lstore c) = (r, s) \<Longrightarrow> \<not> is_ok r \<Longrightarrow>
     fa_step members c (EPublish a io) (set_agg a (inner (aggs c a)) AIdle (c\<lparr>lstore := s\<rparr>))"
| pub_finish: "pc (aggs c a) = PubDone mk meet \<Longrightarrow>
     fa_step members c (EPublish a io)
       (set_agg a (raise_published mk meet (inner (aggs c a))) AIdle c)"
| restart: "(\<And>a. fresh_agg members (xs a)) \<Longrightarrow>
     fa_step members c ERestart
       (c\<lparr>aggs := xs, lstore := lease_store_open (db (lstore c))\<rparr>)"

definition fa_init :: "(bytes \<Rightarrow> u64 \<Rightarrow> (u64, u64) omap) \<Rightarrow> Cluster \<Rightarrow> bool" where
  "fa_init members c \<longleftrightarrow>
     (\<forall>a. fresh_agg members (aggs c a)) \<and> lstore c = lease_store_open (\<lambda>_. None)"

section \<open>Invariants\<close>

text \<open>A frontier that every active member of its scope and generation has made durable.\<close>

definition good_frontier ::
  "(bytes \<Rightarrow> u64 \<Rightarrow> (u64, u64) omap) \<Rightarrow> (u64 \<Rightarrow> u64 \<Rightarrow> u64) \<Rightarrow> scope_key \<Rightarrow> u64 \<Rightarrow> bool" where
  "good_frontier members dur mk e \<longleftrightarrow>
     (case mk of
        None \<Rightarrow> True
      | Some (sc, g) \<Rightarrow>
          members sc g \<noteq> [] \<and> (\<forall>(sh, inc) \<in> set (members sc g). e \<le> dur sh inc))"

definition agg_inv ::
  "(bytes \<Rightarrow> u64 \<Rightarrow> (u64, u64) omap) \<Rightarrow> (u64 \<Rightarrow> u64 \<Rightarrow> u64) \<Rightarrow> Inner \<Rightarrow> bool" where
  "agg_inv members dur i \<longleftrightarrow>
     conforms members i
     \<and> (\<forall>m sh inc e. membership i = Some m \<longrightarrow> bt_get (active m) sh = Some inc \<longrightarrow>
          member_epoch i sh = Some e \<longrightarrow> e \<le> dur sh inc)
     \<and> (\<forall>p. published i = Some p \<longrightarrow> good_frontier members dur (membership_key i) p)"

definition pc_safe ::
  "(bytes \<Rightarrow> u64 \<Rightarrow> (u64, u64) omap) \<Rightarrow> (u64 \<Rightarrow> u64 \<Rightarrow> u64) \<Rightarrow> AggPc \<Rightarrow> bool" where
  "pc_safe members dur p \<longleftrightarrow>
     (case p of
        AcqRead mk t (Some e) \<Rightarrow> good_frontier members dur mk e
      | PubMeet mk t e \<Rightarrow> good_frontier members dur mk e
      | PubChecked mk t e \<Rightarrow> good_frontier members dur mk e
      | PubDone mk e \<Rightarrow> good_frontier members dur mk e
      | _ \<Rightarrow> True)"

definition store_safe ::
  "(bytes \<Rightarrow> u64 \<Rightarrow> (u64, u64) omap) \<Rightarrow> (u64 \<Rightarrow> u64 \<Rightarrow> u64) \<Rightarrow> LeaseStore \<Rightarrow> bool" where
  "store_safe members dur s \<longleftrightarrow>
     (\<forall>sc g e. published_by_generation (ls s) (sc, g) = Some e \<longrightarrow>
        good_frontier members dur (Some (sc, g)) e)
     \<and> (\<forall>sc g e. read_published_key (db s) (published_frontier_generation_key sc g) = Some e \<longrightarrow>
        good_frontier members dur (Some (sc, g)) e)"

definition safe_inv :: "(bytes \<Rightarrow> u64 \<Rightarrow> (u64, u64) omap) \<Rightarrow> Cluster \<Rightarrow> bool" where
  "safe_inv members c \<longleftrightarrow>
     (\<forall>a. agg_inv members (durable c) (inner (aggs c a)) \<and> pc_safe members (durable c) (pc (aggs c a)))
     \<and> store_safe members (durable c) (lstore c)"

text \<open>The tokens an aggregator was granted and may still publish under.\<close>

definition holds :: "Agg \<Rightarrow> u64 \<Rightarrow> bool" where
  "holds x t \<longleftrightarrow>
     (\<exists>l. lease (inner x) = Some l \<and> is_publisher l \<and> lease_token l = t)
     \<or> (\<exists>mk. pc x = AcqGranted mk t) \<or> (\<exists>mk p. pc x = AcqRead mk t p)
     \<or> (\<exists>mk e. pc x = PubMeet mk t e \<or> pc x = PubChecked mk t e)"

definition fence_inv :: "Cluster \<Rightarrow> bool" where
  "fence_inv c \<longleftrightarrow>
     (\<forall>a t. holds (aggs c a) t \<longrightarrow> t \<le> fence_token (ls (lstore c)))
     \<and> (\<forall>a b t. holds (aggs c a) t \<longrightarrow> holds (aggs c b) t \<longrightarrow> a = b)"

section \<open>Generation keys\<close>

lemma unat_small_u8: "n < 256 \<Longrightarrow> unat (of_nat n :: u8) = n"
  by (simp add: unat_of_nat)

lemma unat_hex_digit: "d < 16 \<Longrightarrow> unat (hex_digit d) = (if d < 10 then 48 + d else 87 + d)"
  unfolding hex_digit_def by (intro unat_small_u8) simp

lemma hex_digit_inject: "d < 16 \<Longrightarrow> e < 16 \<Longrightarrow> hex_digit d = hex_digit e \<longleftrightarrow> d = e"
proof -
  assume de: "d < 16" "e < 16"
  have "hex_digit d = hex_digit e \<longleftrightarrow> unat (hex_digit d) = unat (hex_digit e)"
    by (simp add: word_unat_eq_iff)
  also have "\<dots> \<longleftrightarrow> d = e"
    unfolding unat_hex_digit [OF de(1)] unat_hex_digit [OF de(2)] using de by auto
  finally show ?thesis .
qed

lemma hex_digit_slash: "d < 16 \<Longrightarrow> hex_digit d \<noteq> 0x2F"
proof
  assume d: "d < 16" and "hex_digit d = 0x2F"
  then have "unat (hex_digit d) = 47" by simp
  then show False unfolding unat_hex_digit [OF d] by (simp split: if_splits)
qed

lemma hex_byte_inject: "hex_byte a = hex_byte b \<longleftrightarrow> a = b"
proof -
  have "unat a div 16 < 16" "unat b div 16 < 16"
    using unat_less [of a] unat_less [of b] by simp_all
  then have "hex_byte a = hex_byte b \<longleftrightarrow> unat a div 16 = unat b div 16 \<and> unat a mod 16 = unat b mod 16"
    by (simp add: hex_byte_def hex_digit_inject)
  also have "\<dots> \<longleftrightarrow> a = b" by (metis mult_div_mod_eq unsigned_word_eqI)
  finally show ?thesis .
qed

lemma hex_scope_inject:
  "concat (map hex_byte a) @ 0x2F # x = concat (map hex_byte b) @ 0x2F # y \<longleftrightarrow> a = b \<and> x = y"
proof (induction a arbitrary: b)
  case Nil
  show ?case
  proof (cases b)
    case (Cons c b')
    have "hex_digit (unat c div 16) \<noteq> 0x2F" using unat_less [of c] by (intro hex_digit_slash) simp
    then show ?thesis using Cons by (auto simp: hex_byte_def)
  qed simp
next
  case (Cons c a)
  show ?case
  proof (cases b)
    case Nil
    have "hex_digit (unat c div 16) \<noteq> 0x2F" using unat_less [of c] by (intro hex_digit_slash) simp
    then show ?thesis using Nil by (auto simp: hex_byte_def)
  next
    case (Cons d b')
    have "hex_byte c @ u = hex_byte d @ v \<longleftrightarrow> c = d \<and> u = v" for u v
      using hex_byte_inject [of c d] by (auto simp: hex_byte_def)
    then show ?thesis using Cons.IH Cons by simp
  qed
qed

lemma generation_key_inject:
  "published_frontier_generation_key sc g = published_frontier_generation_key sc' g'
     \<longleftrightarrow> sc = sc' \<and> g = g'"
  using hex_scope_inject [of sc "decimal (unat g)" sc' "decimal (unat g')"]
  by (auto simp: published_frontier_generation_key_def decimal_inject unsigned_word_eqI)

lemma generation_key_other:
  "published_frontier_generation_key sc g \<noteq> LEASE_KEY"
  "published_frontier_generation_key sc g \<noteq> PUBLISHED_FRONTIER_KEY"
  by (simp_all add: published_frontier_generation_key_def LEASE_KEY_def PUBLISHED_FRONTIER_KEY_def)

lemma lease_key_other: "LEASE_KEY \<noteq> PUBLISHED_FRONTIER_KEY"
  by (simp add: LEASE_KEY_def PUBLISHED_FRONTIER_KEY_def)

section \<open>The meet of a membership\<close>

lemma try_fold_meet_Some:
  "try_fold_meet x es = Some m \<longleftrightarrow>
     None \<notin> set es \<and> m = Min (insert x (set (map the es)))"
proof (induction es arbitrary: x)
  case (Cons e es)
  show ?case
  proof (cases e)
    case (Some v)
    have "Min (insert (fixed_membership_meet x v) (set (map the es)))
        = Min (insert x (insert v (set (map the es))))"
      by (cases "set (map the es) = {}")
         (auto simp: fixed_membership_meet_def min_def Min_insert)
    then show ?thesis using Some Cons by simp
  qed simp
qed auto

lemma compute_membership_meet_Some:
  "compute_membership_meet i = Some e \<longleftrightarrow>
     (\<exists>m. membership i = Some m \<and> active m \<noteq> []
        \<and> (\<forall>sh \<in> set (bt_keys (active m)). member_epoch i sh \<noteq> None)
        \<and> e = Min ((\<lambda>sh. the (member_epoch i sh)) ` set (bt_keys (active m))))"
proof (cases "membership i")
  case (Some m)
  show ?thesis
  proof (cases "bt_keys (active m)")
    case (Cons k ks)
    have "active m \<noteq> []" using Cons by auto
    have "None \<notin> set (map (member_epoch i) ks) \<longleftrightarrow> (\<forall>sh \<in> set ks. member_epoch i sh \<noteq> None)"
      by (auto simp: image_iff) (metis not_None_eq)
    moreover have "set (map the (map (member_epoch i) ks)) = (\<lambda>sh. the (member_epoch i sh)) ` set ks"
      by auto
    ultimately show ?thesis
      using Some Cons \<open>active m \<noteq> []\<close>
      by (cases "member_epoch i k")
         (simp_all add: compute_membership_meet_def try_fold_meet_Some del: set_map list.set_map)
  qed (simp add: Some compute_membership_meet_def)
qed (simp add: compute_membership_meet_def)

lemma compute_membership_meet_le:
  assumes "compute_membership_meet i = Some e" "membership i = Some m" "(sh, inc) \<in> set (active m)"
  shows "\<exists>e'. member_epoch i sh = Some e' \<and> e \<le> e'"
proof -
  have sh: "sh \<in> set (bt_keys (active m))" using assms(3) by force
  then have "member_epoch i sh \<noteq> None" "e = Min ((\<lambda>sh. the (member_epoch i sh)) ` set (bt_keys (active m)))"
    using assms(1,2) by (auto simp: compute_membership_meet_Some)
  then show ?thesis using sh by (auto intro!: Min_le rev_image_eqI)
qed

section \<open>Membership operations keep the aggregator's invariant\<close>

lemma good_frontier_active:
  assumes "conforms members i" "membership i = Some m"
  shows "good_frontier members dur (membership_key i) p \<longleftrightarrow>
    active m \<noteq> [] \<and> (\<forall>sh inc. bt_get (active m) sh = Some inc \<longrightarrow> p \<le> dur sh inc)"
proof -
  have m: "bt_ok (active m)" "members (scope m) (generation m) = active m"
    using assms by (auto simp: conforms_def)
  then show ?thesis
    using assms(2) by (auto simp: good_frontier_def membership_key_def bt_get_in_set)
qed

lemma recompute_fields [simp]:
  "membership (recompute_membership_publication i) = membership i"
  "membership_epochs (recompute_membership_publication i) = membership_epochs i"
  "lease (recompute_membership_publication i) = lease i"
  "membership_key (recompute_membership_publication i) = membership_key i"
  "member_epoch (recompute_membership_publication i) = member_epoch i"
  "conforms members (recompute_membership_publication i) = conforms members i"
  by (simp_all add: recompute_membership_publication_def membership_key_def conforms_def
      member_epoch_def fun_eq_iff split: option.splits)

lemma member_epoch_update [simp]:
  "member_epoch (i\<lparr>membership := m, membership_epochs := bt_insert sh e es\<rparr>) sh'
     = (if sh' = sh then e else member_epoch (i\<lparr>membership := m, membership_epochs := es\<rparr>) sh')"
  "member_epoch (i\<lparr>membership_epochs := bt_insert sh e es\<rparr>) sh'
     = (if sh' = sh then e else member_epoch (i\<lparr>membership_epochs := es\<rparr>) sh')"
  "member_epoch (i\<lparr>membership := m, membership_epochs := bt_remove sh es\<rparr>) sh'
     = (if sh' = sh then None else member_epoch (i\<lparr>membership := m, membership_epochs := es\<rparr>) sh')"
  "member_epoch (i\<lparr>membership := m, membership_epochs := membership_epochs i\<rparr>) sh' = member_epoch i sh'"
  "member_epoch (i\<lparr>membership := m\<rparr>) sh' = member_epoch i sh'"
  by (simp_all add: member_epoch_def)

text \<open>
  Before a recomputation the invariant may be open at one place: a publication may remain while the
  active set is empty.
\<close>

definition pre_inv ::
  "(bytes \<Rightarrow> u64 \<Rightarrow> (u64, u64) omap) \<Rightarrow> (u64 \<Rightarrow> u64 \<Rightarrow> u64) \<Rightarrow> Inner \<Rightarrow> FrontierMembership \<Rightarrow> bool" where
  "pre_inv members dur i m \<longleftrightarrow>
     conforms members i \<and> membership i = Some m
     \<and> (\<forall>sh inc e. bt_get (active m) sh = Some inc \<longrightarrow> member_epoch i sh = Some e \<longrightarrow> e \<le> dur sh inc)
     \<and> (\<forall>p sh inc. published i = Some p \<longrightarrow> bt_get (active m) sh = Some inc \<longrightarrow> p \<le> dur sh inc)"

lemma agg_inv_pre: "agg_inv members dur i \<Longrightarrow> membership i = Some m \<Longrightarrow> pre_inv members dur i m"
  using good_frontier_active [of members i m] by (auto simp: agg_inv_def pre_inv_def)

lemma recompute_inv:
  assumes "pre_inv members dur i m"
  shows "agg_inv members dur (recompute_membership_publication i)"
proof -
  let ?r = "recompute_membership_publication i"
  have c: "conforms members i" and m: "membership i = Some m"
    using assms by (auto simp: pre_inv_def)
  have "good_frontier members dur (membership_key i) p" if "published ?r = Some p" for p
  proof -
    have le: "p \<le> dur sh inc" if sh: "bt_get (active m) sh = Some inc" for sh inc
    proof (cases "compute_membership_meet i")
      case None
      then show ?thesis
        using assms sh \<open>published ?r = Some p\<close>
        by (auto simp: pre_inv_def recompute_membership_publication_def split: if_splits)
    next
      case (Some e)
      have "(sh, inc) \<in> set (active m)" using sh by (rule map_of_SomeD)
      from compute_membership_meet_le [OF Some m this]
      have "e \<le> dur sh inc" using assms sh by (auto simp: pre_inv_def intro: order_trans)
      then show ?thesis
        using Some assms sh \<open>published ?r = Some p\<close>
        by (auto simp: pre_inv_def recompute_membership_publication_def advance_publication_def
            split: option.splits if_splits)
    qed
    moreover have "active m \<noteq> []"
      using \<open>published ?r = Some p\<close> m
      by (auto simp: recompute_membership_publication_def compute_membership_meet_Some
          split: option.splits if_splits)
    ultimately show ?thesis by (simp add: good_frontier_active [OF c m])
  qed
  then show ?thesis using assms by (simp add: agg_inv_def pre_inv_def)
qed

lemma caught_up_Ok: "caught_up i b = Ok u \<Longrightarrow> published i = Some p \<Longrightarrow> p \<le> b"
  by (auto simp: caught_up_def activation_preserves_publication_def split: option.splits if_splits)

lemma activate_inv:
  assumes inv: "agg_inv members dur i" and a: "activate_shard sh inc b i = Ok (g, i')"
    and "b \<le> dur sh inc" "conforms members i'"
  shows "agg_inv members dur i'"
proof -
  obtain m u where m: "membership i = Some m" and b: "caught_up i b = Ok u"
    and i': "i' = recompute_membership_publication (i\<lparr>
         membership := Some (m\<lparr>generation := g, active := bt_insert sh inc (active m)\<rparr>),
         membership_epochs := bt_insert sh (Some b) (membership_epochs i)\<rparr>)"
    using a by (auto simp: activate_shard_def rbind_Ok split: if_splits)
  have "published i = Some p \<Longrightarrow> p \<le> dur sh inc" for p
    using caught_up_Ok [OF b] assms(3) by (rule order_trans)
  moreover have "pre_inv members dur i m" by (rule agg_inv_pre [OF inv m])
  ultimately show ?thesis
    unfolding i' using assms(3,4)
    by (intro recompute_inv) (auto simp: pre_inv_def i' split: if_splits)
qed

lemma retire_inv:
  assumes inv: "agg_inv members dur i" and a: "retire_shard sh i = Ok (g, i')" and "conforms members i'"
  shows "agg_inv members dur i'"
proof -
  obtain m where m: "membership i = Some m"
    and i': "i' = recompute_membership_publication (i\<lparr>
         membership := Some (m\<lparr>generation := g, active := bt_remove sh (active m)\<rparr>),
         membership_epochs := bt_remove sh (membership_epochs i)\<rparr>)"
    using a by (auto simp: retire_shard_def rbind_Ok split: if_splits)
  have "pre_inv members dur i m" by (rule agg_inv_pre [OF inv m])
  then show ?thesis
    unfolding i' using assms(3)
    by (intro recompute_inv) (auto simp: pre_inv_def i' split: if_splits)
qed

lemma replace_inv:
  assumes inv: "agg_inv members dur i" and a: "replace_shard old_sh sh inc b i = Ok (g, i')"
    and "b \<le> dur sh inc" "conforms members i'"
  shows "agg_inv members dur i'"
proof -
  obtain m u where m: "membership i = Some m" and b: "caught_up i b = Ok u"
    and i': "i' = recompute_membership_publication (i\<lparr>
         membership := Some (m\<lparr>generation := g, active := bt_insert sh inc (bt_remove old_sh (active m))\<rparr>),
         membership_epochs := bt_insert sh (Some b) (bt_remove old_sh (membership_epochs i))\<rparr>)"
    using a by (auto simp: replace_shard_def rbind_Ok split: if_splits)
  have "published i = Some p \<Longrightarrow> p \<le> dur sh inc" for p
    using caught_up_Ok [OF b] assms(3) by (rule order_trans)
  moreover have "pre_inv members dur i m" by (rule agg_inv_pre [OF inv m])
  ultimately show ?thesis
    unfolding i' using assms(3,4)
    by (intro recompute_inv) (auto simp: pre_inv_def i' split: if_splits)
qed

text \<open>A report is admitted exactly when its version, scope, generation and incarnation are current.\<close>

lemma admit_frontier_report_max:
  "admit_frontier_report v a g inc cur rep = (if v = 1 \<and> a \<and> g \<and> inc then Some (max cur rep) else None)"
  by (auto simp: admit_frontier_report_def max_def)

lemma ingest_membership_report_Ok:
  "ingest_membership_report r i = Ok i' \<longleftrightarrow>
     (\<exists>m. membership i = Some m \<and> version r = FRONTIER_REPORT_VERSION \<and> report_scope r = scope m
        \<and> report_generation r = generation m
        \<and> bt_get (active m) (shard_id r) = Some (incarnation r)
        \<and> i' = recompute_membership_publication (i\<lparr>membership_epochs :=
            bt_insert (shard_id r) (Some (case member_epoch i (shard_id r) of
              None \<Rightarrow> report_epoch r | Some e \<Rightarrow> max e (report_epoch r))) (membership_epochs i)\<rparr>))"
proof (cases "membership i")
  case (Some m)
  have "max (case member_epoch i (shard_id r) of None \<Rightarrow> 0 | Some e \<Rightarrow> e) (report_epoch r)
      = (case member_epoch i (shard_id r) of None \<Rightarrow> report_epoch r | Some e \<Rightarrow> max e (report_epoch r))"
    by (simp add: max_def split: option.splits)
  then show ?thesis
    using Some
    by (simp add: ingest_membership_report_def admit_frontier_report_max Let_def
        FRONTIER_REPORT_VERSION_def) auto
qed (simp add: ingest_membership_report_def)

lemma ingest_report_inv:
  assumes inv: "agg_inv members dur i" and a: "ingest_membership_report r i = Ok i'"
    and "report_epoch r \<le> dur (shard_id r) (incarnation r)"
  shows "agg_inv members dur i'"
proof -
  define e where "e = (case member_epoch i (shard_id r) of
              None \<Rightarrow> report_epoch r | Some e \<Rightarrow> max e (report_epoch r))"
  obtain m where m: "membership i = Some m" and inc: "bt_get (active m) (shard_id r) = Some (incarnation r)"
    and i': "i' = recompute_membership_publication (i\<lparr>membership_epochs :=
            bt_insert (shard_id r) (Some e) (membership_epochs i)\<rparr>)"
    using a unfolding ingest_membership_report_Ok e_def by blast
  have pre: "pre_inv members dur i m" by (rule agg_inv_pre [OF inv m])
  then have "e \<le> dur (shard_id r) (incarnation r)"
    using assms(3) inc by (auto simp: e_def pre_inv_def split: option.splits)
  then show ?thesis
    unfolding i' using pre inc
    by (intro recompute_inv) (auto simp: pre_inv_def conforms_def member_epoch_def split: if_splits)
qed

section \<open>Every step keeps the published frontiers safe\<close>

lemma good_frontier_mono:
  "good_frontier members dur mk e \<Longrightarrow> (\<And>sh inc. dur sh inc \<le> dur' sh inc) \<Longrightarrow>
     good_frontier members dur' mk e"
  by (fastforce simp: good_frontier_def split: option.splits intro: order_trans)

lemma safe_inv_mono:
  assumes "safe_inv members c" "\<And>sh inc. durable c sh inc \<le> dur' sh inc"
  shows "safe_inv members (c\<lparr>durable := dur'\<rparr>)"
proof -
  note mono = good_frontier_mono [OF _ assms(2)]
  have "agg_inv members dur' (inner (aggs c a))" for a
    using assms mono by (fastforce simp: safe_inv_def agg_inv_def intro: order_trans)
  moreover have "pc_safe members dur' (pc (aggs c a))" for a
    using assms(1) mono unfolding safe_inv_def pc_safe_def
    by (auto split: AggPc.splits option.splits)
  moreover have "store_safe members dur' (lstore c)"
    using assms(1) mono by (auto simp: safe_inv_def store_safe_def)
  ultimately show ?thesis by (simp add: safe_inv_def)
qed

lemma agg_inv_lease [simp]: "agg_inv members dur (i\<lparr>lease := l\<rparr>) = agg_inv members dur i"
  by (simp add: agg_inv_def conforms_def membership_key_def member_epoch_def)

lemma set_publisher_inv [simp]: "agg_inv members dur (set_publisher b i) = agg_inv members dur i"
  by (simp add: set_publisher_def)

lemma raise_published_inv:
  assumes "agg_inv members dur i" "good_frontier members dur mk e"
  shows "agg_inv members dur (raise_published mk e i)"
  using assms
  by (auto simp: raise_published_def agg_inv_def conforms_def membership_key_def member_epoch_def)

lemma acquire_finish_inv:
  assumes "agg_inv members dur i" "\<And>e. pub = Some e \<Longrightarrow> good_frontier members dur mk e"
  shows "agg_inv members dur (acquire_finish mk t pub i)"
  using assms by (auto simp: acquire_finish_def Let_def intro: raise_published_inv split: option.splits)

lemma fresh_inv: "fresh_agg members x \<Longrightarrow> agg_inv members dur (inner x) \<and> pc x = AIdle"
proof -
  assume f: "fresh_agg members x"
  have ne: "\<forall>e \<in> set (membership_epochs (inner x)). snd e = None" and "published (inner x) = None"
    using f by (auto simp: fresh_agg_def with_lease_store_def with_membership_and_lease_store_def
        with_membership_def inner_new_def)
  have "member_epoch (inner x) sh = None" for sh
    using ne by (cases "bt_get (membership_epochs (inner x)) sh")
      (auto simp: member_epoch_def dest!: map_of_SomeD)
  then show ?thesis using f \<open>published (inner x) = None\<close> by (simp add: agg_inv_def fresh_agg_def)
qed

lemma store_safe_put:
  assumes "store_safe members dur s" "\<And>sc g. k \<noteq> published_frontier_generation_key sc g"
  shows "store_safe members dur (s\<lparr>db := snd (db_put k v io (db s))\<rparr>)"
  using assms by (auto simp: store_safe_def db_put_def read_published_key_def split: db_io.splits)

lemma store_safe_ls:
  "store_safe members dur s \<Longrightarrow> published_by_generation l = published_by_generation (ls s) \<Longrightarrow>
     store_safe members dur (s\<lparr>ls := l\<rparr>)"
  by (simp add: store_safe_def)

lemma acquire_store_safe:
  assumes "store_safe members dur s" "acquire_publisher_lease agg t io s = (r, s')"
  shows "store_safe members dur s'"
proof -
  let ?d = "snd (db_put LEASE_KEY (to_be 8 (the (checked_add_w (fence_token (ls s)) 1)) @ to_be 8 agg) io (db s))"
  have "store_safe members dur (s\<lparr>db := ?d\<rparr>)"
    using assms(1) generation_key_other(1) by (intro store_safe_put) metis+
  then show ?thesis
    using assms by (auto simp: acquire_publisher_lease_def store_safe_def Let_def
        split: if_splits option.splits prod.splits)
qed

lemma store_safe_generation_put:
  assumes "store_safe members dur s" "good_frontier members dur (Some (sc, g)) e"
    and d: "d = snd (db_put (published_frontier_generation_key sc g) (to_be 8 e) io (db s))"
  shows "store_safe members dur (s\<lparr>db := d\<rparr>)"
    "store_safe members dur (s\<lparr>db := d,
       ls := (ls s)\<lparr>published_by_generation := (published_by_generation (ls s))((sc, g) \<mapsto> e),
                     last_write_synced := True\<rparr>\<rparr>)"
proof -
  have "good_frontier members dur (Some (sc', g')) e'"
    if "read_published_key d (published_frontier_generation_key sc' g') = Some e'" for sc' g' e'
    using that assms
    by (cases "sc' = sc \<and> g' = g")
       (auto simp: db_put_def read_published_key_def store_safe_def generation_key_inject from_be_to_be
         split: db_io.splits if_splits)
  then show "store_safe members dur (s\<lparr>db := d\<rparr>)"
    "store_safe members dur (s\<lparr>db := d,
       ls := (ls s)\<lparr>published_by_generation := (published_by_generation (ls s))((sc, g) \<mapsto> e),
                     last_write_synced := True\<rparr>\<rparr>)"
    using assms(1,2) by (auto simp: store_safe_def)
qed

lemma publish_store_safe:
  assumes s: "store_safe members dur s" and g: "good_frontier members dur mk e"
    and p: "publish_write mk held e io s = (r, s')"
  shows "store_safe members dur s'"
proof (cases mk)
  case None
  have "store_safe members dur (s\<lparr>db := snd (db_put PUBLISHED_FRONTIER_KEY (to_be 8 e) io (db s))\<rparr>)"
    using s generation_key_other(2) by (intro store_safe_put) metis+
  then show ?thesis
    using s p None by (auto simp: publish_write_def publish_frontier_def publish_frontier_inner_def
        store_safe_def Let_def split: if_splits option.splits prod.splits)
next
  case (Some m)
  then obtain sc gen where m: "mk = Some (sc, gen)" by (cases m) auto
  note put = store_safe_generation_put [OF s _ refl, of sc gen e io]
  show ?thesis
    using s p put g m
    by (auto simp: publish_write_def publish_frontier_for_generation_def publish_frontier_inner_def
        Let_def split: if_splits prod.splits)
qed

lemma handoff_read_safe:
  assumes s: "store_safe members dur s" and r: "handoff_read mk rd s = (r, s')"
  shows "store_safe members dur s' \<and> (\<forall>e. r = Ok (Some e) \<longrightarrow> good_frontier members dur mk e)"
proof (cases mk)
  case None
  then show ?thesis using s r by (auto simp: handoff_read_def good_frontier_def)
next
  case (Some m)
  then obtain sc g where m: "mk = Some (sc, g)" by (cases m) auto
  show ?thesis
    using s r
    by (auto simp: m handoff_read_def read_published_frontier_after_handoff_for_generation_def
        store_safe_def Let_def split: option.splits if_splits)
qed

lemma safe_set_agg:
  assumes "safe_inv members c" "agg_inv members (durable c) i" "pc_safe members (durable c) p"
    "store_safe members (durable c) s"
  shows "safe_inv members (set_agg a i p (c\<lparr>lstore := s\<rparr>))"
  using assms by (simp add: safe_inv_def set_agg_def)

lemma safe_set_agg_same:
  assumes "safe_inv members c" "agg_inv members (durable c) i" "pc_safe members (durable c) p"
  shows "safe_inv members (set_agg a i p c)"
  using assms by (simp add: safe_inv_def set_agg_def)

lemma try_publish_start_good:
  assumes inv: "agg_inv members dur i" and t: "try_publish_start i = Ok (Some (mk, held, meet))"
  shows "good_frontier members dur mk meet"
    and "\<exists>l. lease i = Some l \<and> is_publisher l \<and> lease_token l = held"
proof -
  show "\<exists>l. lease i = Some l \<and> is_publisher l \<and> lease_token l = held"
    using t by (auto simp: try_publish_start_def rbind_Ok split: if_splits option.splits)
  have mk: "mk = membership_key i"
    using t by (auto simp: try_publish_start_def rbind_Ok split: if_splits option.splits)
  show "good_frontier members dur mk meet"
  proof (cases "membership i")
    case None
    then show ?thesis by (simp add: mk membership_key_def good_frontier_def)
  next
    case (Some m)
    then have meet: "compute_membership_meet i = Some meet"
      using t by (auto simp: try_publish_start_def rbind_Ok split: if_splits option.splits)
    have c: "conforms members i" using inv by (simp add: agg_inv_def)
    have "meet \<le> dur sh inc" if sh: "bt_get (active m) sh = Some inc" for sh inc
      using compute_membership_meet_le [OF meet Some map_of_SomeD [OF sh]] inv sh Some
      unfolding agg_inv_def by (meson order_trans)
    moreover have "active m \<noteq> []" using meet Some by (auto simp: compute_membership_meet_Some)
    ultimately show ?thesis unfolding mk by (simp add: good_frontier_active [OF c Some])
  qed
qed

lemma safe_step: "safe_inv members c \<Longrightarrow> fa_step members c ev c' \<Longrightarrow> safe_inv members c'"
proof -
  assume inv: "safe_inv members c"
  then have ai: "agg_inv members (durable c) (inner (aggs c a))"
    and ps: "pc_safe members (durable c) (pc (aggs c a))"
    and st: "store_safe members (durable c) (lstore c)" for a
    by (simp_all add: safe_inv_def)
  assume "fa_step members c ev c'"
  then show ?thesis
  proof cases
    case (advance sh inc e)
    then show ?thesis using safe_inv_mono [OF inv] by simp
  next
    case (report r a i)
    show ?thesis unfolding report(2)
      by (rule safe_set_agg_same [OF inv ingest_report_inv [OF ai report(4,3)] ps])
  next
    case (activate b sh inc a g i)
    show ?thesis unfolding activate(2)
      by (rule safe_set_agg_same [OF inv activate_inv [OF ai activate(4,3,5)] ps])
  next
    case (retire sh a g i)
    show ?thesis unfolding retire(2)
      by (rule safe_set_agg_same [OF inv retire_inv [OF ai retire(3,4)] ps])
  next
    case (replace b new_sh inc old_sh a g i)
    show ?thesis unfolding replace(2)
      by (rule safe_set_agg_same [OF inv replace_inv [OF ai replace(4,3,5)] ps])
  next
    case (acq_grant a mk t l io tok s rd)
    show ?thesis unfolding acq_grant(2)
      by (rule safe_set_agg [OF inv ai _ acquire_store_safe [OF st acq_grant(5)]]) (simp add: pc_safe_def)
  next
    case (acq_lose a mk t l io p q s rd)
    show ?thesis unfolding acq_lose(2)
      by (rule safe_set_agg [OF inv _ _ acquire_store_safe [OF st acq_lose(5)]])
         (simp_all add: pc_safe_def ai)
  next
    case (acq_fail a mk t l io r s rd)
    show ?thesis unfolding acq_fail(2)
      by (rule safe_set_agg [OF inv ai _ acquire_store_safe [OF st acq_fail(5)]]) (simp add: pc_safe_def)
  next
    case (acq_read a mk tok rd pub s io)
    note r = handoff_read_safe [OF st acq_read(4)]
    show ?thesis unfolding acq_read(2)
      by (rule safe_set_agg [OF inv ai _ conjunct1 [OF r]])
         (use r in \<open>simp add: pc_safe_def split: option.splits\<close>)
  next
    case (acq_read_fail a mk tok rd r s io)
    show ?thesis unfolding acq_read_fail(2)
      by (rule safe_set_agg [OF inv ai _ conjunct1 [OF handoff_read_safe [OF st acq_read_fail(4)]]])
         (simp add: pc_safe_def)
  next
    case (acq_finish a mk tok pub io rd)
    have "pub = Some e \<Longrightarrow> good_frontier members (durable c) mk e" for e
      using ps [of a] acq_finish(3) by (simp add: pc_safe_def)
    then show ?thesis unfolding acq_finish(2)
      by (intro safe_set_agg_same [OF inv acquire_finish_inv [OF ai]]) (simp_all add: pc_safe_def)
  next
    case (pub_start a mk held meet io)
    show ?thesis unfolding pub_start(2)
      by (rule safe_set_agg_same [OF inv ai])
         (simp add: pc_safe_def try_publish_start_good(1) [OF ai pub_start(4)])
  next
    case (pub_check a mk held meet io)
    show ?thesis unfolding pub_check(2)
      by (rule safe_set_agg_same [OF inv ai]) (use ps [of a] pub_check(3) in \<open>simp add: pc_safe_def\<close>)
  next
    case (pub_write a mk held meet io s)
    have g: "good_frontier members (durable c) mk meet"
      using ps [of a] pub_write(3) by (simp add: pc_safe_def)
    show ?thesis unfolding pub_write(2)
      by (rule safe_set_agg [OF inv ai _ publish_store_safe [OF st g pub_write(4)]])
         (simp add: pc_safe_def g)
  next
    case (pub_fail a mk held meet io r s)
    have g: "good_frontier members (durable c) mk meet"
      using ps [of a] pub_fail(3) by (simp add: pc_safe_def)
    show ?thesis unfolding pub_fail(2)
      by (rule safe_set_agg [OF inv ai _ publish_store_safe [OF st g pub_fail(4)]])
         (simp add: pc_safe_def)
  next
    case (pub_finish a mk meet io)
    have g: "good_frontier members (durable c) mk meet"
      using ps [of a] pub_finish(3) by (simp add: pc_safe_def)
    show ?thesis unfolding pub_finish(2)
      by (rule safe_set_agg_same [OF inv raise_published_inv [OF ai g]]) (simp add: pc_safe_def)
  next
    case (pub_demote a mk held meet io)
    show ?thesis unfolding pub_demote(2)
      by (rule safe_set_agg_same [OF inv]) (simp_all add: pc_safe_def ai)
  next
    case (acq_start a io rd)
    show ?thesis unfolding acq_start(2)
      by (rule safe_set_agg_same [OF inv ai]) (simp add: pc_safe_def)
  next
    case (acq_peek a mk io rd)
    show ?thesis unfolding acq_peek(2)
      by (rule safe_set_agg_same [OF inv ai]) (simp add: pc_safe_def)
  next
    case (restart xs)
    have "store_safe members (durable c) (lease_store_open (db (lstore c)))"
      using st by (simp add: store_safe_def lease_store_open_def Let_def split: prod.splits)
    then show ?thesis unfolding restart(2)
      using fresh_inv [OF restart(3)] by (simp add: safe_inv_def pc_safe_def)
  qed
qed

lemma safe_init: "fa_init members c \<Longrightarrow> safe_inv members c"
proof -
  assume i: "fa_init members c"
  then have "agg_inv members (durable c) (inner (aggs c a)) \<and> pc (aggs c a) = AIdle" for a
    by (intro fresh_inv) (simp add: fa_init_def)
  moreover have "store_safe members (durable c) (lstore c)"
    using i by (simp add: fa_init_def store_safe_def lease_store_open_def Let_def
        read_published_key_def split: prod.splits)
  ultimately show ?thesis by (simp add: safe_inv_def pc_safe_def)
qed

section \<open>At most one aggregator holds a token\<close>

lemma fence_set_agg:
  assumes "fence_inv c" "fence_token (ls (lstore c)) \<le> fence_token (ls s)"
    and "\<And>t. holds \<lparr>inner = i, pc = p\<rparr> t \<Longrightarrow>
      holds (aggs c a) t \<or> (fence_token (ls (lstore c)) < t \<and> t \<le> fence_token (ls s))"
  shows "fence_inv (set_agg a i p (c\<lparr>lstore := s\<rparr>))"
proof -
  let ?f = "fence_token (ls (lstore c))"
  let ?x = "\<lparr>inner = i, pc = p\<rparr>"
  have old: "holds (aggs c b) t \<Longrightarrow> t \<le> ?f" "holds (aggs c b) t \<Longrightarrow> holds (aggs c d) t \<Longrightarrow> b = d" for b d t
    using assms(1) by (auto simp: fence_inv_def)
  have new: "holds ?x t \<Longrightarrow> t \<le> fence_token (ls s)" for t
    using assms(2,3) old(1) by (meson order_trans)
  have uniq: "holds ?x t \<Longrightarrow> holds (aggs c b) t \<Longrightarrow> a = b" for t b
    using assms(3) old by (meson leD)
  show ?thesis
    unfolding fence_inv_def set_agg_def using old new uniq assms(2)
    by (auto intro: order_trans) 
qed

lemma fence_set_agg_same:
  assumes "fence_inv c" "\<And>t. holds \<lparr>inner = i, pc = p\<rparr> t \<Longrightarrow> holds (aggs c a) t"
  shows "fence_inv (set_agg a i p c)"
  using fence_set_agg [OF assms(1), of "lstore c" i p a] assms(2) by simp

lemma publish_write_fence: "publish_write mk held e io s = (r, s') \<Longrightarrow> fence_token (ls s') = fence_token (ls s)"
  by (auto simp: publish_write_def publish_frontier_def publish_frontier_for_generation_def
      publish_frontier_inner_def Let_def split: option.splits if_splits prod.splits)

lemma handoff_read_fence: "handoff_read mk rd s = (r, s') \<Longrightarrow> fence_token (ls s') = fence_token (ls s)"
  by (auto simp: handoff_read_def read_published_frontier_after_handoff_for_generation_def Let_def
      split: option.splits if_splits prod.splits)

lemma acquire_fence:
  "acquire_publisher_lease agg t io s = (r, s') \<Longrightarrow>
     (\<forall>tok. r = Ok tok \<longrightarrow> fence_token (ls s) < tok \<and> fence_token (ls s') = tok \<and> holder (ls s') = Some agg)
     \<and> (\<not> is_ok r \<longrightarrow> fence_token (ls s') = fence_token (ls s))"
  by (auto simp: acquire_publisher_lease_def checked_add_w_Some word_less_nat_alt Let_def
      split: option.splits if_splits prod.splits)


lemma fresh_holds: "fresh_agg members x \<Longrightarrow> \<not> holds x t"
  by (auto simp: fresh_agg_def holds_def with_lease_store_def with_membership_and_lease_store_def
      lease_wiring_def)

lemma holds_lease_cong:
  "lease i' = lease (inner x) \<Longrightarrow> pc x = p \<Longrightarrow> holds \<lparr>inner = i', pc = p\<rparr> t = holds x t"
  by (simp add: holds_def)

lemma membership_ops_lease:
  "ingest_membership_report r i = Ok i' \<Longrightarrow> lease i' = lease i"
  "activate_shard sh inc b i = Ok (g, i') \<Longrightarrow> lease i' = lease i"
  "retire_shard sh i = Ok (g, i') \<Longrightarrow> lease i' = lease i"
  "replace_shard old_sh sh inc b i = Ok (g, i') \<Longrightarrow> lease i' = lease i"
  by (auto simp: ingest_membership_report_Ok activate_shard_def retire_shard_def replace_shard_def
      rbind_Ok split: if_splits)

lemma raise_published_lease [simp]: "lease (raise_published mk e i) = lease i"
  by (simp add: raise_published_def)

lemma fence_step: "fence_inv c \<Longrightarrow> fa_step members c ev c' \<Longrightarrow> fence_inv c'"
proof -
  assume inv: "fence_inv c"
  assume "fa_step members c ev c'"
  then show ?thesis
  proof cases
    case (advance sh inc e)
    then show ?thesis using inv by (simp add: fence_inv_def)
  next
    case (report r a i)
    show ?thesis unfolding report(2)
      by (rule fence_set_agg_same [OF inv])
         (simp add: holds_lease_cong membership_ops_lease(1) [OF report(4)])
  next
    case (activate b sh inc a g i)
    show ?thesis unfolding activate(2)
      by (rule fence_set_agg_same [OF inv])
         (simp add: holds_lease_cong membership_ops_lease(2) [OF activate(4)])
  next
    case (retire sh a g i)
    show ?thesis unfolding retire(2)
      by (rule fence_set_agg_same [OF inv])
         (simp add: holds_lease_cong membership_ops_lease(3) [OF retire(3)])
  next
    case (replace b new_sh inc old_sh a g i)
    show ?thesis unfolding replace(2)
      by (rule fence_set_agg_same [OF inv])
         (simp add: holds_lease_cong membership_ops_lease(4) [OF replace(4)])
  next
    case (acq_start a io rd)
    show ?thesis unfolding acq_start(2)
      by (rule fence_set_agg_same [OF inv]) (simp add: holds_def)
  next
    case (acq_peek a mk io rd)
    show ?thesis unfolding acq_peek(2)
      by (rule fence_set_agg_same [OF inv]) (simp add: holds_def)
  next
    case (acq_grant a mk t l io tok s rd)
    have f: "fence_token (ls (lstore c)) < tok" "fence_token (ls s) = tok"
      using acquire_fence [OF acq_grant(5)] by simp_all
    show ?thesis unfolding acq_grant(2)
      by (rule fence_set_agg [OF inv]) (use f in \<open>auto simp: holds_def\<close>)
  next
    case (acq_lose a mk t l io p q s rd)
    show ?thesis unfolding acq_lose(2)
      by (rule fence_set_agg [OF inv])
         (use acquire_fence [OF acq_lose(5)] in \<open>auto simp: holds_def set_publisher_def\<close>)
  next
    case (acq_fail a mk t l io r s rd)
    show ?thesis unfolding acq_fail(2)
      by (rule fence_set_agg [OF inv])
         (use acquire_fence [OF acq_fail(5)] acq_fail(6) in \<open>auto simp: holds_def\<close>)
  next
    case (acq_read a mk tok rd pub s io)
    show ?thesis unfolding acq_read(2)
      by (rule fence_set_agg [OF inv])
         (use handoff_read_fence [OF acq_read(4)] acq_read(3) in \<open>auto simp: holds_def\<close>)
  next
    case (acq_read_fail a mk tok rd r s io)
    show ?thesis unfolding acq_read_fail(2)
      by (rule fence_set_agg [OF inv])
         (use handoff_read_fence [OF acq_read_fail(4)] in \<open>auto simp: holds_def\<close>)
  next
    case (acq_finish a mk tok pub io rd)
    show ?thesis unfolding acq_finish(2)
      by (rule fence_set_agg_same [OF inv])
         (use acq_finish(3) in \<open>auto simp: holds_def acquire_finish_def Let_def split: option.splits\<close>)
  next
    case (pub_start a mk held meet io)
    have "\<exists>l. lease (inner (aggs c a)) = Some l \<and> is_publisher l \<and> lease_token l = held"
      using pub_start(4) by (auto simp: try_publish_start_def rbind_Ok split: if_splits option.splits)
    then show ?thesis unfolding pub_start(2)
      by (intro fence_set_agg_same [OF inv]) (auto simp: holds_def)
  next
    case (pub_check a mk held meet io)
    show ?thesis unfolding pub_check(2)
      by (rule fence_set_agg_same [OF inv]) (use pub_check(3) in \<open>auto simp: holds_def\<close>)
  next
    case (pub_demote a mk held meet io)
    show ?thesis unfolding pub_demote(2)
      by (rule fence_set_agg_same [OF inv]) (auto simp: holds_def set_publisher_def)
  next
    case (pub_write a mk held meet io s)
    show ?thesis unfolding pub_write(2)
      by (rule fence_set_agg [OF inv])
         (use publish_write_fence [OF pub_write(4)] in \<open>auto simp: holds_def\<close>)
  next
    case (pub_fail a mk held meet io r s)
    show ?thesis unfolding pub_fail(2)
      by (rule fence_set_agg [OF inv])
         (use publish_write_fence [OF pub_fail(4)] in \<open>auto simp: holds_def\<close>)
  next
    case (pub_finish a mk meet io)
    show ?thesis unfolding pub_finish(2)
      by (rule fence_set_agg_same [OF inv]) (auto simp: holds_def)
  next
    case (restart xs)
    then show ?thesis using fresh_holds [OF restart(3)] by (simp add: fence_inv_def)
  qed
qed

lemma fence_init: "fa_init members c \<Longrightarrow> fence_inv c"
  using fresh_holds by (auto simp: fa_init_def fence_inv_def) 

definition fa_inv :: "(bytes \<Rightarrow> u64 \<Rightarrow> (u64, u64) omap) \<Rightarrow> Cluster \<Rightarrow> bool" where
  "fa_inv members c \<longleftrightarrow> safe_inv members c \<and> fence_inv c"

interpretation frontier_cluster: transition_system "fa_init members" "fa_step members" "fa_inv members"
  for members
  by unfold_locales (auto simp: fa_inv_def intro: safe_init fence_init safe_step fence_step)

section \<open>The handoff read\<close>

text \<open>Whenever a published frontier is cached, the last write was confirmed durable.\<close>

definition synced_store :: "LeaseStore \<Rightarrow> bool" where
  "synced_store s \<longleftrightarrow>
     (store_published (ls s) \<noteq> None \<or> (\<exists>k. published_by_generation (ls s) k \<noteq> None)
        \<longrightarrow> last_write_synced (ls s))"

lemma synced_store_ops:
  "acquire_publisher_lease agg t io s = (r, s') \<Longrightarrow> synced_store s \<Longrightarrow> synced_store s'"
  "publish_write mk held e io s = (r', s') \<Longrightarrow> synced_store s \<Longrightarrow> synced_store s'"
  "handoff_read mk rd s = (r'', s') \<Longrightarrow> synced_store s \<Longrightarrow> synced_store s'"
  by (auto simp: synced_store_def acquire_publisher_lease_def publish_write_def publish_frontier_def
      publish_frontier_for_generation_def publish_frontier_inner_def handoff_read_def
      read_published_frontier_after_handoff_for_generation_def Let_def
      split: option.splits if_splits prod.splits)

lemma synced_open: "synced_store (lease_store_open d)"
  by (simp add: synced_store_def lease_store_open_def Let_def split: prod.splits)

lemma lstore_set_agg [simp]: "lstore (set_agg a i p c) = lstore c"
  by (simp add: set_agg_def)

lemma synced_step: "synced_store (lstore c) \<Longrightarrow> fa_step members c ev c' \<Longrightarrow> synced_store (lstore c')"
proof -
  assume inv: "synced_store (lstore c)"
  assume "fa_step members c ev c'"
  then show ?thesis
  proof cases
    case (acq_grant a mk t l io tok s rd)
    then show ?thesis using synced_store_ops(1) [OF acq_grant(5) inv] by simp
  next
    case (acq_lose a mk t l io p q s rd)
    then show ?thesis using synced_store_ops(1) [OF acq_lose(5) inv] by simp
  next
    case (acq_fail a mk t l io r s rd)
    then show ?thesis using synced_store_ops(1) [OF acq_fail(5) inv] by simp
  next
    case (acq_read a mk tok rd pub s io)
    then show ?thesis using synced_store_ops(3) [OF acq_read(4) inv] by simp
  next
    case (acq_read_fail a mk tok rd r s io)
    then show ?thesis using synced_store_ops(3) [OF acq_read_fail(4) inv] by simp
  next
    case (pub_write a mk held meet io s)
    then show ?thesis using synced_store_ops(2) [OF pub_write(4) inv] by simp
  next
    case (pub_fail a mk held meet io r s)
    then show ?thesis using synced_store_ops(2) [OF pub_fail(4) inv] by simp
  qed (simp_all add: inv synced_open)
qed

interpretation frontier_synced: transition_system "fa_init members" "fa_step members"
  "\<lambda>c. synced_store (lstore c)" for members
  by unfold_locales (simp add: fa_init_def synced_open, rule synced_step)

lemma handoff_no_panic: "synced_store s \<Longrightarrow> fst (handoff_read mk rd s) \<noteq> Panic"
  by (auto simp: synced_store_def handoff_read_def read_published_frontier_after_handoff_def
      read_published_frontier_after_handoff_for_generation_def
      assert_flush_before_lease_handoff_read_def Let_def split: option.splits)

section \<open>A concrete run\<close>

definition demo_members :: "bytes \<Rightarrow> u64 \<Rightarrow> (u64, u64) omap" where
  "demo_members sc g = [(1, 1)]"

definition demo_inner :: "u64 \<Rightarrow> Inner" where
  "demo_inner agg = with_membership_and_lease_store \<lparr>scope = [118], generation = 0, active = [(1, 1)]\<rparr> agg"

definition demo_cluster :: Cluster where
  "demo_cluster = \<lparr>aggs = (\<lambda>a. \<lparr>inner = demo_inner (of_nat a), pc = AIdle\<rparr>),
     lstore = lease_store_open (\<lambda>_. None), durable = (\<lambda>_ _. 7)\<rparr>"

definition demo_report :: MembershipFrontierReport where
  "demo_report = \<lparr>version = 1, report_scope = [118], report_generation = 0, shard_id = 1,
     incarnation = 1, report_lease_token = 0, report_epoch = 5\<rparr>"

definition demo_reported :: Inner where
  "demo_reported = (demo_inner 0)\<lparr>membership_epochs := [(1, Some 5)], published := Some 5\<rparr>"

definition demo_leased :: LeaseStore where
  "demo_leased = snd (acquire_publisher_lease 0 0 IoOk (lease_store_open (\<lambda>_. None)))"

definition demo_publisher :: Inner where
  "demo_publisher = demo_reported\<lparr>
     lease := Some \<lparr>aggregator_id = 0, is_publisher = True, lease_token = 1\<rparr>\<rparr>"

lemmas fa_demo_defs = demo_members_def demo_inner_def demo_cluster_def demo_report_def
  demo_reported_def demo_publisher_def with_membership_and_lease_store_def with_membership_def
  inner_new_def lease_wiring_def

lemma demo_open: "lease_store_open (\<lambda>_. None) = \<lparr>db = (\<lambda>_. None), ls = \<lparr>fence_token = 0, holder = None,
     store_published = None, published_by_generation = (\<lambda>_. None), last_write_synced = False\<rparr>\<rparr>"
  by (simp add: lease_store_open_def read_lease_record_def read_published_key_def)

lemma demo_grant: "acquire_publisher_lease 0 0 IoOk (lease_store_open (\<lambda>_. None)) = (Ok 1, demo_leased)"
  "demo_leased = \<lparr>db = [LEASE_KEY \<mapsto> to_be 8 (1 :: u64) @ to_be 8 (0 :: u64)],
     ls = \<lparr>fence_token = 1, holder = Some 0, store_published = None,
       published_by_generation = (\<lambda>_. None), last_write_synced = False\<rparr>\<rparr>"
  by (simp_all add: demo_leased_def acquire_publisher_lease_def demo_open checked_add_w_def db_put_def)

lemma demo_fa_init: "fa_init demo_members demo_cluster"
  by (auto simp: fa_init_def fresh_agg_def conforms_def demo_cluster_def demo_inner_def demo_members_def
      with_membership_and_lease_store_def with_membership_def inner_new_def bt_ok_Cons)

lemma demo_ingest: "ingest_membership_report demo_report (demo_inner 0) = Ok demo_reported"
  by (simp add: ingest_membership_report_Ok fa_demo_defs FRONTIER_REPORT_VERSION_def
      recompute_membership_publication_def compute_membership_meet_def member_epoch_def
      advance_publication_def)


abbreviation demo_at :: "Inner \<Rightarrow> AggPc \<Rightarrow> LeaseStore \<Rightarrow> Cluster" where
  "demo_at i p s \<equiv> set_agg 0 i p (demo_cluster\<lparr>lstore := s\<rparr>)"

lemma demo_at_update [simp]:
  "set_agg 0 i' p' (demo_at i p s) = demo_at i' p' s"
  "set_agg 0 i' p' ((demo_at i p s)\<lparr>lstore := s'\<rparr>) = demo_at i' p' s'"
  "inner (aggs (demo_at i p s) 0) = i" "pc (aggs (demo_at i p s) 0) = p"
  by (simp_all add: set_agg_def)

lemma demo_acquire:
  "run (fa_step demo_members) (demo_at demo_reported AIdle (lease_store_open (\<lambda>_. None)))
     (replicate 5 (EAcquire 0 IoOk True)) (demo_at demo_publisher AIdle demo_leased)"
proof -
  let ?s = "lease_store_open (\<lambda>_. None)"
  let ?mk = "Some ([118], 0)"
  have k: "membership_key demo_reported = ?mk" "lease demo_reported = Some (lease_wiring 0)"
    by (simp_all add: membership_key_def demo_reported_def demo_inner_def
        with_membership_and_lease_store_def with_membership_def inner_new_def)
  have "fa_step demo_members (demo_at demo_reported AIdle ?s) (EAcquire 0 IoOk True)
      (demo_at demo_reported (AcqStart ?mk) ?s)"
    using acq_start [of "demo_at demo_reported AIdle ?s" 0 demo_members IoOk True] k by simp
  moreover have "fa_step demo_members (demo_at demo_reported (AcqStart ?mk) ?s) (EAcquire 0 IoOk True)
      (demo_at demo_reported (AcqPeeked ?mk 0) ?s)"
    using acq_peek [of "demo_at demo_reported (AcqStart ?mk) ?s" 0 ?mk demo_members IoOk True]
    by (simp add: demo_open)
  moreover have "fa_step demo_members (demo_at demo_reported (AcqPeeked ?mk 0) ?s) (EAcquire 0 IoOk True)
      (demo_at demo_reported (AcqGranted ?mk 1) demo_leased)"
    using acq_grant [of "demo_at demo_reported (AcqPeeked ?mk 0) ?s" 0 ?mk 0 "lease_wiring 0" IoOk 1
        demo_leased demo_members True] k demo_grant(1)
    by (simp add: lease_wiring_def)
  moreover have "handoff_read ?mk True demo_leased = (Ok None, demo_leased)"
    using generation_key_other(1)
    by (simp add: handoff_read_def read_published_frontier_after_handoff_for_generation_def
        read_published_key_def assert_flush_before_lease_handoff_read_def demo_grant(2))
  then have "fa_step demo_members (demo_at demo_reported (AcqGranted ?mk 1) demo_leased)
      (EAcquire 0 IoOk True) (demo_at demo_reported (AcqRead ?mk 1 None) demo_leased)"
    using acq_read [of "demo_at demo_reported (AcqGranted ?mk 1) demo_leased" 0 ?mk 1 True None
        demo_leased demo_members IoOk] by simp
  moreover have "acquire_finish ?mk 1 None demo_reported = demo_publisher"
    by (simp add: acquire_finish_def demo_publisher_def k lease_wiring_def)
  then have "fa_step demo_members (demo_at demo_reported (AcqRead ?mk 1 None) demo_leased)
      (EAcquire 0 IoOk True) (demo_at demo_publisher AIdle demo_leased)"
    using acq_finish [of "demo_at demo_reported (AcqRead ?mk 1 None) demo_leased" 0 ?mk 1 None
        demo_members IoOk True] by simp
  ultimately show ?thesis by (auto simp: run_Cons_iff eval_nat_numeral)
qed

lemma demo_publish:
  "run (fa_step demo_members) (demo_at demo_publisher AIdle demo_leased) [EPublish 0 IoOk, EPublish 0 IoOk]
     (demo_at demo_publisher (PubChecked (Some ([118], 0)) 1 5) demo_leased)"
proof -
  let ?mk = "Some ([118], 0)"
  have "try_publish_start demo_publisher = Ok (Some (?mk, 1, 5))"
    by (simp add: try_publish_start_def demo_publisher_def demo_reported_def demo_inner_def
        with_membership_and_lease_store_def with_membership_def inner_new_def membership_key_def
        compute_membership_meet_def member_epoch_def)
  then have "fa_step demo_members (demo_at demo_publisher AIdle demo_leased) (EPublish 0 IoOk)
      (demo_at demo_publisher (PubMeet ?mk 1 5) demo_leased)"
    using pub_start [of "demo_at demo_publisher AIdle demo_leased" 0 ?mk 1 5 demo_members IoOk] by simp
  moreover have "fa_step demo_members (demo_at demo_publisher (PubMeet ?mk 1 5) demo_leased)
      (EPublish 0 IoOk) (demo_at demo_publisher (PubChecked ?mk 1 5) demo_leased)"
    using pub_check [of "demo_at demo_publisher (PubMeet ?mk 1 5) demo_leased" 0 ?mk 1 5 demo_members IoOk]
    by (simp add: demo_grant(2))
  ultimately show ?thesis by (auto simp: run_Cons_iff)
qed

lemma demo_fa_run:
  "run (fa_step demo_members) demo_cluster
     (EReport 0 demo_report # replicate 5 (EAcquire 0 IoOk True) @ [EPublish 0 IoOk, EPublish 0 IoOk])
     (demo_at demo_publisher (PubChecked (Some ([118], 0)) 1 5) demo_leased)"
proof -
  have "demo_cluster\<lparr>lstore := lease_store_open (\<lambda>_. None)\<rparr> = demo_cluster"
    by (simp add: demo_cluster_def)
  moreover have "ingest_membership_report demo_report (inner (aggs demo_cluster 0)) = Ok demo_reported"
    "pc (aggs demo_cluster 0) = AIdle"
    using demo_ingest by (simp_all add: demo_cluster_def)
  ultimately have "fa_step demo_members demo_cluster (EReport 0 demo_report)
      (demo_at demo_reported AIdle (lease_store_open (\<lambda>_. None)))"
    using report [of demo_report demo_cluster 0 demo_reported demo_members]
    by (simp add: demo_cluster_def demo_report_def)
  then show ?thesis using run_append [OF demo_acquire demo_publish] by (auto simp: run_Cons_iff)
qed


section \<open>Local facts\<close>

definition report_current :: "MembershipFrontierReport \<Rightarrow> Inner \<Rightarrow> bool" where
  "report_current r i \<longleftrightarrow>
     (\<exists>m. membership i = Some m \<and> version r = FRONTIER_REPORT_VERSION \<and> report_scope r = scope m
        \<and> report_generation r = generation m
        \<and> bt_get (active m) (shard_id r) = Some (incarnation r))"

lemma recompute_meet [simp]:
  "compute_membership_meet (recompute_membership_publication i) = compute_membership_meet i"
  by (cases "membership i") (simp_all add: compute_membership_meet_def)

lemma recompute_published:
  "membership i = Some m \<Longrightarrow> active m \<noteq> [] \<Longrightarrow>
     published (recompute_membership_publication i) =
       (case compute_membership_meet i of None \<Rightarrow> published i | Some e \<Rightarrow> max (published i) (Some e))"
  by (auto simp: recompute_membership_publication_def advance_publication_def max_def
      split: option.splits)

section \<open>Properties of frontier publication\<close>

text \<open>
  (C10) Published frontiers are safe: with reports and bootstrap epochs that are durable on the shard
  that sends them and membership changes that follow the configuration, in every reachable state of
  the cluster (aggregators interleaved, storage failing, restarts included) the frontier of a
  membership-aware aggregator, and the frontier the lease store caches or holds for a generation, is
  covered by what every active member of that generation has made durable, and no frontier is
  published for an empty membership.
\<close>

theorem frontier_published_safe:
  assumes "fa_init members c0" "run (fa_step members) c0 evs c"
  shows "(\<forall>a m p. membership (inner (aggs c a)) = Some m \<longrightarrow> published (inner (aggs c a)) = Some p \<longrightarrow>
       active m \<noteq> [] \<and> (\<forall>(sh, inc) \<in> set (active m). p \<le> durable c sh inc))
    \<and> (\<forall>sc g e. published_by_generation (ls (lstore c)) (sc, g) = Some e
         \<or> read_published_key (db (lstore c)) (published_frontier_generation_key sc g) = Some e \<longrightarrow>
       members sc g \<noteq> [] \<and> (\<forall>(sh, inc) \<in> set (members sc g). e \<le> durable c sh inc))"
proof -
  have inv: "safe_inv members c"
    using frontier_cluster.reachable_inv [OF assms] by (simp add: fa_inv_def)
  have "active m \<noteq> [] \<and> (\<forall>(sh, inc) \<in> set (active m). p \<le> durable c sh inc)"
    if "membership (inner (aggs c a)) = Some m" "published (inner (aggs c a)) = Some p" for a m p
    using inv that
    by (fastforce simp: safe_inv_def agg_inv_def conforms_def good_frontier_def membership_key_def)
  moreover have "members sc g \<noteq> [] \<and> (\<forall>(sh, inc) \<in> set (members sc g). e \<le> durable c sh inc)"
    if "published_by_generation (ls (lstore c)) (sc, g) = Some e
         \<or> read_published_key (db (lstore c)) (published_frontier_generation_key sc g) = Some e" for sc g e
    using inv that unfolding safe_inv_def store_safe_def good_frontier_def by fastforce
  ultimately show ?thesis by blast
qed

theorem frontier_published_safe_witness:
  "published demo_publisher = Some 5
   \<and> 5 \<le> durable demo_cluster 1 1"
proof -
  let ?c = "demo_at demo_publisher (PubChecked (Some ([118], 0)) 1 5) demo_leased"
  have v: "membership demo_publisher = Some \<lparr>scope = [118], generation = 0, active = [(1, 1)]\<rparr>"
    "published demo_publisher = Some 5" "durable ?c = durable demo_cluster"
    by (simp_all add: fa_demo_defs set_agg_def)
  show ?thesis
    using frontier_published_safe [OF demo_fa_init demo_fa_run] v by (auto dest!: spec [of _ "0 :: nat"])
qed



text \<open>
  (C12) Authority of reports: a report changes an aggregator exactly when the membership is configured
  and its version, scope, generation and the shard's incarnation are the current ones; it then raises
  that member's epoch to the maximum, and the publication to the maximum of its old value and the
  new meet. Any other report is refused with an error.
\<close>

theorem membership_report_authority:
  "case ingest_membership_report r i of
     Panic \<Rightarrow> False
   | Err _ \<Rightarrow> \<not> report_current r i
   | Ok i' \<Rightarrow>
       report_current r i
       \<and> member_epoch i' = (member_epoch i)(shard_id r \<mapsto> (case member_epoch i (shard_id r) of
            None \<Rightarrow> report_epoch r | Some e \<Rightarrow> max e (report_epoch r)))
       \<and> membership i' = membership i
       \<and> published i' = (case compute_membership_meet i' of
            None \<Rightarrow> published i | Some e \<Rightarrow> max (published i) (Some e))"
proof (cases "ingest_membership_report r i")
  case (Ok i')
  then obtain m where m: "membership i = Some m" "bt_get (active m) (shard_id r) = Some (incarnation r)"
    and i': "i' = recompute_membership_publication (i\<lparr>membership_epochs :=
            bt_insert (shard_id r) (Some (case member_epoch i (shard_id r) of
              None \<Rightarrow> report_epoch r | Some e \<Rightarrow> max e (report_epoch r))) (membership_epochs i)\<rparr>)"
    and cur: "report_current r i"
    by (auto simp: ingest_membership_report_Ok report_current_def)
  have "active m \<noteq> []" using m(2) by auto
  then have "published i' = (case compute_membership_meet i' of
            None \<Rightarrow> published i | Some e \<Rightarrow> max (published i) (Some e))"
    using m(1) unfolding i' by (simp add: recompute_published split: option.splits)
  then show ?thesis
    using Ok cur by (simp add: i' fun_eq_iff member_epoch_def)
next
  case (Err e)
  then show ?thesis
    using ingest_membership_report_Ok [of r i] by (auto simp: report_current_def)
next
  case Panic
  then show ?thesis
    by (cases "membership i") (auto simp: ingest_membership_report_def Let_def split: option.splits if_splits)
qed





end
