(* ===== verification/ScatterRead.thy ===== *)
theory ScatterRead
  imports Kernels
begin

text \<open>
  Scatter reads over shards: the column statistics and membership filters of
  \<open>rockstream-types/src/frontier.rs\<close>, the shard pruning and the merged read of
  \<open>rockstream-gateway/src/multi_shard_reader.rs\<close>, and the statistics published for an index by
  \<open>rockstream-gateway/src/server.rs\<close>.

  The hash functions are parameters: \<open>h seed value\<close> is the hash of a seed byte followed by a value,
  \<open>h1 value\<close> the hash of a value alone.
\<close>

section \<open>Membership filters\<close>

definition bloom_hashes :: "(u8 \<Rightarrow> bytes \<Rightarrow> u64) \<Rightarrow> bytes \<Rightarrow> usize \<Rightarrow> u8 \<Rightarrow> usize list" where
  "bloom_hashes h value modulus hashes =
     map (\<lambda>seed. unat (h (of_nat seed) value) mod max modulus 1) [0..<unat (max hashes 1)]"

definition set_bit_at :: "usize \<Rightarrow> bytes \<Rightarrow> bytes" where
  "set_bit_at b filter' =
     (let idx = 1 + b div 8; mask = push_bit (b mod 8) 1 in filter'[idx := filter' ! idx OR mask])"

definition build_budget_capped_bloom_filter ::
  "(u8 \<Rightarrow> bytes \<Rightarrow> u64) \<Rightarrow> bytes list \<Rightarrow> usize \<Rightarrow> bytes" where
  "build_budget_capped_bloom_filter h vals budget_bytes =
     (let total_bytes = max budget_bytes 9;
          bitset_bytes = total_bytes - 1;
          filter' = replicate total_bytes 3
      in
      if bitset_bytes = 0 then filter'
      else fold (\<lambda>value f. fold set_bit_at (bloom_hashes h value (bitset_bytes * 8) (f ! 0)) f)
             vals filter')"

definition build_exact_membership_filter :: "bytes list \<Rightarrow> bytes" where
  "build_exact_membership_filter vals =
     0 # concat (map (\<lambda>value. to_be 4 (of_nat (length value) :: u32) @ value) vals)"

function exact_scan :: "bytes \<Rightarrow> bytes \<Rightarrow> nat \<Rightarrow> bool" where
  "exact_scan filter' value offset =
     (if offset + 4 \<le> length filter' then
        let len = unat (from_be (take 4 (drop offset filter')) :: u32);
            offset1 = offset + 4
        in
        if offset1 + len > length filter' then True
        else if take len (drop offset1 filter') = value then True
        else exact_scan filter' value (offset1 + len)
      else False)"
  by pat_completeness auto

termination
  by (relation "measure (\<lambda>(f, v, offset). length f - offset)") auto

declare exact_scan.simps [simp del]

definition bit_is_set :: "bytes \<Rightarrow> usize \<Rightarrow> bool" where
  "bit_is_set filter' b =
     (let idx = 1 + b div 8; mask = push_bit (b mod 8) 1 in
      idx < length filter' \<and> (filter' ! idx AND mask) \<noteq> 0)"

definition bloom_filter_might_contain :: "(u8 \<Rightarrow> bytes \<Rightarrow> u64) \<Rightarrow> bytes \<Rightarrow> bytes \<Rightarrow> bool" where
  "bloom_filter_might_contain h filter' value =
     (if length filter' \<le> 1 then True
      else if filter' ! 0 = 0 then exact_scan filter' value 1
      else list_all (bit_is_set filter')
             (bloom_hashes h value ((length filter' - 1) * 8) (max (filter' ! 0) 1)))"

section \<open>Column statistics\<close>

record ColumnStats =
  col_idx :: u16
  min_bytes :: "bytes option"
  max_bytes :: "bytes option"
  bloom_filter :: "bytes option"
  null_count :: nat
  distinct_count_hll :: bytes

definition leading_zeros :: "u64 \<Rightarrow> nat" where
  "leading_zeros w = length (takeWhile Not (map (bit w) (rev [0..<64])))"

definition hll_add :: "(bytes \<Rightarrow> u64) \<Rightarrow> bytes \<Rightarrow> bytes \<Rightarrow> bytes" where
  "hll_add h1 value registers =
     (let hash = h1 value;
          idx = unat (hash AND 0x3F);
          rho = of_nat (min (leading_zeros (drop_bit 6 hash) + 1) 255)
      in registers[idx := max (registers ! idx) rho])"

record stats_acc =
  acc_min :: "bytes option"
  acc_max :: "bytes option"
  acc_values :: "bytes list"
  acc_nulls :: nat
  acc_hll :: bytes

definition stats_step :: "(bytes \<Rightarrow> u64) \<Rightarrow> bytes option \<Rightarrow> stats_acc \<Rightarrow> stats_acc" where
  "stats_step h1 value a =
     (case value of
        Some bs \<Rightarrow> \<lparr>
          acc_min = (if (case acc_min a of None \<Rightarrow> True | Some m \<Rightarrow> bs < m) then Some bs else acc_min a),
          acc_max = (if (case acc_max a of None \<Rightarrow> True | Some m \<Rightarrow> bs > m) then Some bs else acc_max a),
          acc_values = acc_values a @ [bs],
          acc_nulls = acc_nulls a,
          acc_hll = hll_add h1 bs (acc_hll a)\<rparr>
      | None \<Rightarrow> a\<lparr>acc_nulls := acc_nulls a + 1\<rparr>)"

definition stats_start :: stats_acc where
  "stats_start = \<lparr>acc_min = None, acc_max = None, acc_values = [], acc_nulls = 0,
     acc_hll = replicate 64 0\<rparr>"

definition from_values ::
  "(u8 \<Rightarrow> bytes \<Rightarrow> u64) \<Rightarrow> (bytes \<Rightarrow> u64) \<Rightarrow> u16 \<Rightarrow> bytes option list \<Rightarrow> usize \<Rightarrow> ColumnStats" where
  "from_values h h1 idx vals bloom_budget_bytes =
     (let a = fold (stats_step h1) vals stats_start in
      \<lparr>col_idx = idx, min_bytes = acc_min a, max_bytes = acc_max a,
       bloom_filter = (if acc_values a \<noteq> []
         then Some (build_budget_capped_bloom_filter h (acc_values a) bloom_budget_bytes) else None),
       null_count = acc_nulls a, distinct_count_hll = acc_hll a\<rparr>)"

text \<open>The statistics of an indexed column: the bloom filter is replaced by an exact one.\<close>

definition exact_index_stats ::
  "(u8 \<Rightarrow> bytes \<Rightarrow> u64) \<Rightarrow> (bytes \<Rightarrow> u64) \<Rightarrow> u16 \<Rightarrow> bytes option list \<Rightarrow> usize \<Rightarrow> ColumnStats" where
  "exact_index_stats h h1 idx vals bloom_budget_bytes =
     (let exact_values = List.map_filter id vals;
          stats = from_values h h1 idx vals bloom_budget_bytes
      in if exact_values \<noteq> []
         then stats\<lparr>bloom_filter := Some (build_exact_membership_filter exact_values)\<rparr>
         else stats)"

section \<open>Planning a scatter read\<close>

record ShardColumnStats =
  stats_shard_id :: u64
  view_id :: u64
  checkpoint_epoch :: u64
  col_stats :: "ColumnStats list"

datatype ScatterPredicate = Eq u16 bytes | Range u16 "bytes option" "bytes option"

record ScatterPlan =
  shard_ids :: "u64 list"
  total_shards :: usize
  pruned_columns :: "u16 list"

fun predicate_col :: "ScatterPredicate \<Rightarrow> u16" where
  "predicate_col (Eq c v) = c"
| "predicate_col (Range c lo hi) = c"

definition outside_bounds :: "ColumnStats \<Rightarrow> bytes \<Rightarrow> bytes \<Rightarrow> bool" where
  "outside_bounds column lower upper \<longleftrightarrow>
     (case min_bytes column of None \<Rightarrow> False | Some m \<Rightarrow> upper < m)
     \<or> (case max_bytes column of None \<Rightarrow> False | Some m \<Rightarrow> lower > m)"

definition outside_optional_bounds :: "ColumnStats \<Rightarrow> bytes option \<Rightarrow> bytes option \<Rightarrow> bool" where
  "outside_optional_bounds column lower upper \<longleftrightarrow>
     (case (lower, max_bytes column) of (Some lo, Some m) \<Rightarrow> lo > m | _ \<Rightarrow> False)
     \<or> (case (upper, min_bytes column) of (Some hi, Some m) \<Rightarrow> hi < m | _ \<Rightarrow> False)"

fun should_prune_column :: "(u8 \<Rightarrow> bytes \<Rightarrow> u64) \<Rightarrow> ColumnStats \<Rightarrow> ScatterPredicate \<Rightarrow> bool" where
  "should_prune_column h column (Eq c value) =
     (outside_bounds column value value
      \<or> (case bloom_filter column of None \<Rightarrow> False
         | Some filter' \<Rightarrow> \<not> bloom_filter_might_contain h filter' value))"
| "should_prune_column h column (Range c lower upper) = outside_optional_bounds column lower upper"

text \<open>The loop over the predicates of one shard: the column that prunes it, if any.\<close>

fun pruning_column ::
  "(u8 \<Rightarrow> bytes \<Rightarrow> u64) \<Rightarrow> ShardColumnStats \<Rightarrow> ScatterPredicate list \<Rightarrow> u16 option" where
  "pruning_column h stats [] = None"
| "pruning_column h stats (p # ps) =
     (case find (\<lambda>column. col_idx column = predicate_col p) (col_stats stats) of
        None \<Rightarrow> pruning_column h stats ps
      | Some column \<Rightarrow>
          if should_prune_column h column p then Some (predicate_col p)
          else pruning_column h stats ps)"

definition saturating_sub_u64 :: "u64 \<Rightarrow> u64 \<Rightarrow> u64" where
  "saturating_sub_u64 a b = (if a \<ge> b then a - b else 0)"

definition plan_scatter_shards ::
  "(u8 \<Rightarrow> bytes \<Rightarrow> u64) \<Rightarrow> ShardColumnStats list \<Rightarrow> ScatterPredicate list \<Rightarrow> u64 \<Rightarrow> u64 \<Rightarrow> ScatterPlan" where
  "plan_scatter_shards h shard_stats predicates max_stats_age_checkpoints latest_checkpoint_epoch =
     (if shard_stats = [] then \<lparr>shard_ids = [], total_shards = 0, pruned_columns = []\<rparr>
      else
        let too_stale = list_ex (\<lambda>stats. saturating_sub_u64 latest_checkpoint_epoch
              (checkpoint_epoch stats) > max_stats_age_checkpoints) shard_stats
        in
        if too_stale
        then \<lparr>shard_ids = map stats_shard_id shard_stats, total_shards = length shard_stats,
              pruned_columns = []\<rparr>
        else
          \<lparr>shard_ids = map stats_shard_id
             (filter (\<lambda>stats. pruning_column h stats predicates = None) shard_stats),
           total_shards = length shard_stats,
           pruned_columns = fold (\<lambda>stats cs. case pruning_column h stats predicates of
               None \<Rightarrow> cs | Some c \<Rightarrow> insort_insert c cs) shard_stats []\<rparr>)"

section \<open>The merged read\<close>

datatype GatewayError = ResultSetTooLarge | ShardReadFailed

definition div_ceil :: "nat \<Rightarrow> nat \<Rightarrow> nat" where
  "div_ceil a b = a div b + (if a mod b > 0 then 1 else 0)"

fun merge_shards :: "(bytes list) option list \<Rightarrow> usize option \<Rightarrow> (GatewayError, bytes list) result" where
  "merge_shards [] per = Ok []"
| "merge_shards (None # ss) per = Err ShardReadFailed"
| "merge_shards (Some rows # ss) per =
     rbind (merge_shards ss per) (\<lambda>rest.
     Ok ((case per of None \<Rightarrow> rows | Some n \<Rightarrow> take n rows) @ rest))"

text \<open>A shard is the rows its prefix scan returns, or \<open>None\<close> when the scan fails.\<close>

definition scatter_read ::
  "usize \<Rightarrow> (bytes list) option list \<Rightarrow> usize option \<Rightarrow> (GatewayError, bytes list) result" where
  "scatter_read max_in_flight_rows shards limit =
     (let shard_count = max (length shards) 1;
          per_shard_limit = map_option (\<lambda>l. div_ceil l shard_count) limit
      in
      rbind (merge_shards shards per_shard_limit) (\<lambda>merged.
      if length merged > max_in_flight_rows then Err ResultSetTooLarge
      else Ok (case limit of Some n \<Rightarrow> take n merged | None \<Rightarrow> merged)))"

section \<open>Filters have no false negatives\<close>

lemma exact_scan_spec:
  assumes "\<forall>v \<in> set vs. length v < 2 ^ 32"
  shows "exact_scan (pre @ concat (map (\<lambda>v. to_be 4 (of_nat (length v) :: u32) @ v) vs)) value (length pre)
    \<longleftrightarrow> value \<in> set vs"
  using assms
proof (induction vs arbitrary: pre)
  case Nil
  then show ?case by (subst exact_scan.simps) simp
next
  case (Cons v vs)
  define rest where "rest = concat (map (\<lambda>v. to_be 4 (of_nat (length v) :: u32) @ v) vs)"
  define len :: u32 where "len = of_nat (length v)"
  have len: "unat (from_be (to_be 4 len) :: u32) = length v"
    using Cons.prems by (simp add: from_be_to_be len_def unat_of_nat)
  have "exact_scan (pre @ to_be 4 len @ v @ rest) value (length pre) \<longleftrightarrow>
      v = value \<or> exact_scan (pre @ to_be 4 len @ v @ rest) value (length pre + 4 + length v)"
    by (subst exact_scan.simps) (simp add: len Let_def add.commute add.left_commute)
  also have "exact_scan (pre @ to_be 4 len @ v @ rest) value (length pre + 4 + length v)
      \<longleftrightarrow> value \<in> set vs"
    using Cons.IH [of "pre @ to_be 4 len @ v"] Cons.prems by (simp add: rest_def add.assoc)
  finally show ?case by (auto simp: rest_def len_def)
qed

lemma exact_filter_exact:
  assumes "vs \<noteq> []" "\<forall>v \<in> set vs. length v < 2 ^ 32"
  shows "bloom_filter_might_contain h (build_exact_membership_filter vs) value \<longleftrightarrow> value \<in> set vs"
proof -
  obtain v vs' where vs: "vs = v # vs'" using assms(1) by (cases vs) auto
  show ?thesis
    using exact_scan_spec [OF assms(2), of "[0]" "value"]
    by (simp add: bloom_filter_might_contain_def build_exact_membership_filter_def vs)
qed

lemma bit_is_set_iff: "bit_is_set f b \<longleftrightarrow> 1 + b div 8 < length f \<and> bit (f ! (1 + b div 8)) (b mod 8)"
  by (simp add: bit_is_set_def bit_iff_and_push_bit_not_eq_0)

lemma set_bit_at_simps [simp]:
  "length (set_bit_at b f) = length f" "set_bit_at b f ! 0 = f ! 0"
  by (simp_all add: set_bit_at_def Let_def)

lemma bit_set_bit_at:
  "bit_is_set (set_bit_at b f) b' \<longleftrightarrow> bit_is_set f b' \<or> (b' = b \<and> 1 + b div 8 < length f)"
proof (cases "b' div 8 = b div 8")
  case True
  have "b' = b \<longleftrightarrow> b' mod 8 = b mod 8" by (metis True mult_div_mod_eq)
  moreover have "b mod 8 < 8" "b' mod 8 < 8" by simp_all
  ultimately show ?thesis
    by (auto simp: bit_is_set_iff set_bit_at_def Let_def True bit_or_iff bit_exp_iff)
next
  case False
  then show ?thesis by (auto simp: bit_is_set_iff set_bit_at_def Let_def nth_list_update)
qed

lemma fold_set_bit:
  "length (fold set_bit_at bs f) = length f \<and> fold set_bit_at bs f ! 0 = f ! 0
   \<and> (bit_is_set (fold set_bit_at bs f) b \<longleftrightarrow>
        bit_is_set f b \<or> (b \<in> set bs \<and> 1 + b div 8 < length f))"
  by (induction bs arbitrary: f) (auto simp: bit_set_bit_at)

lemma bloom_fold:
  fixes f :: bytes and vs :: "bytes list" and h :: "u8 \<Rightarrow> bytes \<Rightarrow> u64" and n :: nat
  assumes "f ! 0 = 3"
  defines "F \<equiv> fold (\<lambda>value f. fold set_bit_at (bloom_hashes h value n (f ! 0)) f) vs f"
  shows "length F = length f \<and> F ! 0 = 3
    \<and> (bit_is_set F b \<longleftrightarrow> bit_is_set f b
         \<or> ((\<exists>v \<in> set vs. b \<in> set (bloom_hashes h v n 3)) \<and> 1 + b div 8 < length f))"
  unfolding F_def using assms(1)
proof (induction vs arbitrary: f)
  case (Cons v vs)
  let ?g = "fold set_bit_at (bloom_hashes h v n (f ! 0)) f"
  have g: "length ?g = length f" "?g ! 0 = 3"
    "bit_is_set ?g b \<longleftrightarrow> bit_is_set f b \<or> (b \<in> set (bloom_hashes h v n 3) \<and> 1 + b div 8 < length f)"
    using fold_set_bit [of "bloom_hashes h v n (f ! 0)" f b] Cons.prems by auto
  from Cons.IH [OF g(2)] g(1,3) show ?case by auto
qed simp

lemma bit_3_u8: "bit (3 :: u8) n \<longleftrightarrow> n < 2"
proof -
  have "(3 :: u8) = mask 2" by (simp add: mask_eq_exp_minus_1)
  then have "bit (3 :: u8) n \<longleftrightarrow> bit (mask 2 :: u8) n" by (simp only:)
  also have "\<dots> \<longleftrightarrow> n < 2" by (auto simp only: bit_mask_iff) simp
  finally show ?thesis .
qed

lemma bloom_hashes_bound: "b \<in> set (bloom_hashes h v n k) \<Longrightarrow> 0 < n \<Longrightarrow> b < n"
  by (auto simp: bloom_hashes_def)

lemma bloom_filter_spec:
  fixes budget :: nat
  defines "n \<equiv> (max budget 9 - 1) * 8"
  shows "length (build_budget_capped_bloom_filter h vs budget) = max budget 9"
    "bloom_filter_might_contain h (build_budget_capped_bloom_filter h vs budget) value \<longleftrightarrow>
       (\<forall>b \<in> set (bloom_hashes h value n 3). b mod 8 < 2 \<or> (\<exists>v \<in> set vs. b \<in> set (bloom_hashes h v n 3)))"
proof -
  let ?f = "replicate (max budget 9) (3 :: u8)"
  let ?F = "build_budget_capped_bloom_filter h vs budget"
  have F: "?F = fold (\<lambda>value f. fold set_bit_at (bloom_hashes h value n (f ! 0)) f) vs ?f"
    by (simp add: build_budget_capped_bloom_filter_def n_def Let_def)
  have "?f ! 0 = 3" by simp
  note spec = bloom_fold [OF this, of h n vs, folded F]
  show len: "length ?F = max budget 9" using spec by simp
  have bit: "bit_is_set ?F b \<longleftrightarrow> b mod 8 < 2 \<or> (\<exists>v \<in> set vs. b \<in> set (bloom_hashes h v n 3))"
    if "b < n" for b
  proof -
    have "1 + b div 8 < max budget 9" using that by (auto simp: n_def less_mult_imp_div_less)
    moreover from this have "bit_is_set ?f b \<longleftrightarrow> b mod 8 < 2"
      using bit_3_u8 [of "b mod 8"] by (simp add: bit_is_set_iff)
    ultimately show ?thesis using spec [of b] by simp
  qed
  have F0: "?F ! 0 = 3" "\<not> length ?F \<le> 1" "max (3 :: u8) 1 = 3"
    using spec len by (simp_all add: max_def word_le_nat_alt)
  have "bloom_filter_might_contain h ?F value \<longleftrightarrow> (\<forall>b \<in> set (bloom_hashes h value n 3). bit_is_set ?F b)"
    using F0 by (simp add: bloom_filter_might_contain_def list_all_iff n_def len)
  also have "\<dots> \<longleftrightarrow> (\<forall>b \<in> set (bloom_hashes h value n 3).
      b mod 8 < 2 \<or> (\<exists>v \<in> set vs. b \<in> set (bloom_hashes h v n 3)))"
    using bit bloom_hashes_bound [of _ h "value" n 3] by (auto simp: n_def)
  finally show "bloom_filter_might_contain h ?F value \<longleftrightarrow> \<dots>" .
qed

section \<open>Column bounds\<close>

definition acc_bounds :: "stats_acc \<Rightarrow> bool" where
  "acc_bounds a \<longleftrightarrow>
     (\<forall>v \<in> set (acc_values a). \<exists>lo hi. acc_min a = Some lo \<and> lo \<le> v \<and> acc_max a = Some hi \<and> v \<le> hi)"

lemma stats_step_bounds: "acc_bounds a \<Longrightarrow> acc_bounds (stats_step h1 v a)"
proof (cases v)
  case (Some bs)
  assume a: "acc_bounds a"
  define lo where "lo = (case acc_min a of None \<Rightarrow> bs | Some m \<Rightarrow> if bs < m then bs else m)"
  define hi where "hi = (case acc_max a of None \<Rightarrow> bs | Some m \<Rightarrow> if bs > m then bs else m)"
  have lo: "acc_min (stats_step h1 v a) = Some lo" "lo \<le> bs" "\<And>m. acc_min a = Some m \<Longrightarrow> lo \<le> m"
    using Some by (auto simp: stats_step_def lo_def split: option.splits)
  have hi: "acc_max (stats_step h1 v a) = Some hi" "bs \<le> hi" "\<And>m. acc_max a = Some m \<Longrightarrow> m \<le> hi"
    using Some by (auto simp: stats_step_def hi_def split: option.splits)
  have vals: "set (acc_values (stats_step h1 v a)) = insert bs (set (acc_values a))"
    using Some by (simp add: stats_step_def)
  have "lo \<le> w \<and> w \<le> hi" if "w \<in> set (acc_values a)" for w
    using a that lo(3) hi(3) unfolding acc_bounds_def by (meson order_trans)
  then show ?thesis using lo(1,2) hi(1,2) by (auto simp: acc_bounds_def vals)
qed (simp add: acc_bounds_def stats_step_def)

lemma stats_fold:
  "acc_bounds a \<Longrightarrow> acc_bounds (fold (stats_step h1) vs a)
     \<and> acc_values (fold (stats_step h1) vs a) = acc_values a @ List.map_filter id vs"
proof (induction vs arbitrary: a)
  case (Cons v vs)
  from Cons.IH [OF stats_step_bounds [OF Cons.prems], of h1 v] show ?case
    by (cases v) (simp_all add: stats_step_def map_filter_simps)
qed (simp add: map_filter_simps)

lemma from_values_spec:
  assumes "Some v \<in> set vs"
  shows "\<exists>lo hi. min_bytes (from_values h h1 idx vs b) = Some lo \<and> lo \<le> v
      \<and> max_bytes (from_values h h1 idx vs b) = Some hi \<and> v \<le> hi"
    and "bloom_filter (from_values h h1 idx vs b)
      = Some (build_budget_capped_bloom_filter h (List.map_filter id vs) b)"
    and "v \<in> set (List.map_filter id vs)"
proof -
  show v: "v \<in> set (List.map_filter id vs)"
    using assms by (induction vs) (auto simp: map_filter_simps split: option.splits)
  have s: "acc_bounds stats_start" "acc_values stats_start = []"
    by (simp_all add: acc_bounds_def stats_start_def)
  note f = stats_fold [OF s(1), of h1 vs]
  show "\<exists>lo hi. min_bytes (from_values h h1 idx vs b) = Some lo \<and> lo \<le> v
      \<and> max_bytes (from_values h h1 idx vs b) = Some hi \<and> v \<le> hi"
    using f v s(2) by (simp add: from_values_def Let_def acc_bounds_def)
  show "bloom_filter (from_values h h1 idx vs b)
      = Some (build_budget_capped_bloom_filter h (List.map_filter id vs) b)"
    using f v s(2) by (auto simp: from_values_def Let_def)
qed

section \<open>Pruning\<close>

text \<open>
  A row gives a value, or none, to every column. A column's statistics describe the rows when they
  were computed from the rows' values, with either kind of filter.
\<close>

type_synonym row = "u16 \<Rightarrow> bytes option"

definition describes :: "(u8 \<Rightarrow> bytes \<Rightarrow> u64) \<Rightarrow> ColumnStats \<Rightarrow> row list \<Rightarrow> bool" where
  "describes h c rows \<longleftrightarrow>
     (\<exists>h1 b. c = from_values h h1 (col_idx c) (map (\<lambda>r. r (col_idx c)) rows) b
        \<or> c = exact_index_stats h h1 (col_idx c) (map (\<lambda>r. r (col_idx c)) rows) b)"

fun satisfies :: "row \<Rightarrow> ScatterPredicate \<Rightarrow> bool" where
  "satisfies r (Eq c v) \<longleftrightarrow> r c = Some v"
| "satisfies r (Range c lo hi) \<longleftrightarrow>
     (\<exists>v. r c = Some v \<and> (\<forall>l. lo = Some l \<longrightarrow> l \<le> v) \<and> (\<forall>u. hi = Some u \<longrightarrow> v \<le> u))"

definition short_values :: "row list \<Rightarrow> bool" where
  "short_values rows \<longleftrightarrow> (\<forall>r \<in> set rows. \<forall>c v. r c = Some v \<longrightarrow> length v < 2 ^ 32)"

lemma describes_spec:
  assumes d: "describes h c rows" and r: "r \<in> set rows" "r (col_idx c) = Some v" and s: "short_values rows"
  shows "\<exists>lo hi. min_bytes c = Some lo \<and> lo \<le> v \<and> max_bytes c = Some hi \<and> v \<le> hi"
    and "\<exists>f. bloom_filter c = Some f \<and> bloom_filter_might_contain h f v"
proof -
  define idx where "idx = col_idx c"
  define vs where "vs = map (\<lambda>r. r idx) rows"
  have v: "Some v \<in> set vs" unfolding vs_def idx_def set_map using r(1) by (rule rev_image_eqI) (simp add: r(2))
  obtain h1 b where c: "c = from_values h h1 idx vs b \<or> c = exact_index_stats h h1 idx vs b"
    using d unfolding describes_def vs_def idx_def by blast
  let ?f = "from_values h h1 idx vs b"
  note spec = from_values_spec [OF v]
  have ne: "List.map_filter id vs \<noteq> []" using spec(3) by auto
  have e: "exact_index_stats h h1 idx vs b
      = ?f\<lparr>bloom_filter := Some (build_exact_membership_filter (List.map_filter id vs))\<rparr>"
    using ne by (simp add: exact_index_stats_def Let_def)
  have "min_bytes c = min_bytes ?f" "max_bytes c = max_bytes ?f" using c e by auto
  then show "\<exists>lo hi. min_bytes c = Some lo \<and> lo \<le> v \<and> max_bytes c = Some hi \<and> v \<le> hi"
    using spec(1) by simp
  have "w \<in> set (List.map_filter id vs) \<Longrightarrow> Some w \<in> set vs" for w
    by (auto simp: List.map_filter_def)
  then have short: "\<forall>w \<in> set (List.map_filter id vs). length w < 2 ^ 32"
    using s by (fastforce simp: vs_def short_values_def)
  show "\<exists>f. bloom_filter c = Some f \<and> bloom_filter_might_contain h f v"
  proof (cases "c = ?f")
    case True
    then have "bloom_filter c = Some (build_budget_capped_bloom_filter h (List.map_filter id vs) b)"
      using spec(2) by simp
    then show ?thesis using spec(3) by (auto simp: bloom_filter_spec(2))
  next
    case False
    then have "bloom_filter c = Some (build_exact_membership_filter (List.map_filter id vs))"
      using c e by simp
    then show ?thesis using exact_filter_exact [OF ne short] spec(3) by auto
  qed
qed

lemma not_pruned:
  assumes "describes h c rows" "r \<in> set rows" "satisfies r p" "predicate_col p = col_idx c"
    "short_values rows"
  shows "\<not> should_prune_column h c p"
proof (cases p)
  case (Eq k v)
  then have v: "r (col_idx c) = Some v" using assms by simp
  from describes_spec [OF assms(1,2) v assms(5)] show ?thesis
    by (auto simp: Eq outside_bounds_def)
next
  case (Range k lo hi)
  then obtain v where v: "r (col_idx c) = Some v" "\<forall>l. lo = Some l \<longrightarrow> l \<le> v" "\<forall>u. hi = Some u \<longrightarrow> v \<le> u"
    using assms by auto
  from describes_spec(1) [OF assms(1,2) v(1) assms(5)] v(2,3) show ?thesis
    by (auto simp: Range outside_optional_bounds_def split: option.splits)
qed

lemma pruning_column_None:
  assumes "\<forall>c \<in> set (col_stats s). describes h c rows" "r \<in> set rows" "short_values rows"
    and "\<forall>p \<in> set ps. satisfies r p"
  shows "pruning_column h s ps = None"
  using assms(4)
proof (induction ps)
  case (Cons p ps)
  show ?case
  proof (cases "find (\<lambda>column. col_idx column = predicate_col p) (col_stats s)")
    case (Some c)
    then have "c \<in> set (col_stats s)" "predicate_col p = col_idx c"
      by (auto simp: find_Some_iff)
    with assms Cons.prems have "\<not> should_prune_column h c p" by (intro not_pruned [of h c rows r]) auto
    then show ?thesis using Some Cons by simp
  qed (use Cons in simp)
qed simp

section \<open>Properties of scatter reads\<close>

lemma merge_shards_Some:
  "merge_shards (map Some rowss) per =
     Ok (concat (map (\<lambda>rows. case per of None \<Rightarrow> rows | Some n \<Rightarrow> take n rows) rowss))"
  by (induction rowss) auto

text \<open>
  (C23) Pruning is sound: a shard whose column statistics were computed from its rows is in the plan
  whenever one of its rows satisfies all predicates, whatever the hash functions, the filter budgets,
  the other shards and the age of the statistics.
\<close>

theorem scatter_pruning_sound:
  assumes "(s, rows) \<in> set shards" "\<forall>c \<in> set (col_stats s). describes h c rows" "short_values rows"
    and "r \<in> set rows" "\<forall>p \<in> set ps. satisfies r p"
  shows "stats_shard_id s \<in> set (shard_ids (plan_scatter_shards h (map fst shards) ps age latest))"
proof -
  have s: "s \<in> set (map fst shards)" using assms(1) by force
  then have "shards \<noteq> []" by auto
  then show ?thesis
    using s pruning_column_None [OF assms(2,4,3,5)]
    by (auto simp: plan_scatter_shards_def Let_def)
qed

theorem scatter_pruning_sound_witness:
  "stats_shard_id \<lparr>stats_shard_id = 7, view_id = 1, checkpoint_epoch = 3,
       col_stats = [exact_index_stats (\<lambda>_ _. 0) (\<lambda>_. 0) 2 [Some [65], None] 16]\<rparr>
     \<in> set (shard_ids (plan_scatter_shards (\<lambda>_ _. 0) [\<lparr>stats_shard_id = 7, view_id = 1,
         checkpoint_epoch = 3,
         col_stats = [exact_index_stats (\<lambda>_ _. 0) (\<lambda>_. 0) 2 [Some [65], None] 16]\<rparr>]
         [Eq 2 [65]] 5 3))"
proof -
  let ?c = "exact_index_stats (\<lambda>_ _. 0) (\<lambda>_. 0) 2 [Some [65], None] 16"
  let ?s = "\<lparr>stats_shard_id = 7, view_id = 1, checkpoint_epoch = 3, col_stats = [?c]\<rparr>"
  let ?r = "\<lambda>c :: u16. if c = 2 then Some [65 :: u8] else None"
  have idx: "col_idx ?c = 2" by (simp add: exact_index_stats_def from_values_def Let_def)
  have "\<forall>c \<in> set (col_stats ?s). describes (\<lambda>_ _. 0) c [?r, \<lambda>_. None]"
    unfolding describes_def using idx by (auto intro!: exI [of _ "\<lambda>_. 0 :: u64"] exI [of _ 16])
  moreover have "short_values [?r, \<lambda>_. None]" by (auto simp: short_values_def)
  ultimately show ?thesis
    using scatter_pruning_sound [of ?s "[?r, \<lambda>_. None]" "[(?s, [?r, \<lambda>_. None])]" "\<lambda>_ _. 0" ?r
        "[Eq 2 [65]]" 5 3]
    by simp
qed

text \<open>
  (C24) Membership filters: the exact filter of a non-empty list of values answers membership exactly.
  The bloom filter has the length of its budget, at least nine bytes, never denies a value it was
  built from, and answers yes for exactly the values all of whose bits were set or are bit 0 or 1 of
  a byte, which are set in every filter.
\<close>

theorem membership_filters:
  fixes budget :: nat
  assumes "vs \<noteq> []" "\<forall>v \<in> set vs. length v < 2 ^ 32"
  defines "n \<equiv> (max budget 9 - 1) * 8"
  shows "(bloom_filter_might_contain h (build_exact_membership_filter vs) x \<longleftrightarrow> x \<in> set vs)
    \<and> length (build_budget_capped_bloom_filter h vs budget) = max budget 9
    \<and> (x \<in> set vs \<longrightarrow> bloom_filter_might_contain h (build_budget_capped_bloom_filter h vs budget) x)
    \<and> (bloom_filter_might_contain h (build_budget_capped_bloom_filter h vs budget) x \<longleftrightarrow>
         (\<forall>b \<in> set (bloom_hashes h x n 3).
            b mod 8 < 2 \<or> (\<exists>v \<in> set vs. b \<in> set (bloom_hashes h v n 3))))"
  using exact_filter_exact [OF assms(1,2)] bloom_filter_spec [of h vs budget]
  by (auto simp: n_def)

theorem membership_filters_witness:
  "bloom_filter_might_contain (\<lambda>_ v. if v = [3] then 9 else 5)
     (build_budget_capped_bloom_filter (\<lambda>_ v. if v = [3] then 9 else 5) [[1, 2]] 4) [3]
   \<and> \<not> bloom_filter_might_contain (\<lambda>_ _. 0) (build_exact_membership_filter [[1, 2]]) [3]"
proof
  let ?h = "\<lambda>(_ :: u8) v. if v = [3 :: u8] then 9 else 5 :: u64"
  have v: "[[1, 2 :: u8]] \<noteq> []" "\<forall>v \<in> set [[1, 2 :: u8]]. length v < 2 ^ 32" by simp_all
  show "\<not> bloom_filter_might_contain (\<lambda>_ _. 0) (build_exact_membership_filter [[1, 2]]) [3]"
    using membership_filters [OF v, of "\<lambda>_ _. 0" "[3]" 4] by simp
  have "\<forall>b \<in> set (bloom_hashes ?h [3] ((max 4 9 - 1) * 8) 3). b mod 8 < 2"
    by (auto simp: bloom_hashes_def)
  then show "bloom_filter_might_contain ?h (build_budget_capped_bloom_filter ?h [[1, 2]] 4) [3]"
    using membership_filters [OF v, of ?h "[3]" 4] by blast
qed



end
