(* ===== verification/Progress.thy ===== *)
theory Progress
  imports Prelude "HOL-Library.Option_ord"
begin

text \<open>
  Progress tokens of \<open>rockstream-types/src/frontier.rs\<close>: the progress of one source, the vector
  token over several sources, and their meet and join. Watermarks are signed 64-bit integers.
\<close>

section \<open>One source\<close>

datatype SourceProgress = SourceProgress (source_epoch: u64) (event_time_watermark_ms: "i64 option")

definition merge_watermark :: "(i64 \<Rightarrow> i64 \<Rightarrow> i64) \<Rightarrow> i64 option \<Rightarrow> i64 option \<Rightarrow> i64 option" where
  "merge_watermark f a b =
     (case (a, b) of
        (Some w1, Some w2) \<Rightarrow> Some (f w1 w2)
      | (Some w1, None) \<Rightarrow> Some w1
      | (None, Some w2) \<Rightarrow> Some w2
      | (None, None) \<Rightarrow> None)"

definition source_meet :: "SourceProgress \<Rightarrow> SourceProgress \<Rightarrow> SourceProgress" where
  "source_meet x y =
     (if source_epoch x < source_epoch y then x
      else if source_epoch x > source_epoch y then y
      else SourceProgress (source_epoch x)
             (merge_watermark min (event_time_watermark_ms x) (event_time_watermark_ms y)))"

definition source_join :: "SourceProgress \<Rightarrow> SourceProgress \<Rightarrow> SourceProgress" where
  "source_join x y =
     (if source_epoch x > source_epoch y then x
      else if source_epoch x < source_epoch y then y
      else SourceProgress (source_epoch x)
             (merge_watermark max (event_time_watermark_ms x) (event_time_watermark_ms y)))"

section \<open>A vector of sources\<close>

record FreshnessToken =
  source_progress :: "(u64, SourceProgress) omap"
  cluster_frontier_hash :: u64

definition progress_meet ::
  "(u64, SourceProgress) omap \<Rightarrow> (u64, SourceProgress) omap \<Rightarrow> (u64, SourceProgress) omap" where
  "progress_meet a b =
     fold (\<lambda>(i, p1) m. case bt_get b i of Some p2 \<Rightarrow> bt_insert i (source_meet p1 p2) m | None \<Rightarrow> m) a []"

definition progress_join ::
  "(u64, SourceProgress) omap \<Rightarrow> (u64, SourceProgress) omap \<Rightarrow> (u64, SourceProgress) omap" where
  "progress_join a b =
     fold (\<lambda>(i, p2) m. case bt_get m i of
         Some p1 \<Rightarrow> bt_insert i (source_join p1 p2) m | None \<Rightarrow> bt_insert i p2 m) b a"

definition token_meet :: "FreshnessToken \<Rightarrow> FreshnessToken \<Rightarrow> FreshnessToken" where
  "token_meet x y = \<lparr>source_progress = progress_meet (source_progress x) (source_progress y),
     cluster_frontier_hash = cluster_frontier_hash x XOR cluster_frontier_hash y\<rparr>"

definition token_join :: "FreshnessToken \<Rightarrow> FreshnessToken \<Rightarrow> FreshnessToken" where
  "token_join x y = \<lparr>source_progress = progress_join (source_progress x) (source_progress y),
     cluster_frontier_hash = cluster_frontier_hash x XOR cluster_frontier_hash y\<rparr>"

definition watermark_ms :: "FreshnessToken \<Rightarrow> i64 option" where
  "watermark_ms t =
     (case List.map_filter event_time_watermark_ms (bt_values (source_progress t)) of
        [] \<Rightarrow> None | w # ws \<Rightarrow> Some (fold min ws w))"

section \<open>Semilattices\<close>

interpretation source_meets: semilattice source_meet
proof
  show "source_meet (source_meet a b) c = source_meet a (source_meet b c)" for a b c
    by (cases a; cases b; cases c)
       (auto simp: source_meet_def merge_watermark_def min.assoc split: option.splits)
  show "source_meet a b = source_meet b a" for a b
    by (cases a; cases b)
       (auto simp: source_meet_def merge_watermark_def min.commute split: option.splits)
  show "source_meet a a = a" for a
    by (cases a) (auto simp: source_meet_def merge_watermark_def split: option.splits)
qed

interpretation source_joins: semilattice source_join
proof
  show "source_join (source_join a b) c = source_join a (source_join b c)" for a b c
    by (cases a; cases b; cases c)
       (auto simp: source_join_def merge_watermark_def max.assoc split: option.splits)
  show "source_join a b = source_join b a" for a b
    by (cases a; cases b)
       (auto simp: source_join_def merge_watermark_def max.commute split: option.splits)
  show "source_join a a = a" for a
    by (cases a) (auto simp: source_join_def merge_watermark_def split: option.splits)
qed

text \<open>Pointwise, the vector operations combine what both, or either, of the tokens know.\<close>

definition meet_option :: "SourceProgress option \<Rightarrow> SourceProgress option \<Rightarrow> SourceProgress option" where
  "meet_option x y = (case (x, y) of (Some p, Some q) \<Rightarrow> Some (source_meet p q) | _ \<Rightarrow> None)"

definition join_option :: "SourceProgress option \<Rightarrow> SourceProgress option \<Rightarrow> SourceProgress option" where
  "join_option x y =
     (case (x, y) of (Some p, Some q) \<Rightarrow> Some (source_join p q) | (Some p, None) \<Rightarrow> Some p | (None, z) \<Rightarrow> z)"

lemma progress_meet_get:
  assumes "bt_ok a"
  shows "bt_get (progress_meet a b) i = meet_option (bt_get a i) (bt_get b i)"
    and "bt_ok (progress_meet a b)"
proof -
  have gen: "bt_get (fold (\<lambda>(i, p1) m. case bt_get b i of
        Some p2 \<Rightarrow> bt_insert i (source_meet p1 p2) m | None \<Rightarrow> m) a m) i
      = (case meet_option (bt_get a i) (bt_get b i) of Some p \<Rightarrow> Some p | None \<Rightarrow> bt_get m i)" for m
    using assms
  proof (induction a arbitrary: m)
    case (Cons e a)
    have "bt_get a (fst e) = None"
      using Cons.prems by (auto simp: bt_ok_Cons map_of_eq_None_iff)
    with Cons show ?case
      by (cases e) (auto simp: bt_ok_Cons meet_option_def split: option.splits)
  qed (simp add: meet_option_def)
  show "bt_get (progress_meet a b) i = meet_option (bt_get a i) (bt_get b i)"
    unfolding progress_meet_def gen by (simp split: option.splits)
  have "bt_ok m \<Longrightarrow> bt_ok (fold (\<lambda>(i, p1) m. case bt_get b i of
        Some p2 \<Rightarrow> bt_insert i (source_meet p1 p2) m | None \<Rightarrow> m) a m)" for m
  proof (induction a arbitrary: m)
    case (Cons e a)
    then show ?case by (cases e; cases "bt_get b (fst e)") simp_all
  qed simp
  then show "bt_ok (progress_meet a b)" by (simp add: progress_meet_def)
qed

lemma progress_join_get:
  assumes "bt_ok a" "bt_ok b"
  shows "bt_get (progress_join a b) i = join_option (bt_get a i) (bt_get b i)"
    and "bt_ok (progress_join a b)"
proof -
  let ?f = "\<lambda>(i, p2) m. case bt_get m i of
         Some p1 \<Rightarrow> bt_insert i (source_join p1 p2) m | None \<Rightarrow> bt_insert i p2 m"
  have "bt_get (fold ?f b m) i = join_option (bt_get m i) (bt_get b i)" for m
    using assms(2)
  proof (induction b arbitrary: m)
    case (Cons e b)
    have "bt_get b (fst e) = None"
      using Cons.prems by (auto simp: bt_ok_Cons map_of_eq_None_iff)
    with Cons show ?case
      by (cases e) (auto simp: bt_ok_Cons join_option_def split: option.splits)
  qed (simp add: join_option_def split: option.splits)
  then show "bt_get (progress_join a b) i = join_option (bt_get a i) (bt_get b i)"
    by (simp add: progress_join_def)
  have "bt_ok m \<Longrightarrow> bt_ok (fold ?f b m)" for m
  proof (induction b arbitrary: m)
    case (Cons e b)
    then have "bt_ok (?f e m)" by (cases e; cases "bt_get m (fst e)") simp_all
    then show ?case using Cons.IH by simp
  qed simp
  then show "bt_ok (progress_join a b)" using assms(1) by (simp add: progress_join_def)
qed

interpretation meet_options: semilattice meet_option
  by unfold_locales
     (auto simp: meet_option_def source_meets.assoc source_meets.commute source_meets.left_commute split: option.splits)

interpretation join_options: semilattice join_option
  by unfold_locales
     (auto simp: join_option_def source_joins.assoc source_joins.commute source_joins.left_commute split: option.splits)

section \<open>Property of progress merging\<close>

text \<open>
  (C22) Merging progress vectors, by meet or by join, is associative, commutative and idempotent, so
  summaries may be combined in any order and repeatedly. The two are not one lattice: for a source
  without a watermark the meet with one that has it keeps the watermark, and absorption fails.
\<close>

theorem progress_merge_laws:
  assumes "bt_ok a" "bt_ok b" "bt_ok c"
  shows "progress_meet (progress_meet a b) c = progress_meet a (progress_meet b c)
    \<and> progress_meet a b = progress_meet b a \<and> progress_meet a a = a
    \<and> progress_join (progress_join a b) c = progress_join a (progress_join b c)
    \<and> progress_join a b = progress_join b a \<and> progress_join a a = a
    \<and> source_meet (SourceProgress e None) (source_join (SourceProgress e None) (SourceProgress e (Some w)))
        \<noteq> SourceProgress e None"
proof (intro conjI)
  note ms = progress_meet_get progress_join_get and ok = assms
  have ext: "bt_ok x \<Longrightarrow> bt_ok y \<Longrightarrow> (\<And>i. bt_get x i = bt_get y i) \<Longrightarrow> x = y"
    for x y :: "(u64, SourceProgress) omap" by (rule bt_ext) (auto simp: fun_eq_iff)
  show "progress_meet (progress_meet a b) c = progress_meet a (progress_meet b c)"
    by (rule ext) (simp_all add: ms ok meet_options.assoc)
  show "progress_meet a b = progress_meet b a"
    by (rule ext) (simp_all add: ms ok meet_options.commute)
  show "progress_meet a a = a" by (rule ext) (simp_all add: ms ok)
  show "progress_join (progress_join a b) c = progress_join a (progress_join b c)"
    by (rule ext) (simp_all add: ms ok join_options.assoc)
  show "progress_join a b = progress_join b a"
    by (rule ext) (simp_all add: ms ok join_options.commute)
  show "progress_join a a = a" by (rule ext) (simp_all add: ms ok)
qed (simp add: source_meet_def source_join_def merge_watermark_def)

theorem progress_merge_laws_witness:
  "progress_meet [(1, SourceProgress 10 None)] [(1, SourceProgress 10 None), (2, SourceProgress 3 None)]
     = progress_meet [(1, SourceProgress 10 None), (2, SourceProgress 3 None)] [(1, SourceProgress 10 None)]"
  using progress_merge_laws [of "[(1, SourceProgress 10 None)]"
      "[(1, SourceProgress 10 None), (2, SourceProgress 3 None)]" "[]"]
  by (simp add: bt_ok_Cons)

end
