(* ===== verification/ZSets.thy ===== *)
theory ZSets
  imports Kernels Progress
begin

text \<open>
  Z-sets, the data between operators: the map of \<open>rockstream-types/src/batch.rs\<close>, the row and weight
  batch of \<open>rockstream-ops/src/zset.rs\<close>, the filter operator of \<open>rockstream-ops/src/filter.rs\<close>, and
  the contract of an incremental operator.

  Plain additions of weights panic on overflow. An Arrow record batch is the list of its rows; the
  type of rows is a parameter. The evaluation of a filter's predicate is a parameter that returns the
  mask of a list of rows.
\<close>

section \<open>The Z-set map (batch.rs)\<close>

type_synonym ZSet = "(bytes, (bytes, i64) omap) omap"

datatype ZSetRow = ZSetRow (zkey: bytes) (zvalue: bytes) (zweight: i64)

definition zset_inner :: "ZSet \<Rightarrow> bytes \<Rightarrow> (bytes, i64) omap" where
  "zset_inner z k = (case bt_get z k of None \<Rightarrow> [] | Some inner \<Rightarrow> inner)"

definition gc_first :: "(bytes, i64) omap \<Rightarrow> (bytes, i64) omap" where
  "gc_first inner =
     (case inner of
        [] \<Rightarrow> inner
      | (k, _) # _ \<Rightarrow> if bt_get inner k = Some 0 then bt_remove k inner else inner)"

definition zset_insert :: "bytes \<Rightarrow> bytes \<Rightarrow> i64 \<Rightarrow> ZSet \<Rightarrow> ('e, ZSet) result" where
  "zset_insert k v weight z =
     (if weight = 0 then Ok z
      else
        let inner = zset_inner z k;
            w0 = (case bt_get inner v of None \<Rightarrow> 0 | Some w \<Rightarrow> w)
        in
        rbind (expect (i64_checked_add w0 weight)) (\<lambda>w.
        let inner1 = bt_insert v w inner in
        Ok (bt_insert k (if w = 0 then gc_first inner1 else inner1) z)))"

definition insert_row :: "ZSetRow \<Rightarrow> ZSet \<Rightarrow> ('e, ZSet) result" where
  "insert_row r z = zset_insert (zkey r) (zvalue r) (zweight r) z"

definition zset_len :: "ZSet \<Rightarrow> usize" where
  "zset_len z = sum_list (map (\<lambda>e. length (snd e)) z)"

definition zset_is_empty :: "ZSet \<Rightarrow> bool" where
  "zset_is_empty z \<longleftrightarrow> zset_len z = 0"

definition zset_iter :: "ZSet \<Rightarrow> ZSetRow list" where
  "zset_iter z =
     concat (map (\<lambda>(k, inner). map (\<lambda>(v, w). ZSetRow k v w) (filter (\<lambda>e. snd e \<noteq> 0) inner)) z)"

definition zset_merge :: "ZSet \<Rightarrow> ZSet \<Rightarrow> ('e, ZSet) result" where
  "zset_merge other z = rfold insert_row (zset_iter other) z"

definition negate_row :: "ZSetRow \<Rightarrow> ZSet \<Rightarrow> ('e, ZSet) result" where
  "negate_row r z =
     rbind (expect (i64_checked_sub 0 (zweight r))) (\<lambda>w. zset_insert (zkey r) (zvalue r) w z)"

definition zset_negate :: "ZSet \<Rightarrow> ('e, ZSet) result" where
  "zset_negate z = rfold negate_row (zset_iter z) []"

definition weight_for_key :: "bytes \<Rightarrow> ZSet \<Rightarrow> ('e, i64) result" where
  "weight_for_key k z =
     (case bt_get z k of
        None \<Rightarrow> Ok 0
      | Some inner \<Rightarrow> rfold (\<lambda>w acc. expect (i64_checked_add acc w)) (bt_values inner) 0)"

definition zset_consolidate :: "ZSet \<Rightarrow> ZSet" where
  "zset_consolidate z =
     filter (\<lambda>e. snd e \<noteq> []) (map (\<lambda>(k, inner). (k, filter (\<lambda>e. snd e \<noteq> 0) inner)) z)"

section \<open>Row and weight batches (zset.rs, filter.rs)\<close>

datatype ZError = LengthMismatch usize usize | IndexOutOfBounds usize usize | NumericOverflow | ArrowError

record 'r ArrowZSet =
  data :: "'r list"
  weights :: "i64 list"
  frontier :: "FreshnessToken option"

definition try_new :: "'r list \<Rightarrow> i64 list \<Rightarrow> (ZError, 'r ArrowZSet) result" where
  "try_new rows ws =
     (if validate_aligned_lengths (length rows) (length ws)
      then Ok \<lparr>data = rows, weights = ws, frontier = None\<rparr>
      else Err (LengthMismatch (length rows) (length ws)))"

definition zs_validate :: "'r ArrowZSet \<Rightarrow> (ZError, unit) result" where
  "zs_validate z =
     (if validate_aligned_lengths (length (data z)) (length (weights z)) then Ok ()
      else Err (LengthMismatch (length (data z)) (length (weights z))))"

definition compact :: "'r ArrowZSet \<Rightarrow> (ZError, 'r ArrowZSet) result" where
  "compact z =
     (if \<not> is_ok (zs_validate z) then Panic
      else
        let mask = map (\<lambda>w. \<not> weight_cancels w) (weights z) in
        if list_all id mask then Ok z
        else Ok (z\<lparr>data := map fst (filter snd (zip (data z) mask)),
                    weights := map snd (filter fst (zip mask (weights z)))\<rparr>))"

definition accumulate_row ::
  "'r::linorder \<times> i64 \<Rightarrow> ('r, i64) omap \<Rightarrow> (ZError, ('r, i64) omap) result" where
  "accumulate_row e acc =
     (let current = (case bt_get acc (fst e) of None \<Rightarrow> 0 | Some w \<Rightarrow> w) in
      rbind (ok_or NumericOverflow (consolidate_weight current (snd e))) (\<lambda>w.
      Ok (if weight_cancels w then bt_remove (fst e) acc else bt_insert (fst e) w acc)))"

definition try_accumulate_ab ::
  "'r::linorder ArrowZSet \<Rightarrow> ('r, i64) omap \<Rightarrow> (ZError, ('r, i64) omap) result" where
  "try_accumulate_ab z acc =
     rbind (zs_validate z) (\<lambda>_. rfold accumulate_row (zip (data z) (weights z)) acc)"

fun check_indices :: "usize list \<Rightarrow> usize \<Rightarrow> (ZError, unit) result" where
  "check_indices [] n = Ok ()"
| "check_indices (i # is) n =
     (if \<not> validate_index i n then Err (IndexOutOfBounds i n) else check_indices is n)"

definition select_rows :: "usize list \<Rightarrow> 'r ArrowZSet \<Rightarrow> (ZError, 'r ArrowZSet) result" where
  "select_rows indices z =
     rbind (zs_validate z) (\<lambda>_.
     rbind (check_indices indices (length (data z))) (\<lambda>_.
     rbind (try_new (map (\<lambda>i. data z ! i) indices) (map (\<lambda>i. weights z ! i) indices)) (\<lambda>r.
     Ok (r\<lparr>frontier := frontier z\<rparr>))))"

definition filter_apply ::
  "('r list \<Rightarrow> (ZError, bool list) result) \<Rightarrow> 'r ArrowZSet \<Rightarrow> (ZError, 'r ArrowZSet) result" where
  "filter_apply eval_bool input =
     (if data input = [] then Ok input
      else
        rbind (eval_bool (data input)) (\<lambda>mask.
        let indices = map fst (filter snd (enumerate 0 mask)) in
        if length indices = length (data input) then Ok input
        else select_rows indices input))"


section \<open>Generic lemmas\<close>

lemma in_i64_zero [simp]: "in_i64 0"
  by (simp add: in_i64_def)

lemma expect_Panic [simp]: "expect o' = Panic \<longleftrightarrow> o' = None"
  by (cases o') auto

lemma expect_not_Err [simp]: "expect o' \<noteq> Err e"
  by (cases o') auto

lemma bt_set_insert: "bt_ok m \<Longrightarrow> set (bt_insert k v m) = insert (k, v) {e \<in> set m. fst e \<noteq> k}"
  by (induction m) (auto simp: bt_ok_Cons)

section \<open>Meaning\<close>

text \<open>
  A Z-set denotes the function from rows to their total weight, an integer. A pair of a key and a
  value with no entry has weight 0.
\<close>

definition zsem :: "ZSet \<Rightarrow> bytes \<Rightarrow> bytes \<Rightarrow> int" where
  "zsem z k v = (case bt_get (zset_inner z k) v of None \<Rightarrow> 0 | Some w \<Rightarrow> ival w)"

definition zset_ok :: "ZSet \<Rightarrow> bool" where
  "zset_ok z \<longleftrightarrow> bt_ok z \<and> list_all (\<lambda>e. bt_ok (snd e)) z"

fun weigh :: "('r \<times> i64) list \<Rightarrow> 'r \<Rightarrow> int" where
  "weigh [] r = 0"
| "weigh (e # es) r = (if fst e = r then ival (snd e) else 0) + weigh es r"

definition zs_sem :: "'r ArrowZSet \<Rightarrow> 'r \<Rightarrow> int" where
  "zs_sem z = weigh (zip (data z) (weights z))"

definition acc_sem :: "('r, i64) omap \<Rightarrow> 'r \<Rightarrow> int" where
  "acc_sem acc r = (case bt_get acc r of None \<Rightarrow> 0 | Some w \<Rightarrow> ival w)"

text \<open>Every running total that results from adding the rows in order fits in an \<open>i64\<close>.\<close>

fun fits :: "('r \<Rightarrow> int) \<Rightarrow> ('r \<times> i64) list \<Rightarrow> bool" where
  "fits c [] \<longleftrightarrow> True"
| "fits c (e # es) \<longleftrightarrow> in_i64 (c (fst e) + ival (snd e)) \<and> fits (\<lambda>r. c r + weigh [e] r) es"

subsection \<open>Weights of lists of rows\<close>

lemma weigh_append [simp]: "weigh (xs @ ys) r = weigh xs r + weigh ys r"
  by (induction xs) auto

lemma weigh_eq_0: "r \<notin> fst ` set es \<Longrightarrow> weigh es r = 0"
  by (induction es) auto

lemma weigh_distinct: "distinct (map fst es) \<Longrightarrow> (r, w) \<in> set es \<Longrightarrow> weigh es r = ival w"
  by (induction es) (auto simp: weigh_eq_0 rev_image_eqI)

lemma weigh_map_of:
  "distinct (map fst es) \<Longrightarrow> weigh es r = (case map_of es r of None \<Rightarrow> 0 | Some w \<Rightarrow> ival w)"
  by (auto split: option.splits simp: weigh_distinct map_of_eq_None_iff weigh_eq_0 dest: map_of_SomeD)

lemma weigh_filter: "weigh (filter (\<lambda>e. P (fst e)) es) r = (if P r then weigh es r else 0)"
  by (induction es) auto

lemma weigh_nonzero: "weigh (filter (\<lambda>e. snd e \<noteq> 0) es) r = weigh es r"
  by (induction es) auto

lemma fits_append: "fits c (xs @ ys) \<longleftrightarrow> fits c xs \<and> fits (\<lambda>r. c r + weigh xs r) ys"
  by (induction xs arbitrary: c) (simp_all add: add.assoc)

lemma acc_sem_range [simp]: "in_i64 (acc_sem acc r)"
  by (cases "bt_get acc r") (simp_all add: acc_sem_def in_i64_zero)

lemma zsem_range [simp]: "in_i64 (zsem z k v)"
  by (cases "bt_get (zset_inner z k) v") (simp_all add: zsem_def in_i64_zero)

subsection \<open>The map\<close>

lemma zset_inner_ok: "zset_ok z \<Longrightarrow> bt_ok (zset_inner z k)"
  by (fastforce simp: zset_ok_def zset_inner_def list_all_iff split: option.splits dest: map_of_SomeD)

lemma zset_inner_insert: "zset_inner (bt_insert k m z) k' = (if k' = k then m else zset_inner z k')"
  by (simp add: zset_inner_def)

lemma zset_ok_insert: "zset_ok z \<Longrightarrow> bt_ok m \<Longrightarrow> zset_ok (bt_insert k m z)"
  by (auto simp: zset_ok_def list_all_iff bt_set_insert)

lemma gc_first:
  assumes "bt_ok m"
  shows "bt_ok (gc_first m)" "acc_sem (gc_first m) = acc_sem m"
  using assms by (auto simp: gc_first_def acc_sem_def fun_eq_iff split: list.splits if_splits option.splits)

lemma zsem_acc: "zsem z k v = acc_sem (zset_inner z k) v"
  by (simp add: zsem_def acc_sem_def)

lemma acc_sem_insert: "acc_sem (bt_insert r w m) = (acc_sem m)(r := ival w)"
  by (auto simp: acc_sem_def)

definition add_at :: "bytes \<Rightarrow> bytes \<Rightarrow> int \<Rightarrow> (bytes \<Rightarrow> bytes \<Rightarrow> int) \<Rightarrow> bytes \<Rightarrow> bytes \<Rightarrow> int" where
  "add_at k v w f = (\<lambda>k' v'. f k' v' + (if k' = k \<and> v' = v then w else 0))"

lemma zset_insert:
  assumes "zset_ok z"
  shows "zset_insert k v w z = Ok z' \<Longrightarrow> zset_ok z' \<and> zsem z' = add_at k v (ival w) (zsem z)"
    and "zset_insert k v w z = (Panic :: ('e, ZSet) result) \<longleftrightarrow> \<not> in_i64 (zsem z k v + ival w)"
    and "zset_insert k v w z \<noteq> (Err e :: ('e, ZSet) result)"
proof -
  let ?m = "zset_inner z k"
  have m: "bt_ok ?m" by (rule zset_inner_ok [OF assms])
  have w0: "ival (case bt_get ?m v of None \<Rightarrow> 0 | Some w \<Rightarrow> w) = zsem z k v"
    by (simp add: zsem_def split: option.splits)
  show "zset_insert k v w z = (Panic :: ('e, ZSet) result) \<longleftrightarrow> \<not> in_i64 (zsem z k v + ival w)"
    by (auto simp: zset_insert_def result_cases expect_Panic i64_checked_add_None w0 Let_def)
  show "zset_insert k v w z \<noteq> (Err e :: ('e, ZSet) result)"
    by (auto simp: zset_insert_def result_cases Let_def expect_not_Err)
  assume ok: "zset_insert k v w z = Ok z'"
  show "zset_ok z' \<and> zsem z' = add_at k v (ival w) (zsem z)"
  proof (cases "w = 0")
    case True
    then show ?thesis using ok assms by (auto simp: zset_insert_def add_at_def)
  next
    case False
    then obtain x where x: "ival x = zsem z k v + ival w"
      and z': "z' = bt_insert k (if x = 0 then gc_first (bt_insert v x ?m) else bt_insert v x ?m) z"
      using ok by (auto simp: zset_insert_def result_cases i64_checked_add_Some w0 Let_def)
    let ?m' = "if x = 0 then gc_first (bt_insert v x ?m) else bt_insert v x ?m"
    have "acc_sem ?m' = (acc_sem ?m)(v := ival x)" and "bt_ok ?m'"
      using m by (auto simp: gc_first acc_sem_insert)
    then show ?thesis
      unfolding z' using assms x
      by (auto simp: zset_ok_insert zsem_acc zset_inner_insert add_at_def fun_eq_iff)
  qed
qed

definition row_entry :: "ZSetRow \<Rightarrow> (bytes \<times> bytes) \<times> i64" where
  "row_entry r = ((zkey r, zvalue r), zweight r)"

lemma row_entry_simps [simp]:
  "fst (row_entry r) = (zkey r, zvalue r)" "snd (row_entry r) = zweight r"
  by (simp_all add: row_entry_def)

lemma insert_rows:
  assumes "zset_ok z" and "distinct (map fst (map row_entry rows))"
  shows "case (rfold insert_row rows z :: ('e, ZSet) result) of
      Ok z' \<Rightarrow> zset_ok z' \<and> (\<forall>k v. zsem z' k v = zsem z k v + weigh (map row_entry rows) (k, v))
        \<and> (\<forall>r \<in> set rows. in_i64 (zsem z (zkey r) (zvalue r) + ival (zweight r)))
    | Err e \<Rightarrow> False
    | Panic \<Rightarrow> \<exists>r \<in> set rows. \<not> in_i64 (zsem z (zkey r) (zvalue r) + ival (zweight r))"
  using assms
proof (induction rows arbitrary: z)
  case Nil
  then show ?case by simp
next
  case (Cons r rows)
  let ?ins = "zset_insert (zkey r) (zvalue r) (zweight r) z :: ('e, ZSet) result"
  note ins = zset_insert [OF Cons.prems(1), of "zkey r" "zvalue r" "zweight r"]
  show ?case
  proof (cases ?ins)
    case (Ok y)
    have y: "zset_ok y" "zsem y = add_at (zkey r) (zvalue r) (ival (zweight r)) (zsem z)"
      using ins(1) [OF Ok] by blast+
    have "in_i64 (zsem z (zkey r) (zvalue r) + ival (zweight r))" using ins(2) Ok by (metis result.distinct(3))
    moreover have "zsem y (zkey q) (zvalue q) = zsem z (zkey q) (zvalue q)" if "q \<in> set rows" for q
    proof -
      have "(zkey q, zvalue q) \<noteq> (zkey r, zvalue r)" using that Cons.prems(2) by (auto simp: image_iff)
      then show ?thesis by (auto simp: y add_at_def)
    qed
    ultimately show ?thesis
      using Cons.IH [OF y(1)] Cons.prems(2) Ok
      by (auto simp: insert_row_def y(2) add_at_def split: result.splits)
  next
    case (Err e)
    then have False using ins(3) by metis
    then show ?thesis ..
  next
    case Panic
    then have "\<not> in_i64 (zsem z (zkey r) (zvalue r) + ival (zweight r))" using ins(2) by metis
    then show ?thesis using Panic by (simp add: insert_row_def)
  qed
qed

lemma iter_entries:
  "map row_entry (zset_iter z) =
    concat (map (\<lambda>(k, inner). map (\<lambda>(v, w). ((k, v), w)) (filter (\<lambda>e. snd e \<noteq> 0) inner)) z)"
  by (auto simp: zset_iter_def map_concat row_entry_def comp_def case_prod_beta intro!: arg_cong [of _ _ concat])

lemma disjoint_keys: "fst ` A \<subseteq> {k} \<Longrightarrow> fst ` B \<subseteq> K \<Longrightarrow> k \<notin> K \<Longrightarrow> A \<inter> B = {}"
  by blast

lemma iter_weigh:
  assumes "zset_ok z"
  shows "weigh (map row_entry (zset_iter z)) (k, v) = zsem z k v"
    and "distinct (map fst (map row_entry (zset_iter z)))"
proof -
  define inner where "inner = (\<lambda>(k :: bytes) m. map (\<lambda>(v, w). ((k, v), w)) (filter (\<lambda>e. snd e \<noteq> (0 :: i64)) (m :: (bytes, i64) omap)))"
  have keys: "fst ` fst ` set (inner k m) \<subseteq> {k}" for k m by (auto simp: inner_def)
  have inner_d: "distinct (map fst (inner k m))" if "bt_ok m" for k m
  proof -
    have "map fst (inner k m) = map (Pair k) (bt_keys (filter (\<lambda>e. snd e \<noteq> 0) m))"
      by (simp add: inner_def comp_def case_prod_beta)
    then show ?thesis
      using bt_ok_distinct [OF bt_ok_filter [OF that]] by (simp add: distinct_map inj_on_def del: map_map)
  qed
  have inner_w: "weigh (inner k m) (k, v) = acc_sem m v" if "bt_ok m" for k m v
  proof -
    have "weigh (inner k m) (k, v) = weigh (filter (\<lambda>e. snd e \<noteq> 0) m) v"
      by (induction m) (auto simp: inner_def)
    then show ?thesis
      using weigh_map_of [OF bt_ok_distinct [OF that]] by (simp add: weigh_nonzero acc_sem_def)
  qed
  have it: "map row_entry (zset_iter z) = concat (map (\<lambda>(k, m). inner k m) z)"
    by (simp add: iter_entries inner_def)
  have "weigh (concat (map (\<lambda>(k, m). inner k m) z)) (k, v) = zsem z k v
      \<and> distinct (map fst (concat (map (\<lambda>(k, m). inner k m) z)))" using assms
  proof (induction z)
    case Nil
    then show ?case by (simp add: zsem_def zset_inner_def)
  next
    case (Cons e z)
    obtain k' m where e: "e = (k', m)" by (cases e)
    let ?rest = "concat (map (\<lambda>(k, m). inner k m) z)"
    have z: "zset_ok z" and m: "bt_ok m" and k': "k' \<notin> fst ` set z"
      using Cons.prems by (auto simp: e zset_ok_def bt_ok_Cons)
    have disj: "fst ` fst ` set ?rest \<subseteq> fst ` set z"
      using keys by (force simp: image_iff)
    have "weigh (inner k' m) (k, v) = (if k = k' then acc_sem m v else 0)"
      using keys [of k' m] by (force simp: inner_w [OF m] intro!: weigh_eq_0)
    moreover have "zsem z k' v = 0"
      using map_of_eq_None_iff [of z k'] k' by (simp add: zsem_def zset_inner_def)
    moreover have "fst ` set (inner k' m) \<inter> fst ` set ?rest = {}"
      by (rule disjoint_keys [OF keys disj k'])
    ultimately show ?case
      using Cons.IH [OF z] inner_d [OF m, of k'] by (simp add: e zsem_acc zset_inner_def)
  qed
  then show "weigh (map row_entry (zset_iter z)) (k, v) = zsem z k v"
    and "distinct (map fst (map row_entry (zset_iter z)))" by (simp_all only: it)
qed

lemma iter_row_weight:
  assumes "zset_ok z" and "r \<in> set (zset_iter z)"
  shows "ival (zweight r) = zsem z (zkey r) (zvalue r)"
proof -
  have "((zkey r, zvalue r), zweight r) \<in> set (map row_entry (zset_iter z))"
    using assms(2) by (force simp: row_entry_def)
  then show ?thesis
    using weigh_distinct [OF iter_weigh(2) [OF assms(1)]] iter_weigh(1) [OF assms(1)] by metis
qed

lemma zset_merge_spec:
  assumes "zset_ok a" and "zset_ok b"
  shows "case (zset_merge b a :: ('e, ZSet) result) of
      Ok c \<Rightarrow> zset_ok c \<and> (\<forall>k v. zsem c k v = zsem a k v + zsem b k v)
    | Err e \<Rightarrow> False
    | Panic \<Rightarrow> \<exists>k v. \<not> in_i64 (zsem a k v + zsem b k v)"
  using insert_rows [OF assms(1) iter_weigh(2) [OF assms(2)], where 'e = 'e]
    iter_row_weight [OF assms(2)]
  by (auto simp: zset_merge_def iter_weigh(1) [OF assms(2)] split: result.splits)

lemma negate_row:
  assumes "zset_ok z" and "zsem z (zkey r) (zvalue r) = 0"
  shows "case (negate_row r z :: ('e, ZSet) result) of
      Ok y \<Rightarrow> zset_ok y \<and> zsem y = add_at (zkey r) (zvalue r) (- ival (zweight r)) (zsem z)
    | Err e \<Rightarrow> False
    | Panic \<Rightarrow> ival (zweight r) = - (2 ^ 63)"
proof (cases "i64_checked_sub 0 (zweight r)")
  case None
  then have "ival (zweight r) = - (2 ^ 63)"
    using ival_bounds [of "zweight r"] by (auto simp: i64_checked_sub_def i64_checked_None in_i64_def)
  then show ?thesis using None by (simp add: negate_row_def)
next
  case (Some w)
  then have w: "ival w = - ival (zweight r)" by (auto simp: i64_checked_sub_def i64_checked_Some)
  note ins = zset_insert [OF assms(1), of "zkey r" "zvalue r" w]
  have "negate_row r z = (zset_insert (zkey r) (zvalue r) w z :: ('e, ZSet) result)"
    using Some by (simp add: negate_row_def)
  moreover have "zset_insert (zkey r) (zvalue r) w z \<noteq> (Panic :: ('e, ZSet) result)"
    using ins(2) [where 'e = 'e] assms(2) by simp
  ultimately show ?thesis
    using ins(1) ins(3) [where 'e = 'e] by (auto simp: w split: result.splits)
qed

lemma negate_rows:
  assumes "zset_ok z" and "distinct (map fst (map row_entry rows))"
    and "\<forall>r \<in> set rows. zsem z (zkey r) (zvalue r) = 0"
  shows "case (rfold negate_row rows z :: ('e, ZSet) result) of
      Ok z' \<Rightarrow> zset_ok z' \<and> (\<forall>k v. zsem z' k v = zsem z k v - weigh (map row_entry rows) (k, v))
    | Err e \<Rightarrow> False
    | Panic \<Rightarrow> \<exists>r \<in> set rows. ival (zweight r) = - (2 ^ 63)"
  using assms
proof (induction rows arbitrary: z)
  case Nil
  then show ?case by simp
next
  case (Cons r rows)
  have step: "case (negate_row r z :: ('e, ZSet) result) of
      Ok y \<Rightarrow> zset_ok y \<and> zsem y = add_at (zkey r) (zvalue r) (- ival (zweight r)) (zsem z)
    | Err e \<Rightarrow> False
    | Panic \<Rightarrow> ival (zweight r) = - (2 ^ 63)"
    using Cons.prems by (intro negate_row) auto
  show ?case
  proof (cases "negate_row r z :: ('e, ZSet) result")
    case (Ok y)
    have y: "zset_ok y" "zsem y = add_at (zkey r) (zvalue r) (- ival (zweight r)) (zsem z)"
      using step Ok by auto
    have "\<forall>q \<in> set rows. zsem y (zkey q) (zvalue q) = 0"
    proof
      fix q assume q: "q \<in> set rows"
      then have "(zkey q, zvalue q) \<noteq> (zkey r, zvalue r)" using Cons.prems(2) by (auto simp: image_iff)
      then show "zsem y (zkey q) (zvalue q) = 0" using q Cons.prems(3) by (auto simp: y add_at_def)
    qed
    then show ?thesis
      using Cons.IH [OF y(1)] Cons.prems(2) Ok by (auto simp: y(2) add_at_def split: result.splits)
  qed (use step in auto)
qed

lemma zset_negate_spec:
  assumes "zset_ok a"
  shows "case (zset_negate a :: ('e, ZSet) result) of
      Ok c \<Rightarrow> zset_ok c \<and> (\<forall>k v. zsem c k v = - zsem a k v)
    | Err e \<Rightarrow> False
    | Panic \<Rightarrow> \<exists>k v. zsem a k v = - (2 ^ 63)"
  using negate_rows [OF _ iter_weigh(2) [OF assms], of "[]", where 'e = 'e] iter_row_weight [OF assms]
  by (auto simp: zset_negate_def zset_ok_def zsem_def zset_inner_def
      iter_weigh(1) [OF assms, unfolded zsem_def zset_inner_def] split: result.splits)

lemma zset_consolidate_simps [simp]:
  "zset_consolidate [] = []"
  "zset_consolidate ((k, m) # z) =
    (let m' = filter (\<lambda>e. snd e \<noteq> 0) m in if m' = [] then zset_consolidate z else (k, m') # zset_consolidate z)"
  by (simp_all add: zset_consolidate_def Let_def)

lemma zset_consolidate_keys: "fst ` set (zset_consolidate z) \<subseteq> fst ` set z"
  by (force simp: zset_consolidate_def)

lemma zset_consolidate_ok: "zset_ok z \<Longrightarrow> zset_ok (zset_consolidate z)"
proof (induction z)
  case (Cons e z)
  then show ?case
    using zset_consolidate_keys [of z]
    by (cases e) (fastforce simp: zset_ok_def bt_ok_Cons Let_def bt_ok_filter)
qed simp

lemma zset_iter_consolidate [simp]: "zset_iter (zset_consolidate z) = zset_iter z"
  by (induction z) (auto simp: zset_iter_def Let_def)

lemma zset_consolidate_sem:
  assumes "zset_ok z"
  shows "zsem (zset_consolidate z) = zsem z"
  using iter_weigh(1) [OF assms] iter_weigh(1) [OF zset_consolidate_ok [OF assms]] by (simp add: fun_eq_iff)

lemma zset_len_consolidate: "zset_len (zset_consolidate z) = length (zset_iter z)"
  by (induction z) (auto simp: zset_iter_def zset_len_def Let_def)

lemma zset_iter_count:
  assumes "zset_ok z"
  shows "length (zset_iter z) = card {p. zsem z (fst p) (snd p) \<noteq> 0}"
proof -
  let ?es = "map row_entry (zset_iter z)"
  have nz: "\<forall>r \<in> set (zset_iter z). zweight r \<noteq> 0" by (auto simp: zset_iter_def)
  have "{p. zsem z (fst p) (snd p) \<noteq> 0} = set (map fst ?es)"
  proof (rule set_eqI)
    fix p
    have "zsem z (fst p) (snd p) = weigh ?es p" by (simp add: iter_weigh(1) [OF assms, symmetric])
    moreover have "weigh ?es p \<noteq> 0" if "p \<in> set (map fst ?es)"
    proof -
      obtain r where r: "r \<in> set (zset_iter z)" "p = (zkey r, zvalue r)" using \<open>p \<in> set (map fst ?es)\<close> by auto
      then have "(p, zweight r) \<in> set ?es" by (force simp: row_entry_def)
      then show ?thesis using nz r weigh_distinct [OF iter_weigh(2) [OF assms]] by auto
    qed
    moreover have "weigh ?es p = 0" if "p \<notin> set (map fst ?es)"
      using that by (intro weigh_eq_0) (simp add: image_image)
    ultimately show "p \<in> {p. zsem z (fst p) (snd p) \<noteq> 0} \<longleftrightarrow> p \<in> set (map fst ?es)"
      by (simp only: mem_Collect_eq) metis
  qed
  then show ?thesis using distinct_card [OF iter_weigh(2) [OF assms]] by simp
qed

lemma zset_iter_le_len: "length (zset_iter z) \<le> zset_len z"
  by (induction z) (auto simp: zset_iter_def zset_len_def intro!: add_mono)

lemma weight_for_key_spec:
  "weight_for_key k z = Ok w \<Longrightarrow> ival w = sum_list (map ival (bt_values (zset_inner z k)))"
proof -
  have sum: "rfold (\<lambda>w acc. expect (i64_checked_add acc w)) ws a = (Ok w :: ('e, i64) result) \<Longrightarrow>
      ival w = ival a + sum_list (map ival ws)" for ws a
    by (induction ws arbitrary: a) (auto simp: rbind_Ok i64_checked_add_Some)
  show "weight_for_key k z = (Ok w :: ('e, i64) result) \<Longrightarrow>
      ival w = sum_list (map ival (bt_values (zset_inner z k)))"
    using sum [of "bt_values (zset_inner z k)" 0]
    by (auto simp: weight_for_key_def zset_inner_def split: option.splits)
qed

subsection \<open>Batches\<close>

definition aligned :: "'r ArrowZSet \<Rightarrow> bool" where
  "aligned z \<longleftrightarrow> length (data z) = length (weights z)"

definition entries_of :: "'r ArrowZSet \<Rightarrow> ('r \<times> i64) list" where
  "entries_of z = zip (data z) (weights z)"

lemma zs_validate_iff [simp]: "is_ok (zs_validate z) \<longleftrightarrow> aligned z"
  by (simp add: zs_validate_def aligned_def validate_aligned_lengths_def)

lemma zs_validate_Ok: "aligned z \<Longrightarrow> zs_validate z = Ok ()"
  by (simp add: zs_validate_def aligned_def validate_aligned_lengths_def)

lemma unzip_filter:
  "length ds = length ws \<Longrightarrow>
    map fst (filter snd (zip ds (map P ws))) = map fst (filter (\<lambda>e. P (snd e)) (zip ds ws))"
  "length ds = length ws \<Longrightarrow>
    map snd (filter fst (zip (map P ws) ws)) = map snd (filter (\<lambda>e. P (snd e)) (zip ds ws))"
  by (induction ds ws rule: list_induct2) auto

lemma compact_spec:
  assumes "aligned z"
  obtains c where "compact z = Ok c" "entries_of c = filter (\<lambda>e. snd e \<noteq> 0) (entries_of z)"
    "aligned c" "frontier c = frontier z"
proof (cases "list_all id (map (\<lambda>w. \<not> weight_cancels w) (weights z))")
  case True
  then have "\<forall>w \<in> set (weights z). w \<noteq> 0" by (auto simp: list_all_iff weight_cancels_def)
  then have "entries_of z = filter (\<lambda>e. snd e \<noteq> 0) (entries_of z)"
    by (intro filter_True [symmetric]) (auto simp: entries_of_def dest: set_zip_rightD)
  then show ?thesis using True assms that [of z] by (simp add: compact_def)
next
  case False
  let ?es = "filter (\<lambda>e. snd e \<noteq> 0) (entries_of z)"
  have "compact z = Ok (z\<lparr>data := map fst ?es, weights := map snd ?es\<rparr>)"
    using False assms unzip_filter [of "data z" "weights z" "\<lambda>w. w \<noteq> 0"]
    by (simp add: compact_def Let_def weight_cancels_def entries_of_def aligned_def)
  then show ?thesis
    by (rule that) (simp_all add: entries_of_def aligned_def zip_map_fst_snd)
qed

lemma mask_indices:
  "map (nth xs) (map fst (filter snd (enumerate 0 (map q xs)))) = filter q xs"
proof -
  have "map (\<lambda>i. (ys @ xs) ! i) (map fst (filter snd (enumerate (length ys) (map q xs)))) = filter q xs" for ys
  proof (induction xs arbitrary: ys)
    case (Cons x xs)
    have "map (\<lambda>i. ((ys @ [x]) @ xs) ! i) (map fst (filter snd (enumerate (length (ys @ [x])) (map q xs)))) = filter q xs"
      by (rule Cons.IH)
    then show ?case by (simp add: nth_append)
  qed simp
  from this [of "[]"] show ?thesis by simp
qed

lemma check_indices_Ok: "\<forall>i \<in> set is. i < n \<Longrightarrow> check_indices is n = Ok ()"
  by (induction "is") (auto simp: validate_index_def)

lemma check_indices_Err:
  "check_indices is n = Err e \<Longrightarrow> \<exists>i \<in> set is. n \<le> i \<and> e = IndexOutOfBounds i n"
  by (induction "is") (auto simp: validate_index_def split: if_splits)

lemma select_rows_spec:
  assumes "aligned z" and "\<forall>i \<in> set is. i < length (data z)"
  shows "select_rows is z = Ok \<lparr>data = map (\<lambda>i. data z ! i) is, weights = map (\<lambda>i. weights z ! i) is,
    frontier = frontier z\<rparr>"
  using assms
  by (simp add: select_rows_def zs_validate_Ok check_indices_Ok try_new_def validate_aligned_lengths_def)

lemma filter_apply_spec:
  assumes "aligned z" and "eval_bool (data z) = Ok (map p (data z))"
  obtains z' where "filter_apply eval_bool z = Ok z'"
    "entries_of z' = filter (\<lambda>e. p (fst e)) (entries_of z)" "aligned z'" "frontier z' = frontier z"
proof -
  let ?mask = "map p (data z)"
  define indices where "indices = map fst (filter snd (enumerate 0 ?mask))"
  have mask: "?mask = map (\<lambda>e. p (fst e)) (entries_of z)"
    using assms(1) by (simp add: entries_of_def aligned_def flip: map_map [of p fst, unfolded comp_def])
  have bound: "\<forall>i \<in> set indices. i < length (data z)"
    by (auto simp: indices_def in_set_enumerate_eq)
  have pick: "map (nth (entries_of z)) indices = filter (\<lambda>e. p (fst e)) (entries_of z)"
    unfolding indices_def mask by (rule mask_indices)
  show ?thesis
  proof (cases "length indices = length (data z)")
    case True
    have "length (filter (\<lambda>e. p (fst e)) (entries_of z)) = length (entries_of z)"
      using arg_cong [OF pick, of length] True assms(1) by (simp add: entries_of_def aligned_def)
    then have "filter (\<lambda>e. p (fst e)) (entries_of z) = entries_of z"
      by (metis filter_True length_filter_less less_irrefl)
    moreover have "filter_apply eval_bool z = Ok z"
      using True assms(2) by (simp add: filter_apply_def indices_def Let_def)
    ultimately show ?thesis using that [of z] assms(1) by simp
  next
    case False
    let ?z = "\<lparr>data = map (\<lambda>i. data z ! i) indices, weights = map (\<lambda>i. weights z ! i) indices,
      frontier = frontier z\<rparr>"
    have "filter_apply eval_bool z = Ok ?z"
      using False assms(2) select_rows_spec [OF assms(1) bound]
      by (auto simp: filter_apply_def indices_def Let_def)
    moreover have "entries_of ?z = map (nth (entries_of z)) indices"
      using bound assms(1) by (auto simp: entries_of_def aligned_def zip_map1 zip_map2 zip_same_conv_map)
    ultimately show ?thesis using pick by (intro that [of ?z]) (auto simp: aligned_def)
  qed
qed

lemma acc_sem_remove: "acc_sem (bt_remove r m) = (acc_sem m)(r := 0)"
  by (auto simp: acc_sem_def)

lemma accumulate_row_spec:
  assumes "bt_ok acc" and "list_all (\<lambda>e. snd e \<noteq> 0) acc"
  shows "case accumulate_row e acc of
      Ok acc' \<Rightarrow> bt_ok acc' \<and> list_all (\<lambda>e. snd e \<noteq> 0) acc' \<and> in_i64 (acc_sem acc (fst e) + ival (snd e))
        \<and> acc_sem acc' = (\<lambda>r. acc_sem acc r + weigh [e] r)
    | Err x \<Rightarrow> x = NumericOverflow \<and> \<not> in_i64 (acc_sem acc (fst e) + ival (snd e))
    | Panic \<Rightarrow> False"
proof -
  have cur: "ival (case bt_get acc (fst e) of None \<Rightarrow> 0 | Some w \<Rightarrow> w) = acc_sem acc (fst e)"
    by (simp add: acc_sem_def split: option.splits)
  define current where "current = (case bt_get acc (fst e) of None \<Rightarrow> 0 | Some w \<Rightarrow> w)"
  show ?thesis
  proof (cases "consolidate_weight current (snd e)")
    case None
    then have "\<not> in_i64 (acc_sem acc (fst e) + ival (snd e))"
      by (simp add: consolidate_weight_def i64_checked_add_None current_def cur)
    then show ?thesis using None by (simp add: accumulate_row_def current_def)
  next
    case (Some w)
    then have w: "ival w = acc_sem acc (fst e) + ival (snd e)"
      by (simp add: consolidate_weight_def i64_checked_add_Some current_def cur)
    let ?acc = "if weight_cancels w then bt_remove (fst e) acc else bt_insert (fst e) w acc"
    have r: "accumulate_row e acc = Ok ?acc"
      using Some by (simp add: accumulate_row_def current_def)
    have "acc_sem ?acc = (acc_sem acc)(fst e := ival w)"
      by (auto simp: acc_sem_insert acc_sem_remove weight_cancels_def)
    then have "acc_sem ?acc = (\<lambda>r. acc_sem acc r + weigh [e] r)"
      by (auto simp: w fun_eq_iff)
    moreover have "in_i64 (acc_sem acc (fst e) + ival (snd e))" by (metis w ival_range)
    moreover have "bt_ok ?acc \<and> list_all (\<lambda>e. snd e \<noteq> 0) ?acc"
      using assms by (auto simp: list_all_iff bt_set_insert bt_remove_def bt_ok_filter weight_cancels_def)
    ultimately show ?thesis unfolding r by simp
  qed
qed

lemma accumulate_rows:
  assumes "bt_ok acc" and "list_all (\<lambda>e. snd e \<noteq> 0) acc"
  shows "case rfold accumulate_row es acc of
      Ok acc' \<Rightarrow> bt_ok acc' \<and> list_all (\<lambda>e. snd e \<noteq> 0) acc' \<and> fits (acc_sem acc) es
        \<and> acc_sem acc' = (\<lambda>r. acc_sem acc r + weigh es r)
    | Err x \<Rightarrow> x = NumericOverflow \<and> \<not> fits (acc_sem acc) es
    | Panic \<Rightarrow> False"
  using assms
proof (induction es arbitrary: acc)
  case (Cons e es)
  note step = accumulate_row_spec [OF Cons.prems, of e]
  show ?case
  proof (cases "accumulate_row e acc")
    case (Ok acc')
    have acc': "bt_ok acc'" "list_all (\<lambda>e. snd e \<noteq> 0) acc'"
      "acc_sem acc' = (\<lambda>r. acc_sem acc r + weigh [e] r)" "in_i64 (acc_sem acc (fst e) + ival (snd e))"
      using step Ok by auto
    show ?thesis
      using Cons.IH [OF acc'(1,2)] acc'(4) Ok
      by (auto simp: acc'(3) fun_eq_iff split: result.splits)
  qed (use step in auto)
qed simp

section \<open>Incremental operators\<close>

text \<open>
  An incremental operator keeps the input it has collected and answers each delta with the change
  of a view of that input. The contract is stated for one delta; over a sequence of deltas the
  outputs then add up to the view of the collected input.
\<close>

fun run_deltas :: "('s \<Rightarrow> 'd \<Rightarrow> ('e, 's \<times> 'o) result) \<Rightarrow> 's \<Rightarrow> 'd list \<Rightarrow> ('e, 's \<times> 'o list) result" where
  "run_deltas step s [] = Ok (s, [])"
| "run_deltas step s (d # ds) =
     rbind (step s d) (\<lambda>(s', out).
     rbind (run_deltas step s' ds) (\<lambda>(t, outs). Ok (t, out # outs)))"

locale delta_operator =
  fixes step :: "'s \<Rightarrow> 'd \<Rightarrow> ('e, 's \<times> 'o) result"
    and inv :: "'s \<Rightarrow> bool"
    and accepts :: "'d \<Rightarrow> bool"
    and collected :: "'s \<Rightarrow> 'i \<Rightarrow> int"
    and view :: "('i \<Rightarrow> int) \<Rightarrow> 'r \<Rightarrow> int"
    and changes :: "'d \<Rightarrow> ('i \<times> i64) list"
    and emitted :: "'o \<Rightarrow> 'r \<Rightarrow> int"
  assumes step_Ok: "inv s \<Longrightarrow> accepts d \<Longrightarrow> fits (collected s) (changes d) \<Longrightarrow> is_ok (step s d)"
    and step_spec: "inv s \<Longrightarrow> accepts d \<Longrightarrow> step s d = Ok (s', out) \<Longrightarrow>
      inv s' \<and> collected s' = (\<lambda>i. collected s i + weigh (changes d) i)
      \<and> emitted out = (\<lambda>r. view (collected s') r - view (collected s) r)"
begin

lemma stream_spec:
  assumes "inv s" and "list_all accepts ds" and "fits (collected s) (concat (map changes ds))"
  shows "\<exists>t outs. run_deltas step s ds = Ok (t, outs) \<and> inv t
    \<and> collected t = (\<lambda>i. collected s i + weigh (concat (map changes ds)) i)
    \<and> (\<forall>r. sum_list (map (\<lambda>out. emitted out r) outs) = view (collected t) r - view (collected s) r)"
  using assms
proof (induction ds arbitrary: s)
  case (Cons d ds)
  have f: "fits (collected s) (changes d)"
    "fits (\<lambda>i. collected s i + weigh (changes d) i) (concat (map changes ds))"
    using Cons.prems(3) by (simp_all add: fits_append)
  obtain s' out where s': "step s d = Ok (s', out)"
    using step_Ok [OF Cons.prems(1) _ f(1)] Cons.prems(2) by (auto simp: is_ok_iff)
  have spec: "inv s'" "collected s' = (\<lambda>i. collected s i + weigh (changes d) i)"
    "emitted out = (\<lambda>r. view (collected s') r - view (collected s) r)"
    using step_spec [OF Cons.prems(1) _ s'] Cons.prems(2) by auto
  obtain t outs where t: "run_deltas step s' ds = Ok (t, outs)" "inv t"
      "collected t = (\<lambda>i. collected s' i + weigh (concat (map changes ds)) i)"
      "\<forall>r. sum_list (map (\<lambda>out. emitted out r) outs) = view (collected t) r - view (collected s') r"
    using Cons.IH [OF spec(1)] Cons.prems(2) f(2) spec(2) by auto
  show ?case
    by (rule exI [of _ t], rule exI [of _ "out # outs"])
      (simp add: s' t(1,2,4) spec(3), simp add: t(3) spec(2) add.assoc)
qed simp

lemma stream_batching:
  assumes "inv s" and "list_all accepts ds" and "list_all accepts ds'"
    and "concat (map changes ds) = concat (map changes ds')"
    and "run_deltas step s ds = Ok (t, outs)" and "fits (collected s) (concat (map changes ds))"
  shows "\<exists>t' outs'. run_deltas step s ds' = Ok (t', outs') \<and> collected t' = collected t
    \<and> (\<forall>r. sum_list (map (\<lambda>out. emitted out r) outs') = sum_list (map (\<lambda>out. emitted out r) outs))"
  using stream_spec [OF assms(1,2,6)] stream_spec [OF assms(1,3)] assms(4,5,6) by fastforce

end

section \<open>Properties\<close>

text \<open>
  (C26) The Z-set map computes with total weights. Merging adds the weight functions, negating
  negates them, and each panics only when the exact result leaves the range of an \<open>i64\<close>.
  Consolidation keeps every weight and makes \<open>len\<close> the number of rows of non-zero weight, which
  before it is only a lower bound of \<open>len\<close>. \<open>weight_for_key\<close> returns the sum of the key's weights.
\<close>

theorem zset_algebra:
  assumes "zset_ok a" and "zset_ok b"
  shows "(case (zset_merge b a :: ('e, ZSet) result) of
        Ok c \<Rightarrow> zset_ok c \<and> (\<forall>k v. zsem c k v = zsem a k v + zsem b k v)
      | Err e \<Rightarrow> False
      | Panic \<Rightarrow> \<exists>k v. \<not> in_i64 (zsem a k v + zsem b k v))
    \<and> (case (zset_negate a :: ('e, ZSet) result) of
        Ok c \<Rightarrow> zset_ok c \<and> (\<forall>k v. zsem c k v = - zsem a k v)
      | Err e \<Rightarrow> False
      | Panic \<Rightarrow> \<exists>k v. zsem a k v = - (2 ^ 63))
    \<and> zset_ok (zset_consolidate a) \<and> zsem (zset_consolidate a) = zsem a
    \<and> zset_len (zset_consolidate a) = card {p. zsem a (fst p) (snd p) \<noteq> 0}
    \<and> card {p. zsem a (fst p) (snd p) \<noteq> 0} \<le> zset_len a
    \<and> (\<forall>w. (weight_for_key k a :: ('e, i64) result) = Ok w \<longrightarrow>
        ival w = sum_list (map ival (bt_values (zset_inner a k))))"
proof (intro conjI allI impI)
  show "zset_len (zset_consolidate a) = card {p. zsem a (fst p) (snd p) \<noteq> 0}"
    and "card {p. zsem a (fst p) (snd p) \<noteq> 0} \<le> zset_len a"
    using zset_iter_le_len [of a] by (simp_all add: zset_len_consolidate zset_iter_count [OF assms(1)])
qed (rule zset_merge_spec [OF assms] zset_negate_spec [OF assms(1)] zset_consolidate_ok [OF assms(1)]
    zset_consolidate_sem [OF assms(1)] weight_for_key_spec, assumption?)+

definition demo_zset :: "ZSet" where
  "demo_zset = [([1], [([10], 1), ([20], of_ival (- 2))])]"

theorem zset_algebra_witness:
  "(case (zset_merge demo_zset demo_zset :: (unit, ZSet) result) of
      Ok c \<Rightarrow> zsem c [1] [20] = - 4 | Err e \<Rightarrow> False | Panic \<Rightarrow> False)
    \<and> zset_len (zset_consolidate demo_zset) = card {p. zsem demo_zset (fst p) (snd p) \<noteq> 0}"
proof -
  have ok: "zset_ok demo_zset" by (simp add: zset_ok_def demo_zset_def bt_ok_def)
  have w: "zsem demo_zset [1] [20] = - 2" by (simp add: zsem_def zset_inner_def demo_zset_def i64_eval)
  have "(zset_merge demo_zset demo_zset :: (unit, ZSet) result) \<noteq> Panic" by code_simp
  then show ?thesis
    using zset_algebra [OF ok ok, where 'e = unit] w by (auto split: result.splits)
qed


definition demo_batch :: "nat ArrowZSet" where
  "demo_batch = \<lparr>data = [3, 8, 3], weights = [1, of_ival 5, 1], frontier = None\<rparr>"


end
