(* ===== verification/Distinct.thy ===== *)
theory Distinct
  imports ZSets Keys
begin

text \<open>
  The distinct, intersect and except operators of \<open>rockstream-ops/src/distinct.rs\<close>.

  A row of a record batch is the list of its columns, \<open>None\<close> for a column that is not an \<open>Int64\<close>
  array. A schema is the number of its columns. A call that panics poisons the operator's mutex and
  has no state after it. Where a call returns an error after it has changed the state, the model
  returns both.
\<close>

section \<open>Rows\<close>

type_synonym arrow_row = "i64 option list"
type_synonym row_vals = "i64 list"
type_synonym arrangement = "(bytes, i64 \<times> row_vals) omap"

definition extract_row_vals :: "arrow_row \<Rightarrow> row_vals" where
  "extract_row_vals row = map (\<lambda>col. case col of Some v \<Rightarrow> v | None \<Rightarrow> 0) row"

definition row_key :: "row_vals \<Rightarrow> bytes" where
  "row_key vals = concat (map (\<lambda>v. to_be 8 (bits v)) vals)"

section \<open>Output\<close>

definition agg_add :: "row_vals \<times> i64 \<Rightarrow> arrangement \<Rightarrow> (ZError, arrangement) result" where
  "agg_add row agg =
     (let key = row_key (fst row);
          entry = (case bt_get agg key of Some e \<Rightarrow> e | None \<Rightarrow> (0, fst row))
      in
      rbind (expect (i64_checked_add (fst entry) (snd row))) (\<lambda>w.
      Ok (bt_insert key (w, snd entry) agg)))"

definition build_columns :: "nat \<Rightarrow> row_vals list \<Rightarrow> i64 list list" where
  "build_columns num_cols rows =
     map (\<lambda>c. concat (map (\<lambda>vals. if c < length vals then [vals ! c] else []) rows)) [0..<num_cols]"

text \<open>\<open>RecordBatch::try_new\<close>: at least one column, and all of the same length.\<close>

definition record_batch :: "i64 list list \<Rightarrow> (ZError, row_vals list) result" where
  "record_batch cols =
     (if cols = [] \<or> \<not> list_all (\<lambda>c. length c = length (hd cols)) cols then Err ArrowError
      else Ok (map (\<lambda>i. map (\<lambda>c. c ! i) cols) [0..<length (hd cols)]))"

definition empty_zset :: "'r ArrowZSet" where
  "empty_zset = \<lparr>data = [], weights = [], frontier = None\<rparr>"

definition new_zset :: "'r list \<Rightarrow> i64 list \<Rightarrow> (ZError, 'r ArrowZSet) result" where
  "new_zset rows ws = expect (res_ok (try_new rows ws))"

definition build_output :: "nat \<Rightarrow> (row_vals \<times> i64) list \<Rightarrow> (ZError, row_vals ArrowZSet) result" where
  "build_output num_cols rows =
     (if rows = [] then Ok empty_zset
      else
        rbind (rfold agg_add rows []) (\<lambda>agg.
        let live = filter (\<lambda>e. fst e \<noteq> 0) (bt_values agg);
            ws = map fst live
        in
        if ws = [] then Ok empty_zset
        else
          rbind (record_batch (build_columns num_cols (map snd live))) (\<lambda>batch.
          new_zset batch ws)))"

section \<open>Distinct\<close>

record DistinctState =
  entries :: arrangement
  deleted :: "(bytes, u64) omap"
  appended_deletions :: "(bytes, u64) omap"
  deletion_generation :: u64
  deleted_bytes :: nat
  appended_deletion_bytes :: nat
  entry_bytes :: nat

record DistinctOp =
  state :: DistinctState
  num_cols :: nat
  fill_level :: usize

definition distinct_state_new :: DistinctState where
  "distinct_state_new = \<lparr>entries = [], deleted = [], appended_deletions = [], deletion_generation = 0,
     deleted_bytes = 0, appended_deletion_bytes = 0, entry_bytes = 0\<rparr>"

definition distinct_new :: "nat \<Rightarrow> DistinctOp" where
  "distinct_new cols = \<lparr>state = distinct_state_new, num_cols = cols, fill_level = 0\<rparr>"

definition entry_count :: "DistinctState \<Rightarrow> usize" where
  "entry_count st = length (entries st)"

definition state_bytes :: "DistinctState \<Rightarrow> nat" where
  "state_bytes st = entry_bytes st + deleted_bytes st + appended_deletion_bytes st"

definition arr_weight :: "arrangement \<Rightarrow> bytes \<Rightarrow> i64" where
  "arr_weight m key = (case bt_get m key of Some e \<Rightarrow> fst e | None \<Rightarrow> 0)"

definition arr_entry_bytes :: "row_vals \<Rightarrow> nat" where
  "arr_entry_bytes vals = length (row_key vals) + 8 + length vals * 8"

definition distinct_maintain :: "row_vals \<Rightarrow> i64 \<Rightarrow> DistinctState \<Rightarrow> DistinctState" where
  "distinct_maintain vals new_w st =
     (let key = row_key vals; is_new = \<not> bt_contains (entries st) key in
      if new_w \<noteq> 0 then
        st\<lparr>entry_bytes := entry_bytes st + (if is_new then arr_entry_bytes vals else 0),
            entries := bt_insert key (new_w, vals) (entries st)\<rparr>
      else if \<not> is_new then
        st\<lparr>entries := bt_remove key (entries st),
            deletion_generation := deletion_generation st + 1,
            deleted := bt_insert key (deletion_generation st + 1) (deleted st),
            deleted_bytes := deleted_bytes st + (if bt_contains (deleted st) key then 0 else length key + 8),
            entry_bytes := entry_bytes st - arr_entry_bytes vals\<rparr>
      else st)"

definition zero_crossing :: "row_vals \<Rightarrow> i64 \<Rightarrow> i64 \<Rightarrow> (row_vals \<times> i64) list" where
  "zero_crossing vals old_w new_w =
     (if old_w \<le> 0 \<and> new_w > 0 then [(vals, 1)]
      else if old_w > 0 \<and> new_w \<le> 0 then [(vals, of_ival (- 1))]
      else [])"

definition distinct_row ::
  "row_vals \<Rightarrow> i64 \<Rightarrow> DistinctState \<Rightarrow> (ZError, DistinctState \<times> (row_vals \<times> i64) list) result" where
  "distinct_row vals delta_w st =
     (let old_w = arr_weight (entries st) (row_key vals) in
      rbind (expect (i64_checked_add old_w delta_w)) (\<lambda>new_w.
      Ok (distinct_maintain vals new_w st, zero_crossing vals old_w new_w)))"

text \<open>The loop over the rows of a delta: a weight is indexed, so a missing one panics.\<close>

fun row_loop ::
  "(row_vals \<Rightarrow> i64 \<Rightarrow> 's \<Rightarrow> (ZError, 's \<times> (row_vals \<times> i64) list) result) \<Rightarrow> arrow_row list \<Rightarrow> i64 list \<Rightarrow>
     's \<Rightarrow> (ZError, 's \<times> (row_vals \<times> i64) list) result" where
  "row_loop f [] ws s = Ok (s, [])"
| "row_loop f (r # rs) [] s = Panic"
| "row_loop f (r # rs) (w # ws) s =
     (if w = 0 then row_loop f rs ws s
      else
        rbind (f (extract_row_vals r) w s) (\<lambda>(s', out).
        rbind (row_loop f rs ws s') (\<lambda>(t, outs). Ok (t, out @ outs))))"

definition distinct_process_delta ::
  "DistinctOp \<Rightarrow> arrow_row ArrowZSet \<Rightarrow>
     (ZError, DistinctOp \<times> (ZError, row_vals ArrowZSet) result) result" where
  "distinct_process_delta op delta =
     (if data delta = [] then Ok (op, Ok empty_zset)
      else
        rbind (row_loop distinct_row (data delta) (weights delta) (state op)) (\<lambda>(st, out_rows).
        Ok (op\<lparr>state := st, fill_level := entry_count st\<rparr>, build_output (num_cols op) out_rows)))"

section \<open>Intersect and except\<close>

record DualArrangement =
  left :: arrangement
  right :: arrangement

datatype Side = Left | Right

definition side_map :: "Side \<Rightarrow> DualArrangement \<Rightarrow> arrangement" where
  "side_map side d = (case side of Left \<Rightarrow> left d | Right \<Rightarrow> right d)"

definition set_side_map :: "Side \<Rightarrow> arrangement \<Rightarrow> DualArrangement \<Rightarrow> DualArrangement" where
  "set_side_map side m d = (case side of Left \<Rightarrow> d\<lparr>left := m\<rparr> | Right \<Rightarrow> d\<lparr>right := m\<rparr>)"

definition dual_apply ::
  "Side \<Rightarrow> bytes \<Rightarrow> row_vals \<Rightarrow> i64 \<Rightarrow> DualArrangement \<Rightarrow> (ZError, DualArrangement) result" where
  "dual_apply side key vals delta d =
     (let m = side_map side d in
      rbind (expect (i64_checked_add (arr_weight m key) delta)) (\<lambda>new_w.
      Ok (set_side_map side (if new_w \<noteq> 0 then bt_insert key (new_w, vals) m else bt_remove key m) d)))"

definition clamp01 :: "i64 \<Rightarrow> i64" where
  "clamp01 w = (if w > 0 then 1 else 0)"

definition intersect_weight :: "i64 \<Rightarrow> i64 \<Rightarrow> bool \<Rightarrow> (ZError, i64) result" where
  "intersect_weight lw rw all =
     (if all then Ok (min (max lw 0) (max rw 0)) else Ok (min (clamp01 lw) (clamp01 rw)))"

definition except_weight :: "i64 \<Rightarrow> i64 \<Rightarrow> bool \<Rightarrow> (ZError, i64) result" where
  "except_weight lw rw all =
     (if all then rbind (expect (i64_checked_sub (max lw 0) (max rw 0))) (\<lambda>d. Ok (max d 0))
      else rbind (expect (i64_checked_sub (clamp01 lw) (clamp01 rw))) (\<lambda>d. Ok (max d 0)))"

definition out_weight ::
  "(i64 \<Rightarrow> i64 \<Rightarrow> bool \<Rightarrow> (ZError, i64) result) \<Rightarrow> bool \<Rightarrow> bytes \<Rightarrow> DualArrangement \<Rightarrow> (ZError, i64) result" where
  "out_weight wfun all key d = wfun (arr_weight (left d) key) (arr_weight (right d) key) all"

definition side_row ::
  "(i64 \<Rightarrow> i64 \<Rightarrow> bool \<Rightarrow> (ZError, i64) result) \<Rightarrow> bool \<Rightarrow> Side \<Rightarrow> row_vals \<Rightarrow> i64 \<Rightarrow> DualArrangement \<Rightarrow>
     (ZError, DualArrangement \<times> (row_vals \<times> i64) list) result" where
  "side_row wfun all side vals delta_w d =
     (let key = row_key vals in
      rbind (out_weight wfun all key d) (\<lambda>old_out.
      rbind (dual_apply side key vals delta_w d) (\<lambda>d'.
      rbind (out_weight wfun all key d') (\<lambda>new_out.
      rbind (expect (i64_checked_sub new_out old_out)) (\<lambda>diff.
      Ok (d', if diff \<noteq> 0 then [(vals, diff)] else []))))))"

record SetOp =
  dual :: DualArrangement
  set_cols :: nat
  all_rows :: bool
  set_fill_level :: usize

definition set_op_new :: "nat \<Rightarrow> bool \<Rightarrow> SetOp" where
  "set_op_new cols all =
     \<lparr>dual = \<lparr>left = [], right = []\<rparr>, set_cols = cols, all_rows = all, set_fill_level = 0\<rparr>"

definition set_process_epoch ::
  "(i64 \<Rightarrow> i64 \<Rightarrow> bool \<Rightarrow> (ZError, i64) result) \<Rightarrow> SetOp \<Rightarrow>
     arrow_row ArrowZSet \<Rightarrow> arrow_row ArrowZSet \<Rightarrow>
     (ZError, SetOp \<times> (ZError, row_vals ArrowZSet) result) result" where
  "set_process_epoch wfun op left_delta right_delta =
     rbind (row_loop (side_row wfun (all_rows op) Left) (data left_delta) (weights left_delta) (dual op))
       (\<lambda>(d1, out1).
     rbind (row_loop (side_row wfun (all_rows op) Right) (data right_delta) (weights right_delta) d1)
       (\<lambda>(d2, out2).
     Ok (op\<lparr>dual := d2, set_fill_level := length (left d2) + length (right d2)\<rparr>,
         build_output (set_cols op) (out1 @ out2))))"

definition intersect_process_epoch where
  "intersect_process_epoch = set_process_epoch intersect_weight"

definition except_process_epoch where
  "except_process_epoch = set_process_epoch except_weight"

section \<open>Keys and weights of rows\<close>

lemma length_row_key [simp]: "length (row_key vals) = 8 * length vals"
  by (induction vals) (auto simp: row_key_def)

lemma row_key_Cons: "row_key (v # vals) = to_be 8 (bits v) @ row_key vals"
  by (simp add: row_key_def)

lemma row_key_inject [simp]: "row_key xs = row_key ys \<longleftrightarrow> xs = ys"
proof (induction xs arbitrary: ys)
  case Nil
  then show ?case using length_row_key [of ys] by (metis length_0_conv length_row_key mult_eq_0_iff zero_neq_numeral)
next
  case (Cons x xs)
  show ?case
  proof (cases ys)
    case Nil
    then show ?thesis by (auto dest: arg_cong [of _ _ length])
  next
    case (Cons y ys')
    then show ?thesis using Cons.IH by (simp add: row_key_Cons bits_inject)
  qed
qed

definition arr_sem :: "arrangement \<Rightarrow> row_vals \<Rightarrow> int" where
  "arr_sem m vals = ival (arr_weight m (row_key vals))"

definition arr_ok :: "nat \<Rightarrow> arrangement \<Rightarrow> bool" where
  "arr_ok n m \<longleftrightarrow> bt_ok m \<and> list_all (\<lambda>(k, w, vals). k = row_key vals \<and> w \<noteq> 0 \<and> length vals = n) m"

lemma arr_sem_range [simp]: "in_i64 (arr_sem m vals)"
  by (simp add: arr_sem_def)

lemma arr_sem_insert: "arr_sem (bt_insert (row_key vals) (w, vals') m) = (arr_sem m)(vals := ival w)"
  by (auto simp: arr_sem_def arr_weight_def fun_eq_iff)

lemma arr_sem_remove: "arr_sem (bt_remove (row_key vals) m) = (arr_sem m)(vals := 0)"
  by (auto simp: arr_sem_def arr_weight_def fun_eq_iff)

lemma arr_ok_insert: "arr_ok n m \<Longrightarrow> w \<noteq> 0 \<Longrightarrow> length vals = n \<Longrightarrow> arr_ok n (bt_insert (row_key vals) (w, vals) m)"
  by (auto simp: arr_ok_def list_all_iff bt_set_insert)

lemma arr_ok_remove: "arr_ok n m \<Longrightarrow> arr_ok n (bt_remove k m)"
  by (auto simp: arr_ok_def list_all_iff bt_remove_def bt_ok_filter)

lemma arr_ok_Nil [simp]: "arr_ok n []"
  by (simp add: arr_ok_def)

lemma arr_ok_get:
  "arr_ok n m \<Longrightarrow> bt_get m k = Some e \<Longrightarrow> k = row_key (snd e) \<and> fst e \<noteq> 0 \<and> length (snd e) = n"
  by (cases e) (auto simp: arr_ok_def list_all_iff dest!: map_of_SomeD)

lemma arr_sem_0_iff: "arr_ok n m \<Longrightarrow> arr_sem m vals = 0 \<longleftrightarrow> bt_get m (row_key vals) = None"
  by (auto simp: arr_sem_def arr_weight_def split: option.splits dest: arr_ok_get)

section \<open>Output\<close>

lemma agg_rows:
  assumes "bt_ok agg" and "list_all (\<lambda>(k, w, vals). k = row_key vals) agg"
    and "\<And>n r. in_i64 (arr_sem agg r + weigh (take n rows) r)"
    and "(snd \<circ> snd) ` set agg \<subseteq> R" and "fst ` set rows \<subseteq> R"
  shows "\<exists>agg'. rfold agg_add rows agg = Ok agg' \<and> bt_ok agg'
    \<and> list_all (\<lambda>(k, w, vals). k = row_key vals) agg'
    \<and> arr_sem agg' = (\<lambda>r. arr_sem agg r + weigh rows r)
    \<and> (snd \<circ> snd) ` set agg' \<subseteq> R"
  using assms
proof (induction rows arbitrary: agg)
  case Nil
  then show ?case by auto
next
  case (Cons row rows)
  let ?key = "row_key (fst row)"
  define entry where "entry = (case bt_get agg ?key of Some e \<Rightarrow> e | None \<Rightarrow> (0, fst row))"
  have entry: "ival (fst entry) = arr_sem agg (fst row)" "snd entry = fst row"
    using Cons.prems(2)
    by (auto simp: entry_def arr_sem_def arr_weight_def list_all_iff split: option.splits dest!: map_of_SomeD)
  have "in_i64 (ival (fst entry) + ival (snd row))"
    using Cons.prems(3) [of "fst row" 1] by (simp add: entry)
  then obtain w where w: "i64_checked_add (fst entry) (snd row) = Some w"
    by (metis i64_checked_add_None not_Some_eq)
  then have iw: "ival w = arr_sem agg (fst row) + ival (snd row)" by (simp add: i64_checked_add_Some entry)
  let ?agg = "bt_insert ?key (w, fst row) agg"
  have step: "agg_add row agg = Ok ?agg" using w by (simp add: agg_add_def entry(2) flip: entry_def)
  have sem: "arr_sem ?agg = (\<lambda>r. arr_sem agg r + weigh [row] r)"
    by (auto simp: arr_sem_insert iw fun_eq_iff)
  have "in_i64 (arr_sem ?agg r + weigh (take n rows) r)" for n r
    using Cons.prems(3) [of r "Suc n"] by (simp add: sem add.assoc)
  moreover have "list_all (\<lambda>(k, w, vals). k = row_key vals) ?agg"
    using Cons.prems(1,2) by (auto simp: list_all_iff bt_set_insert)
  moreover have vals: "(snd \<circ> snd) ` set ?agg \<subseteq> R"
    using Cons.prems(1,4,5) by (auto simp: bt_set_insert)
  ultimately obtain agg' where agg': "rfold agg_add rows ?agg = Ok agg'" "bt_ok agg'"
      "list_all (\<lambda>(k, w, vals). k = row_key vals) agg'"
      "arr_sem agg' = (\<lambda>r. arr_sem ?agg r + weigh rows r)"
      "(snd \<circ> snd) ` set agg' \<subseteq> R"
    using Cons.IH [of ?agg] Cons.prems(1,5) vals by auto
  then show ?case
    using agg' step by (auto simp: sem add.assoc)
qed

lemma record_batch_columns:
  assumes "n > 0" and "rows \<noteq> []" and "\<forall>vals \<in> set rows. length vals = n"
  shows "record_batch (build_columns n rows) = Ok rows"
proof -
  have col: "concat (map (\<lambda>vals. if c < length vals then [vals ! c] else []) rows) = map (\<lambda>vals. vals ! c) rows"
    if "c < n" for c
    using assms(3) that by (induction rows) auto
  have cols: "build_columns n rows = map (\<lambda>c. map (\<lambda>vals. vals ! c) rows) [0..<n]"
    by (auto simp: build_columns_def col intro!: map_cong)
  have hd: "length (hd (build_columns n rows)) = length rows"
    using assms(1) by (simp add: cols hd_map upt_rec)
  have "map (\<lambda>i. map (\<lambda>c. c ! i) (build_columns n rows)) [0..<length rows] = rows"
    using assms(3) by (auto simp: cols comp_def intro!: nth_equalityI)
  then show ?thesis
    using assms(1) hd by (auto simp: record_batch_def list_all_iff) (auto simp: cols)
qed

text \<open>
  The weights that an operator emits are differences of a view's weights. Every partial sum is then
  a difference of two values in range, so adding up the output cannot overflow.
\<close>

definition telescopes :: "(row_vals \<Rightarrow> int) \<Rightarrow> (row_vals \<times> i64) list \<Rightarrow> (row_vals \<Rightarrow> int) \<Rightarrow> bool" where
  "telescopes c out c' \<longleftrightarrow> (\<forall>r. 0 \<le> c r \<and> c r < 2 ^ 63) \<and> (\<forall>r. weigh out r = c' r - c r)
    \<and> (\<forall>n r. \<exists>v. 0 \<le> v \<and> v < 2 ^ 63 \<and> weigh (take n out) r = v - c r)"

lemma telescopes_Nil: "(\<And>r. 0 \<le> c r \<and> c r < 2 ^ 63) \<Longrightarrow> telescopes c [] c"
  by (auto simp: telescopes_def)

lemma telescopes_append:
  assumes "telescopes c xs c'" and "telescopes c' ys c''"
  shows "telescopes c (xs @ ys) c''"
proof -
  have "\<exists>v. 0 \<le> v \<and> v < 2 ^ 63 \<and> weigh (take n (xs @ ys)) r = v - c r" for n r
  proof (cases "n \<le> length xs")
    case True
    then show ?thesis using assms(1) by (simp add: telescopes_def)
  next
    case False
    obtain v where v: "0 \<le> v" "v < 2 ^ 63" "weigh (take (n - length xs) ys) r = v - c' r"
      using assms(2) unfolding telescopes_def by blast
    then have "weigh (take n (xs @ ys)) r = v - c r"
      using False assms(1) by (simp add: telescopes_def)
    then show ?thesis using v by blast
  qed
  then show ?thesis using assms by (simp add: telescopes_def)
qed

lemma telescopes_single:
  assumes "\<And>r. 0 \<le> c r \<and> c r < 2 ^ 63" and "\<And>r. 0 \<le> c' r \<and> c' r < 2 ^ 63"
    and "\<And>r. weigh out r = c' r - c r" and "length out \<le> 1"
  shows "telescopes c out c'"
proof -
  have "\<exists>v. 0 \<le> v \<and> v < 2 ^ 63 \<and> weigh (take n out) r = v - c r" for n r
  proof (cases n)
    case 0
    then show ?thesis using assms(1) by (intro exI [of _ "c r"]) auto
  next
    case (Suc m)
    then have "take n out = out" using assms(4) by simp
    then show ?thesis using assms(2,3) by (intro exI [of _ "c' r"]) auto
  qed
  then show ?thesis using assms(1,3) by (simp add: telescopes_def)
qed

definition arr_rows :: "arrangement \<Rightarrow> (row_vals \<times> i64) list" where
  "arr_rows m = map (\<lambda>e. (snd (snd e), fst (snd e))) m"

lemma weigh_arr_rows:
  assumes "bt_ok m" and "list_all (\<lambda>(k, w, vals). k = row_key vals) m"
  shows "distinct (map fst (arr_rows m))" and "weigh (arr_rows m) r = arr_sem m r"
proof -
  have "map row_key (map fst (arr_rows m)) = bt_keys m"
    using assms(2) by (auto simp: arr_rows_def list_all_iff)
  then show d: "distinct (map fst (arr_rows m))"
    using bt_ok_distinct [OF assms(1)] by (metis distinct_map)
  have "map_of (arr_rows m) r = map_option fst (bt_get m (row_key r))"
    using assms(2) by (induction m) (auto simp: arr_rows_def)
  then show "weigh (arr_rows m) r = arr_sem m r"
    by (simp add: weigh_map_of [OF d] arr_sem_def arr_weight_def split: option.splits)
qed

lemma telescopes_range:
  assumes "telescopes c rows c'"
  shows "in_i64 (weigh (take n rows) r)"
proof -
  obtain v where "0 \<le> v" "v < 2 ^ 63" "weigh (take n rows) r = v - c r" and "0 \<le> c r \<and> c r < 2 ^ 63"
    using assms unfolding telescopes_def by blast
  then show ?thesis by (simp add: in_i64_def)
qed

lemma build_output_spec:
  assumes "n > 0" and "telescopes c rows c'" and "fst ` set rows \<subseteq> {vals. length vals = n}"
  shows "\<exists>z. build_output n rows = Ok z \<and> zs_sem z = (\<lambda>r. c' r - c r) \<and> aligned z
    \<and> distinct (data z) \<and> 0 \<notin> set (weights z)"
proof (cases "rows = []")
  case True
  then have "c' r - c r = 0" for r using assms(2) by (auto simp: telescopes_def)
  then show ?thesis using True by (simp add: build_output_def empty_zset_def zs_sem_def aligned_def fun_eq_iff)
next
  case False
  have "arr_sem [] r = 0" for r by (simp add: arr_sem_def arr_weight_def)
  then obtain agg where agg: "rfold agg_add rows [] = Ok agg" "bt_ok agg"
      "list_all (\<lambda>(k, w, vals). k = row_key vals) agg" "arr_sem agg = weigh rows"
      "(snd \<circ> snd) ` set agg \<subseteq> {vals. length vals = n}"
    using agg_rows [of "[]" rows "{vals. length vals = n}"] telescopes_range [OF assms(2)] assms(3) by auto
  define live where "live = filter (\<lambda>e. fst e \<noteq> 0) (bt_values agg)"
  have swap: "map (\<lambda>e. (snd e, fst e)) live = filter (\<lambda>e. snd e \<noteq> 0) (arr_rows agg)"
    by (simp add: live_def arr_rows_def filter_map comp_def)
  have sem: "weigh (map (\<lambda>e. (snd e, fst e)) live) = (\<lambda>r. c' r - c r)"
    using assms(2) agg(4) by (simp add: swap weigh_nonzero weigh_arr_rows [OF agg(2,3)] telescopes_def fun_eq_iff)
  have d: "distinct (map snd live)"
  proof -
    have "map snd live = map fst (filter (\<lambda>e. snd e \<noteq> 0) (arr_rows agg))"
      by (simp add: comp_def flip: swap)
    then show ?thesis using weigh_arr_rows(1) [OF agg(2,3)] by (metis distinct_map_filter)
  qed
  show ?thesis
  proof (cases "live = []")
    case True
    then have "build_output n rows = Ok empty_zset"
      using False agg(1) by (simp add: build_output_def live_def Let_def)
    then show ?thesis using sem True by (simp add: empty_zset_def zs_sem_def aligned_def fun_eq_iff)
  next
    case nonempty: False
    have "\<forall>vals \<in> set (map snd live). length vals = n"
      using agg(5) by (auto simp: live_def image_subset_iff)
    then have "record_batch (build_columns n (map snd live)) = Ok (map snd live)"
      using nonempty assms(1) by (intro record_batch_columns) auto
    then have "build_output n rows = Ok \<lparr>data = map snd live, weights = map fst live, frontier = None\<rparr>"
      using False nonempty agg(1)
      by (simp add: build_output_def Let_def new_zset_def try_new_def validate_aligned_lengths_def flip: live_def)
    moreover have "zip (map snd live) (map fst live) = map (\<lambda>e. (snd e, fst e)) live"
      by (simp add: zip_map1 zip_map2 zip_same_conv_map comp_def)
    moreover have "0 \<notin> set (map fst live)" by (auto simp: live_def)
    ultimately show ?thesis using sem d by (simp add: zs_sem_def aligned_def)
  qed
qed

section \<open>Processing rows\<close>

text \<open>
  One row of a delta changes the collected weight at one place and emits the change of the view.
  The place is the row itself for distinct and the side and the row for the binary operators.
\<close>

definition delta_entries :: "(row_vals \<Rightarrow> 'i) \<Rightarrow> arrow_row list \<Rightarrow> i64 list \<Rightarrow> ('i \<times> i64) list" where
  "delta_entries place rows ws = map (\<lambda>(r, w). (place (extract_row_vals r), w)) (zip rows ws)"

locale row_processor =
  fixes f :: "row_vals \<Rightarrow> i64 \<Rightarrow> 's \<Rightarrow> (ZError, 's \<times> (row_vals \<times> i64) list) result"
    and inv :: "'s \<Rightarrow> bool"
    and arity :: nat
    and collected :: "'s \<Rightarrow> 'i \<Rightarrow> int"
    and view :: "('i \<Rightarrow> int) \<Rightarrow> row_vals \<Rightarrow> int"
    and place :: "row_vals \<Rightarrow> 'i"
  assumes row_Ok: "inv s \<Longrightarrow> length vals = arity \<Longrightarrow> w \<noteq> 0 \<Longrightarrow>
      in_i64 (collected s (place vals) + ival w) \<Longrightarrow> is_ok (f vals w s)"
    and row_spec: "inv s \<Longrightarrow> length vals = arity \<Longrightarrow> w \<noteq> 0 \<Longrightarrow> f vals w s = Ok (s', out) \<Longrightarrow>
      inv s' \<and> collected s' = (\<lambda>i. collected s i + weigh [(place vals, w)] i)
      \<and> telescopes (view (collected s)) out (view (collected s')) \<and> fst ` set out \<subseteq> {vals}"
    and view_range: "inv s \<Longrightarrow> 0 \<le> view (collected s) r \<and> view (collected s) r < 2 ^ 63"
begin

lemma loop_Ok:
  assumes "inv s" and "\<forall>r \<in> set rows. length r = arity" and "length rows \<le> length ws"
    and "fits (collected s) (delta_entries place rows ws)"
  shows "is_ok (row_loop f rows ws s)"
  using assms
proof (induction rows arbitrary: s ws)
  case (Cons r rows)
  then obtain w ws' where ws: "ws = w # ws'" by (cases ws) auto
  let ?vals = "extract_row_vals r"
  have fit: "in_i64 (collected s (place ?vals) + ival w)"
    "fits (\<lambda>i. collected s i + weigh [(place ?vals, w)] i) (delta_entries place rows ws')"
    using Cons.prems(4) by (simp_all add: ws delta_entries_def)
  show ?case
  proof (cases "w = 0")
    case True
    then have "(\<lambda>i. collected s i + weigh [(place ?vals, w)] i) = collected s" by (simp add: fun_eq_iff)
    then have "fits (collected s) (delta_entries place rows ws')" using fit(2) by simp
    then show ?thesis using Cons.IH [of s ws'] Cons.prems True by (simp add: ws)
  next
    case False
    have len: "length ?vals = arity" using Cons.prems(2) by (simp add: extract_row_vals_def)
    obtain s' out where s': "f ?vals w s = Ok (s', out)"
      using row_Ok [OF Cons.prems(1) len False fit(1)] by (auto simp: is_ok_iff)
    note sp = row_spec [OF Cons.prems(1) len False s']
    have "is_ok (row_loop f rows ws' s')"
      using Cons.IH [of s' ws'] Cons.prems(2,3) sp fit(2) by (simp add: ws)
    then show ?thesis using False s' by (auto simp: ws is_ok_iff)
  qed
qed simp

lemma loop_spec:
  assumes "inv s" and "\<forall>r \<in> set rows. length r = arity" and "row_loop f rows ws s = Ok (t, outs)"
  shows "inv t \<and> collected t = (\<lambda>i. collected s i + weigh (delta_entries place rows ws) i)
    \<and> telescopes (view (collected s)) outs (view (collected t)) \<and> fst ` set outs \<subseteq> {vals. length vals = arity}"
  using assms
proof (induction rows arbitrary: s ws outs)
  case Nil
  then show ?case using view_range by (auto simp: delta_entries_def telescopes_Nil)
next
  case (Cons r rows)
  then obtain w ws' where ws: "ws = w # ws'" by (cases ws) auto
  let ?vals = "extract_row_vals r"
  have len: "length ?vals = arity" using Cons.prems(2) by (simp add: extract_row_vals_def)
  show ?case
  proof (cases "w = 0")
    case True
    then have "weigh (delta_entries place (r # rows) ws) = weigh (delta_entries place rows ws')"
      by (simp add: ws delta_entries_def fun_eq_iff)
    then show ?thesis using Cons.IH [of s ws' outs] Cons.prems True by (auto simp: ws)
  next
    case False
    then obtain s' out outs' where s': "f ?vals w s = Ok (s', out)"
        and t: "row_loop f rows ws' s' = Ok (t, outs')" and outs: "outs = out @ outs'"
      using Cons.prems(3) by (auto simp: ws rbind_Ok)
    note sp = row_spec [OF Cons.prems(1) len False s']
    have "inv t \<and> collected t = (\<lambda>i. collected s' i + weigh (delta_entries place rows ws') i)
        \<and> telescopes (view (collected s')) outs' (view (collected t)) \<and> fst ` set outs' \<subseteq> {vals. length vals = arity}"
      by (rule Cons.IH) (use Cons.prems(2) sp t in auto)
    then show ?thesis
      using sp len telescopes_append
      by (auto simp: outs ws delta_entries_def add.assoc)
  qed
qed

lemmas loop_inv = loop_spec [THEN conjunct1]
  and loop_telescopes = loop_spec [THEN conjunct2, THEN conjunct2, THEN conjunct1]
  and loop_rows = loop_spec [THEN conjunct2, THEN conjunct2, THEN conjunct2]

end

section \<open>Distinct\<close>

definition distinct_view :: "(row_vals \<Rightarrow> int) \<Rightarrow> row_vals \<Rightarrow> int" where
  "distinct_view c r = (if 0 < c r then 1 else 0)"

definition deleted_cost :: "(bytes, u64) omap \<Rightarrow> nat" where
  "deleted_cost m = sum_list (map (\<lambda>e. length (fst e) + 8) m)"

definition entries_cost :: "arrangement \<Rightarrow> nat" where
  "entries_cost m = bt_sum (\<lambda>e. arr_entry_bytes (snd e)) m"

definition distinct_ok :: "nat \<Rightarrow> DistinctState \<Rightarrow> bool" where
  "distinct_ok n s \<longleftrightarrow> arr_ok n (entries s) \<and> bt_ok (deleted s)
     \<and> entry_bytes s = entries_cost (entries s) \<and> deleted_bytes s = deleted_cost (deleted s)"

lemma distinct_maintain_sem:
  assumes "distinct_ok n s"
  shows "arr_sem (entries (distinct_maintain vals new_w s)) = (arr_sem (entries s))(vals := ival new_w)"
  using assms arr_sem_0_iff [of n "entries s" vals]
  by (auto simp: distinct_maintain_def Let_def arr_sem_insert arr_sem_remove bt_contains_def distinct_ok_def fun_eq_iff)

lemma entries_cost_remove:
  assumes "arr_ok n m" and "bt_contains m (row_key vals)"
  shows "entries_cost m = arr_entry_bytes vals + entries_cost (bt_remove (row_key vals) m)"
proof -
  obtain e where e: "bt_get m (row_key vals) = Some e" using assms(2) by (auto simp: bt_contains_def)
  then have "snd e = vals" using arr_ok_get [OF assms(1) e] by auto
  then show ?thesis
    using assms(1) e by (simp add: entries_cost_def bt_sum_remove arr_ok_def)
qed

lemma entries_cost_insert:
  assumes "arr_ok n m"
  shows "entries_cost (bt_insert (row_key vals) (w, vals) m) =
    entries_cost m + (if bt_contains m (row_key vals) then 0 else arr_entry_bytes vals)"
proof (cases "bt_contains m (row_key vals)")
  case True
  then show ?thesis
    using assms entries_cost_remove [OF assms True] by (simp add: entries_cost_def bt_sum_insert arr_ok_def)
next
  case False
  then have "bt_remove (row_key vals) m = m" by (intro bt_remove_absent) (metis bt_contains_def)
  then show ?thesis
    using assms False by (simp add: entries_cost_def bt_sum_insert arr_ok_def)
qed

lemma deleted_cost_insert:
  assumes "bt_ok m"
  shows "deleted_cost (bt_insert k g m) = deleted_cost m + (if bt_contains m k then 0 else length k + 8)"
  using assms by (induction m) (auto simp: deleted_cost_def bt_contains_def bt_ok_Cons map_of_eq_None_iff)

lemma distinct_maintain_ok:
  assumes "distinct_ok n s" and "length vals = n"
  shows "distinct_ok n (distinct_maintain vals new_w s)"
proof -
  have ok: "arr_ok n (entries s)" using assms(1) by (simp add: distinct_ok_def)
  show ?thesis
    using assms entries_cost_insert [OF ok] entries_cost_remove [OF ok] deleted_cost_insert [of "deleted s"]
    by (auto simp: distinct_maintain_def Let_def distinct_ok_def arr_ok_insert arr_ok_remove)
qed

lemma zero_crossing:
  "weigh (zero_crossing vals old_w new_w) r =
    (if r = vals then (if 0 < ival new_w then 1 else 0) - (if 0 < ival old_w then 1 else 0) else 0)"
  "length (zero_crossing vals old_w new_w) \<le> Suc 0" "fst ` set (zero_crossing vals old_w new_w) \<subseteq> {vals}"
  by (auto simp: zero_crossing_def i64_order in_i64_def)

interpretation distinct_rows: row_processor distinct_row "distinct_ok n" n "\<lambda>s. arr_sem (entries s)"
  distinct_view "\<lambda>vals. vals" for n
proof unfold_locales
  fix s :: DistinctState and vals w
  assume "in_i64 (arr_sem (entries s) vals + ival w)"
  then show "is_ok (distinct_row vals w s)"
    by (cases "i64_checked_add (arr_weight (entries s) (row_key vals)) w")
      (auto simp: distinct_row_def i64_checked_add_None arr_sem_def)
next
  fix s s' :: DistinctState and vals w out
  assume ok: "distinct_ok n s" and len: "length vals = n" and row: "distinct_row vals w s = Ok (s', out)"
  let ?old = "arr_weight (entries s) (row_key vals)"
  obtain new_w where new_w: "ival new_w = arr_sem (entries s) vals + ival w"
      and s': "s' = distinct_maintain vals new_w s" and out: "out = zero_crossing vals ?old new_w"
    using row by (auto simp: distinct_row_def Let_def rbind_Ok i64_checked_add_Some arr_sem_def)
  have sem: "arr_sem (entries s') = (\<lambda>i. arr_sem (entries s) i + weigh [(vals, w)] i)"
    by (auto simp: s' distinct_maintain_sem [OF ok] new_w fun_eq_iff)
  have "telescopes (distinct_view (arr_sem (entries s))) out (distinct_view (arr_sem (entries s')))"
    by (rule telescopes_single)
      (auto simp: distinct_view_def out zero_crossing s' distinct_maintain_sem [OF ok] arr_sem_def)
  then show "distinct_ok n s' \<and> arr_sem (entries s') = (\<lambda>i. arr_sem (entries s) i + weigh [(vals, w)] i)
      \<and> telescopes (distinct_view (arr_sem (entries s))) out (distinct_view (arr_sem (entries s')))
      \<and> fst ` set out \<subseteq> {vals}"
    using sem zero_crossing(3) distinct_maintain_ok [OF ok len] by (simp add: s' out)
qed (auto simp: distinct_view_def)

text \<open>What a caller of an operator sees: the delta it returns, and the state for the next call.\<close>

definition distinct_step ::
  "DistinctOp \<Rightarrow> arrow_row ArrowZSet \<Rightarrow> (ZError, DistinctOp \<times> row_vals ArrowZSet) result" where
  "distinct_step op delta = rbind (distinct_process_delta op delta) (\<lambda>(op', r). rbind r (\<lambda>z. Ok (op', z)))"

definition distinct_op_ok :: "nat \<Rightarrow> DistinctOp \<Rightarrow> bool" where
  "distinct_op_ok n op \<longleftrightarrow> 0 < n \<and> num_cols op = n \<and> distinct_ok n (state op)
     \<and> fill_level op = length (entries (state op))"

definition delta_ok :: "nat \<Rightarrow> arrow_row ArrowZSet \<Rightarrow> bool" where
  "delta_ok n d \<longleftrightarrow> list_all (\<lambda>r. length r = n) (data d) \<and> aligned d"

definition delta_rows :: "arrow_row ArrowZSet \<Rightarrow> (row_vals \<times> i64) list" where
  "delta_rows d = delta_entries (\<lambda>vals. vals) (data d) (weights d)"

lemma distinct_process_spec:
  assumes "distinct_op_ok n op" and "delta_ok n d" and "distinct_process_delta op d = Ok (op', r)"
  shows "distinct_op_ok n op'
    \<and> arr_sem (entries (state op')) = (\<lambda>i. arr_sem (entries (state op)) i + weigh (delta_rows d) i)
    \<and> (\<exists>z. r = Ok z \<and> zs_sem z = (\<lambda>i. distinct_view (arr_sem (entries (state op'))) i
        - distinct_view (arr_sem (entries (state op))) i))"
proof (cases "data d = []")
  case True
  then show ?thesis
    using assms by (auto simp: distinct_process_delta_def delta_rows_def delta_entries_def empty_zset_def
        zs_sem_def fun_eq_iff)
next
  case False
  then obtain s out where loop: "row_loop distinct_row (data d) (weights d) (state op) = Ok (s, out)"
      and op': "op' = op\<lparr>state := s, fill_level := entry_count s\<rparr>" and r: "r = build_output (num_cols op) out"
    using assms(3) by (auto simp: distinct_process_delta_def rbind_Ok)
  have ok: "distinct_ok n (state op)" "0 < n" "num_cols op = n" using assms(1) by (auto simp: distinct_op_ok_def)
  have rows: "\<forall>r \<in> set (data d). length r = n" using assms(2) by (simp add: delta_ok_def list_all_iff)
  note sp = distinct_rows.loop_spec [OF ok(1) rows loop]
  from build_output_spec [OF ok(2) distinct_rows.loop_telescopes [OF ok(1) rows loop]
      distinct_rows.loop_rows [OF ok(1) rows loop]]
  obtain z where "r = Ok z"
      "zs_sem z = (\<lambda>i. distinct_view (arr_sem (entries s)) i - distinct_view (arr_sem (entries (state op))) i)"
    using ok(3) by (auto simp: r)
  then show ?thesis
    using sp ok by (simp add: op' distinct_op_ok_def entry_count_def delta_rows_def)
qed

interpretation distinct_deltas: delta_operator distinct_step "distinct_op_ok n" "delta_ok n"
  "\<lambda>op. arr_sem (entries (state op))" distinct_view delta_rows zs_sem for n
proof unfold_locales
  fix op d
  assume ok: "distinct_op_ok n op" and d: "delta_ok n d"
    and fit: "fits (arr_sem (entries (state op))) (delta_rows d)"
  have "is_ok (row_loop distinct_row (data d) (weights d) (state op))"
    by (rule distinct_rows.loop_Ok [of n])
      (use ok d fit in \<open>auto simp: distinct_op_ok_def delta_ok_def list_all_iff aligned_def delta_rows_def\<close>)
  then obtain op' r where p: "distinct_process_delta op d = Ok (op', r)"
    by (cases "data d = []") (auto simp: is_ok_iff distinct_process_delta_def)
  then show "is_ok (distinct_step op d)"
    using distinct_process_spec [OF ok d p] by (auto simp: distinct_step_def)
next
  fix op d op' z
  assume ok: "distinct_op_ok n op" and d: "delta_ok n d" and step: "distinct_step op d = Ok (op', z)"
  then obtain r where p: "distinct_process_delta op d = Ok (op', r)" and r: "r = Ok z"
    by (auto simp: distinct_step_def rbind_Ok)
  show "distinct_op_ok n op' \<and>
      arr_sem (entries (state op')) = (\<lambda>i. arr_sem (entries (state op)) i + weigh (delta_rows d) i) \<and>
      zs_sem z = (\<lambda>r. distinct_view (arr_sem (entries (state op'))) r - distinct_view (arr_sem (entries (state op))) r)"
    using distinct_process_spec [OF ok d p] r by auto
qed

section \<open>Intersect and except\<close>

definition dual_sem :: "DualArrangement \<Rightarrow> Side \<times> row_vals \<Rightarrow> int" where
  "dual_sem d p = arr_sem (side_map (fst p) d) (snd p)"

definition dual_ok :: "nat \<Rightarrow> DualArrangement \<Rightarrow> bool" where
  "dual_ok n d \<longleftrightarrow> arr_ok n (left d) \<and> arr_ok n (right d)"

definition set_view :: "(int \<Rightarrow> int \<Rightarrow> bool \<Rightarrow> int) \<Rightarrow> bool \<Rightarrow> (Side \<times> row_vals \<Rightarrow> int) \<Rightarrow> row_vals \<Rightarrow> int" where
  "set_view W all c r = W (c (Left, r)) (c (Right, r)) all"

definition set_step ::
  "(i64 \<Rightarrow> i64 \<Rightarrow> bool \<Rightarrow> (ZError, i64) result) \<Rightarrow> SetOp \<Rightarrow> arrow_row ArrowZSet \<times> arrow_row ArrowZSet \<Rightarrow>
     (ZError, SetOp \<times> row_vals ArrowZSet) result" where
  "set_step wfun op d =
     rbind (set_process_epoch wfun op (fst d) (snd d)) (\<lambda>(op', r). rbind r (\<lambda>z. Ok (op', z)))"

definition set_op_ok :: "nat \<Rightarrow> bool \<Rightarrow> SetOp \<Rightarrow> bool" where
  "set_op_ok n all op \<longleftrightarrow> 0 < n \<and> set_cols op = n \<and> all_rows op = all \<and> dual_ok n (dual op)
     \<and> set_fill_level op = length (left (dual op)) + length (right (dual op))"

definition epoch_rows :: "arrow_row ArrowZSet \<times> arrow_row ArrowZSet \<Rightarrow> ((Side \<times> row_vals) \<times> i64) list" where
  "epoch_rows d = delta_entries (Pair Left) (data (fst d)) (weights (fst d))
     @ delta_entries (Pair Right) (data (snd d)) (weights (snd d))"

lemma side_map_simps [simp]:
  "side_map s (set_side_map s' m d) = (if s = s' then m else side_map s d)"
  by (cases s; cases s') (simp_all add: side_map_def set_side_map_def)

lemma side_map_sides: "left d = side_map Left d" "right d = side_map Right d"
  by (simp_all add: side_map_def)

lemma dual_ok_side: "dual_ok n d \<longleftrightarrow> (\<forall>s. arr_ok n (side_map s d))"
  by (auto simp: dual_ok_def side_map_def split: Side.splits)

lemma dual_apply_spec:
  assumes "dual_ok n d" and "length vals = n"
  shows "case dual_apply s (row_key vals) vals w d of
      Ok d' \<Rightarrow> dual_ok n d' \<and> dual_sem d' = (\<lambda>i. dual_sem d i + weigh [((s, vals), w)] i)
    | Err e \<Rightarrow> False
    | Panic \<Rightarrow> \<not> in_i64 (dual_sem d (s, vals) + ival w)"
proof (cases "i64_checked_add (arr_weight (side_map s d) (row_key vals)) w")
  case None
  then have "\<not> in_i64 (dual_sem d (s, vals) + ival w)"
    by (simp add: i64_checked_add_None dual_sem_def arr_sem_def)
  then show ?thesis using None by (simp add: dual_apply_def Let_def)
next
  case (Some x)
  then have x: "ival x = dual_sem d (s, vals) + ival w"
    by (simp add: i64_checked_add_Some dual_sem_def arr_sem_def)
  let ?m = "if x \<noteq> 0 then bt_insert (row_key vals) (x, vals) (side_map s d) else bt_remove (row_key vals) (side_map s d)"
  have "dual_apply s (row_key vals) vals w d = Ok (set_side_map s ?m d)"
    using Some by (simp add: dual_apply_def)
  moreover have "arr_ok n ?m" using assms by (auto simp: dual_ok_side arr_ok_insert arr_ok_remove)
  moreover have "arr_sem ?m = (arr_sem (side_map s d))(vals := ival x)"
    by (auto simp: arr_sem_insert arr_sem_remove fun_eq_iff)
  ultimately show ?thesis
    using assms(1) x by (auto simp: dual_ok_side dual_sem_def fun_eq_iff)
qed

locale weight_function =
  fixes wfun :: "i64 \<Rightarrow> i64 \<Rightarrow> bool \<Rightarrow> (ZError, i64) result"
    and W :: "int \<Rightarrow> int \<Rightarrow> bool \<Rightarrow> int"
  assumes wfun_Ok: "\<exists>x. wfun l r all = Ok x \<and> ival x = W (ival l) (ival r) all"
    and W_nonneg: "0 \<le> W i j all"
begin

lemma out_weight_Ok:
  "\<exists>x. out_weight wfun all (row_key vals) d = Ok x \<and> ival x = set_view W all (dual_sem d) vals"
  using wfun_Ok [of "arr_weight (left d) (row_key vals)" "arr_weight (right d) (row_key vals)" all]
  by (simp add: out_weight_def set_view_def dual_sem_def arr_sem_def side_map_def)

lemma view_bounds: "0 \<le> set_view W all (dual_sem d) vals \<and> set_view W all (dual_sem d) vals < 2 ^ 63"
  using out_weight_Ok [of all vals d] W_nonneg ival_bounds by (metis set_view_def)

lemma side_row_spec:
  assumes "dual_ok n d" and "length vals = n"
  shows "case side_row wfun all s vals w d of
      Ok (d', out) \<Rightarrow> dual_ok n d' \<and> dual_sem d' = (\<lambda>i. dual_sem d i + weigh [((s, vals), w)] i)
        \<and> (\<forall>r. weigh out r = set_view W all (dual_sem d') r - set_view W all (dual_sem d) r)
        \<and> length out \<le> 1 \<and> fst ` set out \<subseteq> {vals}
    | Err e \<Rightarrow> False
    | Panic \<Rightarrow> \<not> in_i64 (dual_sem d (s, vals) + ival w)"
proof (cases "dual_apply s (row_key vals) vals w d")
  case (Ok d')
  have d': "dual_ok n d'" "dual_sem d' = (\<lambda>i. dual_sem d i + weigh [((s, vals), w)] i)"
    using dual_apply_spec [OF assms, of s w] Ok by auto
  obtain x where x: "out_weight wfun all (row_key vals) d = Ok x" "ival x = set_view W all (dual_sem d) vals"
    using out_weight_Ok by blast
  obtain y where y: "out_weight wfun all (row_key vals) d' = Ok y" "ival y = set_view W all (dual_sem d') vals"
    using out_weight_Ok by blast
  have "in_i64 (ival y - ival x)"
    using view_bounds [of all d vals] view_bounds [of all d' vals] by (simp add: x y in_i64_def)
  then obtain z where z: "i64_checked_sub y x = Some z" "ival z = ival y - ival x"
    by (auto simp: i64_checked_sub_def i64_checked_def)
  have "side_row wfun all s vals w d = Ok (d', if z \<noteq> 0 then [(vals, z)] else [])"
    using Ok x(1) y(1) z(1) by (simp add: side_row_def)
  moreover have "weigh (if z \<noteq> 0 then [(vals, z)] else []) r =
      set_view W all (dual_sem d') r - set_view W all (dual_sem d) r" for r
  proof (cases "r = vals")
    case True
    then show ?thesis using z(2) x(2) y(2) by (cases "z = 0") auto
  next
    case False
    then have "set_view W all (dual_sem d') r = set_view W all (dual_sem d) r"
      by (simp add: set_view_def d'(2))
    then show ?thesis using False by simp
  qed
  ultimately show ?thesis using d' by (simp del: weigh.simps)
qed (use dual_apply_spec [OF assms, of s w] out_weight_Ok [of all vals d] in \<open>auto simp: side_row_def Let_def\<close>)

end

sublocale weight_function < side_rows: row_processor "side_row wfun all s" "dual_ok n" n dual_sem
  "set_view W all" "Pair s" for n all s
proof unfold_locales
  fix d vals w
  assume "dual_ok n d" "length vals = n" "in_i64 (dual_sem d (s, vals) + ival w)"
  then show "is_ok (side_row wfun all s vals w d)"
    using side_row_spec [where n = n and d = d and vals = vals and all = all and s = s and w = w] by (cases "side_row wfun all s vals w d") auto
next
  fix d vals w d' out
  assume "dual_ok n d" "length vals = n" "side_row wfun all s vals w d = Ok (d', out)"
  then have sp: "dual_ok n d'" "dual_sem d' = (\<lambda>i. dual_sem d i + weigh [((s, vals), w)] i)"
      "\<forall>r. weigh out r = set_view W all (dual_sem d') r - set_view W all (dual_sem d) r"
      "length out \<le> 1" "fst ` set out \<subseteq> {vals}"
    using side_row_spec [where n = n and d = d and vals = vals and all = all and s = s and w = w] by auto
  have "telescopes (set_view W all (dual_sem d)) out (set_view W all (dual_sem d'))"
    by (rule telescopes_single) (use sp(3,4) view_bounds in auto)
  then show "dual_ok n d' \<and> dual_sem d' = (\<lambda>i. dual_sem d i + weigh [((s, vals), w)] i) \<and>
      telescopes (set_view W all (dual_sem d)) out (set_view W all (dual_sem d')) \<and> fst ` set out \<subseteq> {vals}"
    using sp by blast
qed (rule view_bounds)

context weight_function
begin

lemma process_spec:
  assumes "set_op_ok n all op" and "delta_ok n (fst d)" and "delta_ok n (snd d)"
    and "set_process_epoch wfun op (fst d) (snd d) = Ok (op', r)"
  shows "set_op_ok n all op'
    \<and> dual_sem (dual op') = (\<lambda>i. dual_sem (dual op) i + weigh (epoch_rows d) i)
    \<and> (\<exists>z. r = Ok z \<and> zs_sem z =
        (\<lambda>i. set_view W all (dual_sem (dual op')) i - set_view W all (dual_sem (dual op)) i))"
proof -
  have ok: "dual_ok n (dual op)" "0 < n" "set_cols op = n" "all_rows op = all"
    using assms(1) by (auto simp: set_op_ok_def)
  have rows: "\<forall>r \<in> set (data (fst d)). length r = n" "\<forall>r \<in> set (data (snd d)). length r = n"
    using assms(2,3) by (simp_all add: delta_ok_def list_all_iff)
  obtain d1 out1 d2 out2 where
      l: "row_loop (side_row wfun all Left) (data (fst d)) (weights (fst d)) (dual op) = Ok (d1, out1)"
    and r2: "row_loop (side_row wfun all Right) (data (snd d)) (weights (snd d)) d1 = Ok (d2, out2)"
    and op': "op' = op\<lparr>dual := d2, set_fill_level := length (left d2) + length (right d2)\<rparr>"
    and r: "r = build_output n (out1 @ out2)"
    using assms(4) ok by (auto simp: set_process_epoch_def rbind_Ok)
  note d1 = side_rows.loop_inv [OF ok(1) rows(1) l]
  note sp1 = side_rows.loop_spec [OF ok(1) rows(1) l] and sp2 = side_rows.loop_spec [OF d1 rows(2) r2]
  have "telescopes (set_view W all (dual_sem (dual op))) (out1 @ out2) (set_view W all (dual_sem d2))"
    by (rule telescopes_append [OF side_rows.loop_telescopes [OF ok(1) rows(1) l]
          side_rows.loop_telescopes [OF d1 rows(2) r2]])
  moreover have "fst ` set (out1 @ out2) \<subseteq> {vals. length vals = n}"
    using side_rows.loop_rows [OF ok(1) rows(1) l] side_rows.loop_rows [OF d1 rows(2) r2]
    by (simp add: image_Un)
  ultimately obtain z where "r = Ok z"
      "zs_sem z = (\<lambda>i. set_view W all (dual_sem d2) i - set_view W all (dual_sem (dual op)) i)"
    using build_output_spec [OF ok(2)] unfolding r by blast
  then show ?thesis
    using sp1 sp2 ok by (auto simp: op' set_op_ok_def epoch_rows_def add.assoc)
qed

lemma process_Ok:
  assumes "set_op_ok n all op" and "delta_ok n (fst d)" and "delta_ok n (snd d)"
    and "fits (dual_sem (dual op)) (epoch_rows d)"
  shows "is_ok (set_process_epoch wfun op (fst d) (snd d))"
proof -
  have ok: "dual_ok n (dual op)" "all_rows op = all" using assms(1) by (auto simp: set_op_ok_def)
  have rows: "\<forall>r \<in> set (data (fst d)). length r = n" "\<forall>r \<in> set (data (snd d)). length r = n"
    "length (data (fst d)) \<le> length (weights (fst d))" "length (data (snd d)) \<le> length (weights (snd d))"
    using assms(2,3) by (simp_all add: delta_ok_def list_all_iff aligned_def)
  have f: "fits (dual_sem (dual op)) (delta_entries (Pair Left) (data (fst d)) (weights (fst d)))"
    "fits (\<lambda>i. dual_sem (dual op) i + weigh (delta_entries (Pair Left) (data (fst d)) (weights (fst d))) i)
      (delta_entries (Pair Right) (data (snd d)) (weights (snd d)))"
    using assms(4) by (simp_all add: epoch_rows_def fits_append)
  obtain d1 out1 where l: "row_loop (side_row wfun all Left) (data (fst d)) (weights (fst d)) (dual op) = Ok (d1, out1)"
    using side_rows.loop_Ok [OF ok(1) rows(1,3) f(1), of all] by (auto simp: is_ok_iff)
  note sp1 = side_rows.loop_spec [OF ok(1) rows(1) l]
  have "is_ok (row_loop (side_row wfun all Right) (data (snd d)) (weights (snd d)) d1)"
    by (rule side_rows.loop_Ok [of n]) (use sp1 rows f(2) in auto)
  then show ?thesis using l ok(2) by (auto simp: set_process_epoch_def is_ok_iff)
qed

end

sublocale weight_function < set_deltas: delta_operator "set_step wfun" "set_op_ok n all"
  "\<lambda>d. delta_ok n (fst d) \<and> delta_ok n (snd d)" "\<lambda>op. dual_sem (dual op)" "set_view W all" epoch_rows zs_sem
  for n all
proof unfold_locales
  fix op d
  assume ok: "set_op_ok n all op" and d: "delta_ok n (fst d) \<and> delta_ok n (snd d)"
    and fit: "fits (dual_sem (dual op)) (epoch_rows d)"
  then obtain op' r where p: "set_process_epoch wfun op (fst d) (snd d) = Ok (op', r)"
    using process_Ok [of n all op d] by (auto simp: is_ok_iff)
  then show "is_ok (set_step wfun op d)"
    using process_spec [of n all op d] ok d by (auto simp: set_step_def)
next
  fix op d op' z
  assume "set_op_ok n all op" and "delta_ok n (fst d) \<and> delta_ok n (snd d)" and "set_step wfun op d = Ok (op', z)"
  then show "set_op_ok n all op' \<and> dual_sem (dual op') = (\<lambda>i. dual_sem (dual op) i + weigh (epoch_rows d) i) \<and>
      zs_sem z = (\<lambda>r. set_view W all (dual_sem (dual op')) r - set_view W all (dual_sem (dual op)) r)"
    using process_spec [of n all op d op' "Ok z"] by (auto simp: set_step_def rbind_Ok)
qed

definition intersect_spec :: "int \<Rightarrow> int \<Rightarrow> bool \<Rightarrow> int" where
  "intersect_spec l r all = (if all then min (max l 0) (max r 0) else if 0 < l \<and> 0 < r then 1 else 0)"

definition except_spec :: "int \<Rightarrow> int \<Rightarrow> bool \<Rightarrow> int" where
  "except_spec l r all = (if all then max (max l 0 - max r 0) 0 else if 0 < l \<and> r \<le> 0 then 1 else 0)"

lemma ival_clamp01 [simp]: "ival (clamp01 w) = (if 0 < ival w then 1 else 0)"
  by (simp add: clamp01_def i64_order)

lemma sub_nonneg:
  assumes "0 \<le> ival x" and "0 \<le> ival y"
  obtains z where "i64_checked_sub x y = Some z" "ival z = ival x - ival y"
proof -
  have "in_i64 (ival x - ival y)" using assms ival_bounds [of x] ival_bounds [of y] by (simp add: in_i64_def)
  then show ?thesis by (intro that) (auto simp: i64_checked_sub_def i64_checked_def)
qed

interpretation intersect_op: weight_function intersect_weight intersect_spec
  by unfold_locales (auto simp: intersect_weight_def intersect_spec_def)

interpretation except_op: weight_function except_weight except_spec
proof unfold_locales
  fix l r :: i64 and all
  show "\<exists>x. except_weight l r all = Ok x \<and> ival x = except_spec (ival l) (ival r) all"
  proof (cases all)
    case True
    obtain z where "i64_checked_sub (max l 0) (max r 0) = Some z" "ival z = max (ival l) 0 - max (ival r) 0"
      by (rule sub_nonneg [of "max l 0" "max r 0"]) auto
    then show ?thesis using True by (simp add: except_weight_def except_spec_def)
  next
    case False
    obtain z where "i64_checked_sub (clamp01 l) (clamp01 r) = Some z" "ival z = ival (clamp01 l) - ival (clamp01 r)"
      by (rule sub_nonneg [of "clamp01 l" "clamp01 r"]) auto
    then show ?thesis using False by (simp add: except_weight_def except_spec_def)
  qed
qed (simp add: except_spec_def)

section \<open>Properties of the operators\<close>

lemma i64_zero_neq_one [simp]: "(0 :: i64) \<noteq> 1" "(1 :: i64) \<noteq> 0"
  by (metis ival_zero ival_one zero_neq_one)+

definition intersect_step ::
  "SetOp \<Rightarrow> arrow_row ArrowZSet \<times> arrow_row ArrowZSet \<Rightarrow> (ZError, SetOp \<times> row_vals ArrowZSet) result" where
  "intersect_step op d =
     rbind (intersect_process_epoch op (fst d) (snd d)) (\<lambda>(op', r). rbind r (\<lambda>z. Ok (op', z)))"

definition except_step ::
  "SetOp \<Rightarrow> arrow_row ArrowZSet \<times> arrow_row ArrowZSet \<Rightarrow> (ZError, SetOp \<times> row_vals ArrowZSet) result" where
  "except_step op d =
     rbind (except_process_epoch op (fst d) (snd d)) (\<lambda>(op', r). rbind r (\<lambda>z. Ok (op', z)))"

lemma set_steps: "intersect_step = set_step intersect_weight" "except_step = set_step except_weight"
  by (simp_all add: intersect_step_def except_step_def set_step_def intersect_process_epoch_def
      except_process_epoch_def fun_eq_iff)

text \<open>
  (C1) The distinct operator refines the distinct view of its input. On any sequence of aligned
  deltas of its arity whose running totals fit in an \<open>i64\<close>, every call succeeds; the arrangement
  holds the total input weight of every row; the deltas it has emitted add up to the change of the
  view that gives weight 1 to the rows of positive total; and the fill level and the byte counters
  of the state are exact.
\<close>

theorem distinct_refines:
  assumes "distinct_op_ok n op" and "list_all (delta_ok n) ds"
    and "fits (arr_sem (entries (state op))) (concat (map delta_rows ds))"
  shows "\<exists>op' outs. run_deltas distinct_step op ds = Ok (op', outs) \<and> distinct_op_ok n op'
    \<and> arr_sem (entries (state op')) =
        (\<lambda>r. arr_sem (entries (state op)) r + weigh (concat (map delta_rows ds)) r)
    \<and> (\<forall>r. sum_list (map (\<lambda>out. zs_sem out r) outs) =
        (if 0 < arr_sem (entries (state op')) r then 1 else 0)
        - (if 0 < arr_sem (entries (state op)) r then 1 else 0))"
  using distinct_deltas.stream_spec [OF assms] by (simp add: distinct_view_def)

definition demo_deltas :: "arrow_row ArrowZSet list" where
  "demo_deltas = [\<lparr>data = [[Some 1], [Some 0]], weights = [of_ival 2, 1], frontier = None\<rparr>,
     \<lparr>data = [[Some 0], [Some 1]], weights = [of_ival (- 1), of_ival (- 1)], frontier = None\<rparr>]"

theorem distinct_refines_witness:
  "\<exists>op' outs. run_deltas distinct_step (distinct_new 1) demo_deltas = Ok (op', outs)
    \<and> arr_sem (entries (state op')) [1] = 1 \<and> arr_sem (entries (state op')) [0] = 0
    \<and> sum_list (map (\<lambda>out. zs_sem out [1]) outs) = 1 \<and> sum_list (map (\<lambda>out. zs_sem out [0]) outs) = 0"
proof -
  have empty: "arr_sem [] r = 0" for r by (simp add: arr_sem_def arr_weight_def)
  have ok: "distinct_op_ok 1 (distinct_new 1)"
    by (simp add: distinct_op_ok_def distinct_new_def distinct_state_new_def distinct_ok_def
        entries_cost_def deleted_cost_def)
  note eval = demo_deltas_def delta_rows_def delta_entries_def distinct_new_def distinct_state_new_def
    empty extract_row_vals_def in_i64_def
  have fit: "fits (arr_sem (entries (state (distinct_new 1)))) (concat (map delta_rows demo_deltas))"
    by (simp add: eval)
  have accepted: "list_all (delta_ok 1) demo_deltas" by (simp add: demo_deltas_def delta_ok_def aligned_def)
  have w: "weigh (concat (map delta_rows demo_deltas)) [1] = 1" "weigh (concat (map delta_rows demo_deltas)) [0] = 0"
    "arr_sem (entries (state (distinct_new 1))) r = 0" for r
    by (simp_all add: eval)
  show ?thesis using distinct_refines [OF ok accepted fit] w by fastforce
qed

text \<open>
  (C2) The intersect and except operators refine their views of the two inputs, with and without
  \<open>ALL\<close>. On any sequence of epochs of aligned deltas whose running totals fit in an \<open>i64\<close>, every
  call succeeds, the two arrangements hold the total input weights, and the emitted deltas add up
  to the change of the view: for intersect the smaller of the two clamped weights, for except the
  clamped difference.
\<close>

theorem set_operators_refine:
  assumes "set_op_ok n all op" and "list_all (\<lambda>d. delta_ok n (fst d) \<and> delta_ok n (snd d)) ds"
    and "fits (dual_sem (dual op)) (concat (map epoch_rows ds))"
  shows "(\<exists>op' outs. run_deltas intersect_step op ds = Ok (op', outs) \<and> set_op_ok n all op'
      \<and> dual_sem (dual op') = (\<lambda>p. dual_sem (dual op) p + weigh (concat (map epoch_rows ds)) p)
      \<and> (\<forall>r. sum_list (map (\<lambda>out. zs_sem out r) outs) =
          intersect_spec (dual_sem (dual op') (Left, r)) (dual_sem (dual op') (Right, r)) all
          - intersect_spec (dual_sem (dual op) (Left, r)) (dual_sem (dual op) (Right, r)) all))
    \<and> (\<exists>op' outs. run_deltas except_step op ds = Ok (op', outs) \<and> set_op_ok n all op'
      \<and> dual_sem (dual op') = (\<lambda>p. dual_sem (dual op) p + weigh (concat (map epoch_rows ds)) p)
      \<and> (\<forall>r. sum_list (map (\<lambda>out. zs_sem out r) outs) =
          except_spec (dual_sem (dual op') (Left, r)) (dual_sem (dual op') (Right, r)) all
          - except_spec (dual_sem (dual op) (Left, r)) (dual_sem (dual op) (Right, r)) all))"
  using intersect_op.set_deltas.stream_spec [OF assms] except_op.set_deltas.stream_spec [OF assms]
  by (simp add: set_view_def set_steps)

theorem set_operators_refine_witness:
  "\<exists>op' outs. run_deltas except_step (set_op_new 1 True) [(hd demo_deltas, last demo_deltas)] = Ok (op', outs)
    \<and> sum_list (map (\<lambda>out. zs_sem out [1]) outs) = 2 \<and> sum_list (map (\<lambda>out. zs_sem out [0]) outs) = 1"
proof -
  have empty: "dual_sem \<lparr>left = [], right = []\<rparr> p = 0" for p
    by (simp add: dual_sem_def arr_sem_def arr_weight_def side_map_def split: Side.splits)
  have ok: "set_op_ok 1 True (set_op_new 1 True)"
    by (simp add: set_op_ok_def set_op_new_def dual_ok_def)
  note eval = demo_deltas_def epoch_rows_def delta_entries_def set_op_new_def empty extract_row_vals_def in_i64_def
  let ?ds = "[(hd demo_deltas, last demo_deltas)]"
  have fit: "fits (dual_sem (dual (set_op_new 1 True))) (concat (map epoch_rows ?ds))"
    by (simp add: eval)
  have accepted: "list_all (\<lambda>d. delta_ok 1 (fst d) \<and> delta_ok 1 (snd d)) ?ds"
    by (simp add: demo_deltas_def delta_ok_def aligned_def)
  have w: "weigh (concat (map epoch_rows ?ds)) (Left, [1]) = 2" "weigh (concat (map epoch_rows ?ds)) (Right, [1]) = - 1"
    "weigh (concat (map epoch_rows ?ds)) (Left, [0]) = 1" "weigh (concat (map epoch_rows ?ds)) (Right, [0]) = - 1"
    "dual_sem (dual (set_op_new 1 True)) p = 0" for p
    by (simp_all add: eval)
  obtain op' outs where run: "run_deltas except_step (set_op_new 1 True) ?ds = Ok (op', outs)"
    and sem: "dual_sem (dual op') = (\<lambda>p. weigh (concat (map epoch_rows ?ds)) p)"
    and out: "\<And>r. sum_list (map (\<lambda>out. zs_sem out r) outs) =
          except_spec (dual_sem (dual op') (Left, r)) (dual_sem (dual op') (Right, r)) True - except_spec 0 0 True"
    using set_operators_refine [OF ok accepted fit] w(5) by auto
  show ?thesis
    by (rule exI [of _ op'], rule exI [of _ outs]) (simp only: run out sem w, simp add: except_spec_def)
qed

end
