(* ===== verification/DistinctPersist.thy ===== *)
theory DistinctPersist
  imports Distinct Storage
begin

text \<open>
  Persistence of the distinct arrangement, from the last part of \<open>rockstream-ops/src/distinct.rs\<close>:
  the stored form of an entry, the batch that makes storage hold the current arrangement, the
  acknowledgement that forgets persisted deletions, and loading from a scan. The row hash of the
  source is modelled exactly; that it does not collide on the rows in use is an assumption of the
  statements.
\<close>

section \<open>Persistence of the distinct arrangement\<close>

definition FNV_PRIME :: u64 where "FNV_PRIME = 0x00000100000001B3"
definition OFFSET_A :: u64 where "OFFSET_A = 0xcbf29ce484222325"
definition OFFSET_B :: u64 where "OFFSET_B = 0x6c62272e07bb0142"

definition row_hash_u128 :: "bytes \<Rightarrow> u128" where
  "row_hash_u128 key_bytes =
     (let (h0, h1) = fold (\<lambda>b (h0, h1). ((h0 XOR ucast b) * FNV_PRIME, (h1 XOR ucast (b XOR 0x5A)) * FNV_PRIME))
            key_bytes (OFFSET_A, OFFSET_B)
      in push_bit 64 (ucast h0) OR ucast h1)"

definition encode_distinct_value :: "i64 \<Rightarrow> row_vals \<Rightarrow> bytes" where
  "encode_distinct_value weight vals = to_be 8 (bits weight) @ concat (map (\<lambda>v. to_be 8 (bits v)) vals)"

fun decode_cols :: "nat \<Rightarrow> bytes \<Rightarrow> row_vals option" where
  "decode_cols 0 bs = Some []"
| "decode_cols (Suc n) bs =
     (case decode_i64 (take 8 bs) of
        None \<Rightarrow> None
      | Some v \<Rightarrow> (case decode_cols n (drop 8 bs) of None \<Rightarrow> None | Some vs \<Rightarrow> Some (v # vs)))"

definition decode_distinct_value :: "bytes \<Rightarrow> (i64 \<times> row_vals) option" where
  "decode_distinct_value bs =
     (if length bs < 8 \<or> (length bs - 8) mod 8 \<noteq> 0 then None
      else
        case decode_i64 (take 8 bs) of
          None \<Rightarrow> None
        | Some weight \<Rightarrow>
            (case decode_cols ((length bs - 8) div 8) (drop 8 bs) of
               None \<Rightarrow> None
             | Some vals \<Rightarrow> Some (weight, vals)))"

definition append_distinct_state :: "u64 \<Rightarrow> DistinctOp \<Rightarrow> WriteBatch \<Rightarrow> DistinctOp \<times> WriteBatch" where
  "append_distinct_state op_id op target =
     (let st = state op;
          deletes = map (\<lambda>k. Delete (distinct_key op_id (row_hash_u128 k))) (bt_keys (deleted st));
          puts = map (\<lambda>(k, w, vals). Put (distinct_key op_id (row_hash_u128 k)) (encode_distinct_value w vals))
            (filter (\<lambda>(k, w, vals). w \<noteq> 0) (entries st))
      in (op\<lparr>state := st\<lparr>appended_deletions := deleted st, appended_deletion_bytes := deleted_bytes st\<rparr>\<rparr>,
          merge_from (deletes @ puts) target))"

definition ack_deletion :: "bytes \<times> u64 \<Rightarrow> DistinctState \<Rightarrow> (ZError, DistinctState) result" where
  "ack_deletion e st =
     (if bt_get (deleted st) (fst e) = Some (snd e) then
        (if deleted_bytes st < length (fst e) + 8 then Panic
         else Ok (st\<lparr>deleted := bt_remove (fst e) (deleted st),
                deleted_bytes := deleted_bytes st - (length (fst e) + 8)\<rparr>))
      else Ok st)"

definition ack_persisted_state :: "DistinctOp \<Rightarrow> (ZError, DistinctOp) result" where
  "ack_persisted_state op =
     rbind (rfold ack_deletion (appended_deletions (state op)) ((state op)\<lparr>appended_deletions := []\<rparr>)) (\<lambda>st.
     Ok (op\<lparr>state := st\<lparr>appended_deletion_bytes := 0\<rparr>\<rparr>))"

definition load_entry :: "bytes \<times> bytes \<Rightarrow> DistinctState \<Rightarrow> DistinctState" where
  "load_entry e st =
     (case decode_distinct_value (snd e) of
        None \<Rightarrow> st
      | Some (weight, vals) \<Rightarrow>
          if weight \<noteq> 0 then
            st\<lparr>entry_bytes := entry_bytes st + arr_entry_bytes vals,
                entries := bt_insert (row_key vals) (weight, vals) (entries st)\<rparr>
          else st)"

definition load_distinct_state :: "nat \<Rightarrow> (bytes \<times> bytes) list \<Rightarrow> DistinctOp" where
  "load_distinct_state cols scanned =
     (let st = fold load_entry scanned distinct_state_new
      in \<lparr>state = st, num_cols = cols, fill_level = entry_count st\<rparr>)"

definition restore_in_place :: "(bytes \<times> bytes) list \<Rightarrow> DistinctOp \<Rightarrow> DistinctOp" where
  "restore_in_place scanned op =
     (let restored = load_distinct_state (num_cols op) scanned
      in op\<lparr>state := state restored, fill_level := entry_count (state restored)\<rparr>)"

section \<open>Stored form\<close>

subsection \<open>Values\<close>

lemma decode_i64_to_be [simp]: "decode_i64 (to_be 8 (bits v)) = Some v"
  using i64_be.dec_enc [of v] by (simp only: encode_u64_be_eq)

lemma decode_cols_encode: "decode_cols (length vals) (row_key vals) = Some vals"
  by (induction vals) (simp_all add: row_key_Cons del: to_be.simps)

lemma decode_encode_distinct [simp]: "decode_distinct_value (encode_distinct_value w vals) = Some (w, vals)"
  using decode_cols_encode [of vals]
  by (simp add: decode_distinct_value_def encode_distinct_value_def flip: row_key_def)

subsection \<open>Stored entries\<close>

definition slot :: "u64 \<Rightarrow> bytes \<Rightarrow> bytes" where
  "slot op_id k = distinct_key op_id (row_hash_u128 k)"

definition stored :: "u64 \<Rightarrow> arrangement \<Rightarrow> contents" where
  "stored op_id m = map_of (map (\<lambda>e. (slot op_id (fst e), encode_distinct_value (fst (snd e)) (snd (snd e)))) m)"

definition under :: "u64 \<Rightarrow> bytes \<Rightarrow> bool" where
  "under op_id k \<longleftrightarrow> take (length (distinct_op_prefix op_id)) k = distinct_op_prefix op_id"

definition holds_only :: "u64 \<Rightarrow> arrangement \<Rightarrow> contents \<Rightarrow> bool" where
  "holds_only op_id m c \<longleftrightarrow> (\<forall>k. under op_id k \<longrightarrow> c k = stored op_id m k)"

text \<open>Hashes of the rows in a set are told apart by their storage keys.\<close>

definition hash_separates :: "row_vals set \<Rightarrow> bool" where
  "hash_separates R \<longleftrightarrow> inj_on (\<lambda>vals. row_hash_u128 (row_key vals)) R"

definition rows_in :: "nat \<Rightarrow> row_vals set \<Rightarrow> arrangement \<Rightarrow> bool" where
  "rows_in n R m \<longleftrightarrow> arr_ok n m \<and> (\<forall>e \<in> set m. snd (snd e) \<in> R)"

definition has_row :: "arrangement \<Rightarrow> bytes \<Rightarrow> bool" where
  "has_row m k \<longleftrightarrow> k \<in> fst ` set m"

lemma slot_prefix: "slot op_id k = distinct_op_prefix op_id @ to_be 16 (row_hash_u128 k)"
  by (simp add: slot_def distinct_key_def distinct_op_prefix_def)

lemma slot_under [simp]: "under op_id (slot op_id k)"
  by (simp add: under_def slot_prefix)

lemma slot_inject [simp]: "slot op_id k = slot op_id k' \<longleftrightarrow> row_hash_u128 k = row_hash_u128 k'"
  by (simp add: slot_def distinct_key_def)

lemma slot_same_row:
  assumes "hash_separates R" and "a \<in> R" and "b \<in> R" and "slot op_id (row_key a) = slot op_id (row_key b)"
  shows "a = b"
  using assms by (auto simp: hash_separates_def inj_on_def)

lemma stored_slots_distinct:
  assumes "hash_separates R" and "rows_in n R m"
  shows "distinct (map (\<lambda>e. slot op_id (fst e)) m)"
proof -
  have d: "distinct (bt_keys m)" using assms(2) by (auto simp: rows_in_def arr_ok_def bt_ok_distinct)
  have "inj_on (slot op_id) (set (bt_keys m))"
  proof (rule inj_onI)
    fix k k' assume "k \<in> set (bt_keys m)" "k' \<in> set (bt_keys m)" and eq: "slot op_id k = slot op_id k'"
    then obtain e e' where e: "e \<in> set m" "k = fst e" and e': "e' \<in> set m" "k' = fst e'" by auto
    have "k = row_key (snd (snd e))" "k' = row_key (snd (snd e'))" "snd (snd e) \<in> R" "snd (snd e') \<in> R"
      using assms(2) e e' by (auto simp: rows_in_def arr_ok_def list_all_iff)
    then show "k = k'" using slot_same_row [OF assms(1)] eq by metis
  qed
  then have "distinct (map (slot op_id) (bt_keys m))" using d distinct_map by blast
  then show ?thesis by (simp add: comp_def)
qed

lemma stored_Some:
  assumes "hash_separates R" and "rows_in n R m"
  shows "stored op_id m k = Some v \<longleftrightarrow>
    (\<exists>w vals. (row_key vals, w, vals) \<in> set m \<and> k = slot op_id (row_key vals) \<and> v = encode_distinct_value w vals)"
proof -
  have "distinct (map fst (map (\<lambda>e. (slot op_id (fst e), encode_distinct_value (fst (snd e)) (snd (snd e)))) m))"
    using stored_slots_distinct [OF assms] by (simp add: comp_def case_prod_beta)
  then have "stored op_id m k = Some v \<longleftrightarrow>
      (k, v) \<in> set (map (\<lambda>e. (slot op_id (fst e), encode_distinct_value (fst (snd e)) (snd (snd e)))) m)"
    unfolding stored_def by (rule map_of_eq_Some_iff)
  also have "\<dots> \<longleftrightarrow> (\<exists>r w vals. (r, w, vals) \<in> set m \<and> k = slot op_id r \<and> v = encode_distinct_value w vals)"
    by (auto intro!: rev_image_eqI) blast+
  also have "\<dots> \<longleftrightarrow> (\<exists>w vals. (row_key vals, w, vals) \<in> set m \<and> k = slot op_id (row_key vals)
      \<and> v = encode_distinct_value w vals)"
  proof -
    have "r = row_key vals" if "(r, w, vals) \<in> set m" for r w vals
      using assms(2) that by (auto simp: rows_in_def arr_ok_def list_all_iff)
    then show ?thesis by metis
  qed
  finally show ?thesis .
qed

lemma stored_None: "stored op_id m k = None \<longleftrightarrow> k \<notin> slot op_id ` fst ` set m"
  by (simp add: stored_def map_of_eq_None_iff image_image)

subsection \<open>Writing\<close>

lemma append_batch_effect:
  assumes sep: "hash_separates R" and m: "rows_in n R m" and s: "rows_in n R (entries st)"
    and c: "holds_only op_id m c"
    and covers: "\<And>k. has_row m k \<Longrightarrow> has_row (entries st) k \<or> bt_contains (deleted st) k"
    and target: "\<And>x. x \<in> set target \<Longrightarrow> \<not> under op_id (op_key x)"
    and op: "append_distinct_state op_id op target = (op', b)" "state op = st"
  shows "holds_only op_id (entries st) (write_batch mrg b c)"
  unfolding holds_only_def
proof (intro allI impI)
  fix k assume k: "under op_id k"
  let ?puts = "map (\<lambda>e. Put (slot op_id (fst e)) (encode_distinct_value (fst (snd e)) (snd (snd e)))) (entries st)"
  let ?deletes = "map (\<lambda>k. Delete (slot op_id k)) (bt_keys (deleted st))"
  have "filter (\<lambda>(k, w, vals). w \<noteq> 0) (entries st) = entries st"
    using s by (intro filter_True) (auto simp: rows_in_def arr_ok_def list_all_iff)
  then have b: "b = target @ ?deletes @ ?puts"
    using op by (auto simp: append_distinct_state_def Let_def merge_from_def slot_def case_prod_beta)
  have t: "write_batch mrg target c k = stored op_id m k"
    using write_batch_other [of k target mrg c] target k c by (auto simp: holds_only_def)
  have st: "stored op_id (entries st) =
      map_of (map (\<lambda>e. (slot op_id (fst e), encode_distinct_value (fst (snd e)) (snd (snd e)))) (entries st))"
    by (simp add: stored_def)
  have "write_batch mrg b c k =
      (case stored op_id (entries st) k of
        Some v \<Rightarrow> Some v
      | None \<Rightarrow> if k \<in> slot op_id ` set (bt_keys (deleted st)) then None else stored op_id m k)"
    unfolding b write_batch_append st
    by (subst write_puts [OF stored_slots_distinct [OF sep s]]) (simp only: write_deletes t)
  moreover have "stored op_id m k = None"
    if "stored op_id (entries st) k = None" "k \<notin> slot op_id ` set (bt_keys (deleted st))"
  proof -
    have "k \<noteq> slot op_id (fst e)" if "e \<in> set m" for e
    proof
      assume "k = slot op_id (fst e)"
      moreover have "has_row (entries st) (fst e) \<or> bt_contains (deleted st) (fst e)"
        using covers that by (auto simp: has_row_def)
      ultimately show False
        using \<open>stored op_id (entries st) k = None\<close> \<open>k \<notin> slot op_id ` set (bt_keys (deleted st))\<close>
        by (auto simp: stored_None has_row_def bt_contains_iff)
    qed
    then show ?thesis by (auto simp: stored_None)
  qed
  ultimately show "write_batch mrg b c k = stored op_id (entries st) k"
    by (auto split: option.splits)
qed

subsection \<open>Loading\<close>

definition loaded_entry :: "bytes \<times> bytes \<Rightarrow> bytes \<times> i64 \<times> row_vals" where
  "loaded_entry e = (let d = the (decode_distinct_value (snd e)) in (row_key (snd d), d))"

lemma load_fold:
  assumes "distinct_ok n s"
    and "\<forall>e \<in> set es. \<exists>w vals. snd e = encode_distinct_value w vals \<and> w \<noteq> 0 \<and> length vals = n"
    and "distinct (map (\<lambda>e. fst (loaded_entry e)) es)"
    and "\<forall>e \<in> set es. \<not> has_row (entries s) (fst (loaded_entry e))"
  shows "distinct_ok n (fold load_entry es s)
    \<and> set (entries (fold load_entry es s)) = set (entries s) \<union> loaded_entry ` set es
    \<and> deleted (fold load_entry es s) = deleted s
    \<and> appended_deletions (fold load_entry es s) = appended_deletions s"
  using assms
proof (induction es arbitrary: s)
  case (Cons e es)
  obtain w vals where e: "snd e = encode_distinct_value w vals" "w \<noteq> 0" "length vals = n"
    using Cons.prems(2) by auto
  let ?s = "load_entry e s"
  have le: "loaded_entry e = (row_key vals, w, vals)" by (simp add: loaded_entry_def e(1))
  have new: "\<not> bt_contains (entries s) (row_key vals)"
    using Cons.prems(4) le by (simp add: has_row_def bt_contains_iff)
  have s: "?s = s\<lparr>entry_bytes := entry_bytes s + arr_entry_bytes vals,
      entries := bt_insert (row_key vals) (w, vals) (entries s)\<rparr>"
    using e by (simp add: load_entry_def)
  have ok: "arr_ok n (entries s)" using Cons.prems(1) by (simp add: distinct_ok_def)
  have "set (entries ?s) = insert (loaded_entry e) (set (entries s))"
    using new ok by (force simp: s le bt_set_insert arr_ok_def bt_contains_iff)
  moreover have "distinct_ok n ?s"
    using Cons.prems(1) e new entries_cost_insert [OF ok, of vals w]
    by (simp add: s distinct_ok_def arr_ok_insert)
  moreover have "\<forall>e' \<in> set es. \<not> has_row (entries ?s) (fst (loaded_entry e'))"
    using Cons.prems(3,4) by (force simp: s has_row_def le)
  ultimately show ?case
    using Cons.IH [of ?s] Cons.prems(2,3) by (auto simp: s)
qed simp

lemma load_restores:
  assumes "hash_separates R" and "rows_in n R m" and "holds_only op_id m c"
    and "scan_of c (distinct_op_prefix op_id) es"
  shows "entries (state (load_distinct_state n es)) = m" and "distinct_ok n (state (load_distinct_state n es))"
    and "deleted (state (load_distinct_state n es)) = []"
    and "appended_deletions (state (load_distinct_state n es)) = []"
proof -
  have in_es: "(k, v) \<in> set es \<longleftrightarrow> under op_id k \<and> stored op_id m k = Some v" for k v
    using assms(3,4) by (auto simp: scan_of_def under_def holds_only_def)
  have each: "\<exists>w vals. (row_key vals, w, vals) \<in> set m \<and> e = (slot op_id (row_key vals), encode_distinct_value w vals)"
    if "e \<in> set es" for e
    using that in_es [of "fst e" "snd e"] stored_Some [OF assms(1,2), of op_id "fst e" "snd e"]
    by (metis prod.collapse)
  have m: "arr_ok n m" using assms(2) by (simp add: rows_in_def)
  have fields: "w \<noteq> 0 \<and> length vals = n" if "(k, w, vals) \<in> set m" for k w vals
    using m that by (auto simp: arr_ok_def list_all_iff)
  have "distinct (map (\<lambda>e. slot op_id (fst (loaded_entry e))) es)"
  proof -
    have "map (\<lambda>e. slot op_id (fst (loaded_entry e))) es = bt_keys es"
      using each by (fastforce simp: loaded_entry_def)
    then show ?thesis using assms(4) bt_ok_distinct [of es] by (simp only: scan_of_def)
  qed
  then have d: "distinct (map (\<lambda>e. fst (loaded_entry e)) es)"
    by (simp add: distinct_map inj_on_def)
  have enc: "\<forall>e \<in> set es. \<exists>w vals. snd e = encode_distinct_value w vals \<and> w \<noteq> 0 \<and> length vals = n"
    using each fields by fastforce
  have init: "distinct_ok n distinct_state_new"
    by (simp add: distinct_ok_def distinct_state_new_def entries_cost_def deleted_cost_def)
  note res = load_fold [OF init enc d]
  have "loaded_entry ` set es = set m"
  proof (rule set_eqI)
    fix x :: "bytes \<times> i64 \<times> row_vals"
    obtain k w vals where x: "x = (k, w, vals)" by (cases x) auto
    have "x \<in> loaded_entry ` set es" if "x \<in> set m"
    proof -
      have k: "k = row_key vals" using m that by (auto simp: x arr_ok_def list_all_iff)
      then have "(slot op_id (row_key vals), encode_distinct_value w vals) \<in> set es"
        using that stored_Some [OF assms(1,2)] by (auto simp: in_es x)
      then show ?thesis by (rule rev_image_eqI) (simp add: x k loaded_entry_def)
    qed
    then show "x \<in> loaded_entry ` set es \<longleftrightarrow> x \<in> set m"
      using each by (fastforce simp: loaded_entry_def)
  qed
  then have loaded: "set (entries (fold load_entry es distinct_state_new)) = set m"
    "distinct_ok n (fold load_entry es distinct_state_new)"
    "deleted (fold load_entry es distinct_state_new) = []"
    "appended_deletions (fold load_entry es distinct_state_new) = []"
    using res by (simp_all add: distinct_state_new_def has_row_def)
  then show "entries (state (load_distinct_state n es)) = m"
    using m by (simp add: load_distinct_state_def Let_def bt_set_ext distinct_ok_def arr_ok_def)
  show "distinct_ok n (state (load_distinct_state n es))" "deleted (state (load_distinct_state n es)) = []"
    "appended_deletions (state (load_distinct_state n es)) = []"
    using loaded by (simp_all add: load_distinct_state_def Let_def)
qed

subsection \<open>Acknowledging\<close>

lemma deleted_cost_remove:
  assumes "bt_ok m" and "bt_get m k = Some g"
  shows "deleted_cost m = length k + 8 + deleted_cost (bt_remove k m)"
  using assms
proof (induction m)
  case (Cons e m)
  show ?case
  proof (cases "fst e = k")
    case True
    then have "bt_get m k = None" using Cons.prems(1) by (auto simp: bt_ok_Cons map_of_eq_None_iff)
    then have "bt_remove k m = m" by (rule bt_remove_absent)
    then show ?thesis using True by (simp add: deleted_cost_def bt_remove_def)
  next
    case False
    then show ?thesis using Cons by (simp add: deleted_cost_def bt_remove_def bt_ok_Cons)
  qed
qed simp

lemma ack_deletions:
  assumes "distinct_ok n s"
  shows "\<exists>s'. rfold ack_deletion A s = Ok s' \<and> distinct_ok n s' \<and> entries s' = entries s
    \<and> deletion_generation s' = deletion_generation s \<and> appended_deletions s' = appended_deletions s
    \<and> (\<forall>k g. bt_get (deleted s') k = Some g \<longleftrightarrow> bt_get (deleted s) k = Some g \<and> (k, g) \<notin> set A)"
  using assms
proof (induction A arbitrary: s)
  case (Cons e A)
  show ?case
  proof (cases "bt_get (deleted s) (fst e) = Some (snd e)")
    case True
    have ok: "bt_ok (deleted s)" and bytes: "deleted_bytes s = deleted_cost (deleted s)"
      using Cons.prems by (auto simp: distinct_ok_def)
    let ?s = "s\<lparr>deleted := bt_remove (fst e) (deleted s), deleted_bytes := deleted_bytes s - (length (fst e) + 8)\<rparr>"
    have "ack_deletion e s = Ok ?s" and "distinct_ok n ?s"
      using True Cons.prems deleted_cost_remove [OF ok True] by (auto simp: ack_deletion_def distinct_ok_def)
    then obtain s' where s': "rfold ack_deletion (e # A) s = Ok s'" "distinct_ok n s'" "entries s' = entries s"
        "deletion_generation s' = deletion_generation s" "appended_deletions s' = appended_deletions s"
      and get: "\<And>k g. bt_get (deleted s') k = Some g \<longleftrightarrow>
        bt_get (bt_remove (fst e) (deleted s)) k = Some g \<and> (k, g) \<notin> set A"
      using Cons.IH [of ?s] by auto
    have "bt_get (deleted s') k = Some g \<longleftrightarrow> bt_get (deleted s) k = Some g \<and> (k, g) \<notin> set (e # A)" for k g
      using True by (cases e; cases "k = fst e") (auto simp: get)
    then show ?thesis using s' by blast
  next
    case False
    then show ?thesis using Cons.IH [OF Cons.prems] by (auto simp: ack_deletion_def)
  qed
qed auto

subsection \<open>Deletions while a batch is pending\<close>

text \<open>
  A row that leaves the arrangement is recorded as deleted under a generation that no earlier
  deletion has. The generation is a 64-bit counter that wraps; the statements ask that it does not.
\<close>

definition evolves :: "DistinctState \<Rightarrow> DistinctState \<Rightarrow> bool" where
  "evolves s s' \<longleftrightarrow> appended_deletions s' = appended_deletions s
     \<and> unat (deletion_generation s) \<le> unat (deletion_generation s')
     \<and> (\<forall>k. bt_contains (deleted s) k \<longrightarrow> bt_contains (deleted s') k)
     \<and> (\<forall>k g. bt_get (deleted s') k = Some g \<longrightarrow> bt_get (deleted s) k = Some g
         \<or> unat (deletion_generation s) < unat g \<and> unat g \<le> unat (deletion_generation s'))
     \<and> (\<forall>k. has_row (entries s) k \<longrightarrow> has_row (entries s') k
         \<or> (\<exists>g. bt_get (deleted s') k = Some g \<and> unat (deletion_generation s) < unat g))"

lemma evolves_refl: "evolves s s"
  by (simp add: evolves_def)

lemma evolves_trans:
  assumes a: "evolves s s'" and b: "evolves s' t"
  shows "evolves s t"
proof -
  have le: "unat (deletion_generation s) \<le> unat (deletion_generation s')"
    "unat (deletion_generation s') \<le> unat (deletion_generation t)"
    using a b by (auto simp: evolves_def)
  have "bt_get (deleted s) k = Some g
      \<or> unat (deletion_generation s) < unat g \<and> unat g \<le> unat (deletion_generation t)"
    if "bt_get (deleted t) k = Some g" for k g
  proof -
    have "bt_get (deleted s') k = Some g
        \<or> unat (deletion_generation s') < unat g \<and> unat g \<le> unat (deletion_generation t)"
      using b that unfolding evolves_def by blast
    then show ?thesis using a le unfolding evolves_def by (meson le_trans order_le_less_trans)
  qed
  moreover have "has_row (entries t) k \<or> (\<exists>g. bt_get (deleted t) k = Some g \<and> unat (deletion_generation s) < unat g)"
    if row: "has_row (entries s) k" for k
  proof (cases "has_row (entries s') k")
    case True
    then show ?thesis using b le unfolding evolves_def by (meson order_le_less_trans)
  next
    case False
    then obtain g where g: "bt_get (deleted s') k = Some g" "unat (deletion_generation s) < unat g"
      using a row unfolding evolves_def by blast
    then obtain g' where g': "bt_get (deleted t) k = Some g'"
      using b unfolding evolves_def bt_contains_def by (metis not_Some_eq)
    then have "bt_get (deleted s') k = Some g' \<or> unat (deletion_generation s') < unat g'"
      using b unfolding evolves_def by blast
    then show ?thesis using g g' le by auto
  qed
  moreover have "bt_contains (deleted s) k \<longrightarrow> bt_contains (deleted t) k" for k
    using a b by (auto simp: evolves_def)
  moreover have "appended_deletions t = appended_deletions s" using a b by (simp add: evolves_def)
  ultimately show ?thesis using le_trans [OF le] unfolding evolves_def by blast
qed

lemma distinct_maintain_evolves:
  assumes "unat (deletion_generation s) + 1 < 2 ^ 64"
  shows "evolves s (distinct_maintain vals w s)"
    and "unat (deletion_generation (distinct_maintain vals w s)) \<le> unat (deletion_generation s) + 1"
proof -
  have next_gen: "unat (deletion_generation s + 1) = unat (deletion_generation s) + 1"
    using assms by (simp add: unat_word_ariths)
  show "evolves s (distinct_maintain vals w s)"
    by (auto simp: evolves_def distinct_maintain_def Let_def next_gen has_row_def bt_contains_def)
  show "unat (deletion_generation (distinct_maintain vals w s)) \<le> unat (deletion_generation s) + 1"
    by (simp add: distinct_maintain_def Let_def next_gen)
qed

lemma distinct_row_Ok: "distinct_row vals w s = Ok (s', out) \<Longrightarrow> \<exists>new_w. s' = distinct_maintain vals new_w s"
  by (auto simp: distinct_row_def Let_def rbind_Ok)

lemma row_loop_evolves:
  assumes "row_loop distinct_row rows ws s = Ok (t, out)"
    and "unat (deletion_generation s) + length rows < 2 ^ 64"
    and "\<forall>e \<in> set (entries s). snd (snd e) \<in> R" and "extract_row_vals ` set rows \<subseteq> R" and "bt_ok (entries s)"
  shows "evolves s t \<and> (\<forall>e \<in> set (entries t). snd (snd e) \<in> R)"
  using assms
proof (induction rows arbitrary: s ws out)
  case (Cons r rows)
  then obtain w ws' where ws: "ws = w # ws'" by (cases ws) auto
  show ?case
  proof (cases "w = 0")
    case True
    then show ?thesis using Cons.IH [of ws' s out] Cons.prems by (simp add: ws)
  next
    case False
    then obtain new_w out' where t: "row_loop distinct_row rows ws' (distinct_maintain (extract_row_vals r) new_w s) = Ok (t, out')"
      using Cons.prems(1) by (auto simp: ws rbind_Ok dest!: distinct_row_Ok)
    let ?s = "distinct_maintain (extract_row_vals r) new_w s"
    have g: "unat (deletion_generation s) + 1 < 2 ^ 64" using Cons.prems(2) by simp
    have "\<forall>e \<in> set (entries ?s). snd (snd e) \<in> R" and "bt_ok (entries ?s)"
      using Cons.prems(3,4,5) by (auto simp: distinct_maintain_def Let_def bt_set_insert bt_remove_def bt_ok_filter)
    moreover have "unat (deletion_generation ?s) + length rows < 2 ^ 64"
      using distinct_maintain_evolves(2) [OF g, of "extract_row_vals r" new_w] Cons.prems(2) by simp
    ultimately have "evolves ?s t \<and> (\<forall>e \<in> set (entries t). snd (snd e) \<in> R)"
      using Cons.IH [OF t] Cons.prems(4) by simp
    then show ?thesis using evolves_trans [OF distinct_maintain_evolves(1) [OF g]] by blast
  qed
qed (simp add: evolves_refl)

subsection \<open>An operator and its storage\<close>

text \<open>
  The operator processes deltas while \<open>persist_distinct_state\<close> runs: it appends the state to a
  batch, writes the batch, and acknowledges after the write. A write that reports an error may have
  taken effect; the state is then not acknowledged. At any time the operator may be restored from a
  scan of the storage. \<open>dsaved\<close> is the arrangement that was appended to the last batch the storage
  has applied. Other writers share the storage and stay outside the operator's prefix.
\<close>

datatype PersistPhase = Idle | Appended WriteBatch arrangement | Written

record DistinctSys =
  dop :: DistinctOp
  dstore :: contents
  dphase :: PersistPhase
  dsaved :: arrangement

datatype DistinctEvent =
    EProcess "arrow_row ArrowZSet" | EAppend WriteBatch | EWrite | EFail bool | EAck
  | ERestore "(bytes \<times> bytes) list" | EOther WriteBatch

inductive dstep ::
  "nat \<Rightarrow> u64 \<Rightarrow> row_vals set \<Rightarrow> (bytes option \<Rightarrow> bytes \<Rightarrow> bytes) \<Rightarrow> DistinctSys \<Rightarrow> DistinctEvent \<Rightarrow> DistinctSys \<Rightarrow> bool"
  for n op_id R mrg where
  d_process: "distinct_process_delta (dop s) d = Ok (op', r) \<Longrightarrow> delta_ok n d \<Longrightarrow>
    extract_row_vals ` set (data d) \<subseteq> R \<Longrightarrow>
    unat (deletion_generation (state (dop s))) + length (data d) < 2 ^ 64 \<Longrightarrow>
    dstep n op_id R mrg s (EProcess d) (s\<lparr>dop := op'\<rparr>)"
| d_append: "dphase s = Idle \<Longrightarrow> \<forall>x \<in> set target. \<not> under op_id (op_key x) \<Longrightarrow>
    append_distinct_state op_id (dop s) target = (op', b) \<Longrightarrow>
    dstep n op_id R mrg s (EAppend target) (s\<lparr>dop := op', dphase := Appended b (entries (state (dop s)))\<rparr>)"
| d_write: "dphase s = Appended b m \<Longrightarrow>
    dstep n op_id R mrg s EWrite (s\<lparr>dstore := write_batch mrg b (dstore s), dsaved := m, dphase := Written\<rparr>)"
| d_fail: "dphase s = Appended b m \<Longrightarrow>
    dstep n op_id R mrg s (EFail applied)
      (if applied then s\<lparr>dstore := write_batch mrg b (dstore s), dsaved := m, dphase := Idle\<rparr>
       else s\<lparr>dphase := Idle\<rparr>)"
| d_ack: "dphase s = Written \<Longrightarrow> ack_persisted_state (dop s) = Ok op' \<Longrightarrow>
    dstep n op_id R mrg s EAck (s\<lparr>dop := op', dphase := Idle\<rparr>)"
| d_restore: "scan_of (dstore s) (distinct_op_prefix op_id) es \<Longrightarrow>
    dstep n op_id R mrg s (ERestore es) (s\<lparr>dop := restore_in_place es (dop s), dphase := Idle\<rparr>)"
| d_other: "\<forall>x \<in> set b. \<not> under op_id (op_key x) \<Longrightarrow>
    dstep n op_id R mrg s (EOther b) (s\<lparr>dstore := write_batch mrg b (dstore s)\<rparr>)"

definition dinit :: "nat \<Rightarrow> u64 \<Rightarrow> row_vals set \<Rightarrow> DistinctSys \<Rightarrow> bool" where
  "dinit n op_id R s \<longleftrightarrow> 0 < n \<and> hash_separates R \<and> dop s = distinct_new n \<and> dphase s = Idle \<and> dsaved s = []
     \<and> (\<forall>k. under op_id k \<longrightarrow> dstore s k = None)"

definition covers :: "DistinctState \<Rightarrow> arrangement \<Rightarrow> bool" where
  "covers s m \<longleftrightarrow> (\<forall>k. has_row m k \<longrightarrow> has_row (entries s) k \<or> bt_contains (deleted s) k)"

definition safe_ack :: "DistinctState \<Rightarrow> arrangement \<Rightarrow> bool" where
  "safe_ack s m \<longleftrightarrow> (\<forall>k g. (k, g) \<in> set (appended_deletions s) \<longrightarrow> bt_get (deleted s) k = Some g \<longrightarrow>
     has_row m k \<longrightarrow> has_row (entries s) k)"

definition generations_ok :: "DistinctState \<Rightarrow> bool" where
  "generations_ok s \<longleftrightarrow>
     (\<forall>k g. bt_get (deleted s) k = Some g \<or> (k, g) \<in> set (appended_deletions s) \<longrightarrow>
        unat g \<le> unat (deletion_generation s))"

definition dinv ::
  "nat \<Rightarrow> u64 \<Rightarrow> row_vals set \<Rightarrow> (bytes option \<Rightarrow> bytes \<Rightarrow> bytes) \<Rightarrow> DistinctSys \<Rightarrow> bool" where
  "dinv n op_id R mrg s \<longleftrightarrow> hash_separates R \<and> distinct_op_ok n (dop s)
     \<and> rows_in n R (entries (state (dop s))) \<and> rows_in n R (dsaved s)
     \<and> holds_only op_id (dsaved s) (dstore s) \<and> covers (state (dop s)) (dsaved s)
     \<and> generations_ok (state (dop s))
     \<and> (case dphase s of
          Idle \<Rightarrow> True
        | Appended b m \<Rightarrow> rows_in n R m \<and> covers (state (dop s)) m \<and> safe_ack (state (dop s)) m
            \<and> (\<forall>c. holds_only op_id (dsaved s) c \<longrightarrow> holds_only op_id m (write_batch mrg b c))
        | Written \<Rightarrow> safe_ack (state (dop s)) (dsaved s))"

lemma evolves_covers: "evolves s t \<Longrightarrow> covers s m \<Longrightarrow> covers t m"
  unfolding evolves_def covers_def bt_contains_def by (metis not_Some_eq)

lemma evolves_generations:
  assumes ev: "evolves s t" and ok: "generations_ok s"
  shows "generations_ok t"
  unfolding generations_ok_def
proof (intro allI impI)
  fix k g
  assume "bt_get (deleted t) k = Some g \<or> (k, g) \<in> set (appended_deletions t)"
  then have "bt_get (deleted s) k = Some g \<or> (k, g) \<in> set (appended_deletions s)
      \<or> unat g \<le> unat (deletion_generation t)"
    using ev unfolding evolves_def by auto
  moreover have "unat (deletion_generation s) \<le> unat (deletion_generation t)"
    using ev by (simp add: evolves_def)
  ultimately show "unat g \<le> unat (deletion_generation t)"
    using ok unfolding generations_ok_def by (meson order_trans)
qed

lemma evolves_safe_ack:
  assumes ev: "evolves s t" and safe: "safe_ack s m" and gens: "generations_ok s"
    and cov: "covers s m"
  shows "safe_ack t m"
  unfolding safe_ack_def
proof (intro allI impI)
  fix k g
  assume app: "(k, g) \<in> set (appended_deletions t)" and del: "bt_get (deleted t) k = Some g" and m: "has_row m k"
  have app': "(k, g) \<in> set (appended_deletions s)" using ev app by (simp add: evolves_def)
  then have "unat g \<le> unat (deletion_generation s)" using gens by (simp add: generations_ok_def)
  then have old: "bt_get (deleted s) k = Some g" using ev del unfolding evolves_def by fastforce
  then have "has_row (entries s) k" using safe app' m by (simp add: safe_ack_def)
  then have "has_row (entries t) k \<or> (\<exists>g'. bt_get (deleted t) k = Some g' \<and> unat (deletion_generation s) < unat g')"
    using ev unfolding evolves_def by blast
  then show "has_row (entries t) k" using del \<open>unat g \<le> unat (deletion_generation s)\<close> by auto
qed

lemma process_evolves:
  assumes "distinct_op_ok n op" and "rows_in n R (entries (state op))"
    and "distinct_process_delta op d = Ok (op', r)" and "delta_ok n d" and "extract_row_vals ` set (data d) \<subseteq> R"
    and "unat (deletion_generation (state op)) + length (data d) < 2 ^ 64"
  shows "evolves (state op) (state op')" and "rows_in n R (entries (state op'))" and "distinct_op_ok n op'"
proof -
  show ok: "distinct_op_ok n op'" using distinct_process_spec [OF assms(1,4,3)] by blast
  have "evolves (state op) (state op') \<and> (\<forall>e \<in> set (entries (state op')). snd (snd e) \<in> R)"
  proof (cases "data d = []")
    case True
    then show ?thesis using assms(2,3) by (auto simp: distinct_process_delta_def evolves_refl rows_in_def)
  next
    case False
    then obtain s out where s: "row_loop distinct_row (data d) (weights d) (state op) = Ok (s, out)" "state op' = s"
      using assms(3) by (auto simp: distinct_process_delta_def rbind_Ok)
    have "bt_ok (entries (state op))" "\<forall>e \<in> set (entries (state op)). snd (snd e) \<in> R"
      using assms(2) by (auto simp: rows_in_def arr_ok_def)
    then show ?thesis using row_loop_evolves [OF s(1) assms(6) _ assms(5)] s(2) by blast
  qed
  then show "evolves (state op) (state op')" and "rows_in n R (entries (state op'))"
    using ok by (auto simp: rows_in_def distinct_op_ok_def distinct_ok_def)
qed

lemma ack_spec:
  assumes "distinct_op_ok n op" and "generations_ok (state op)"
  shows "\<exists>op'. ack_persisted_state op = Ok op' \<and> distinct_op_ok n op' \<and> entries (state op') = entries (state op)
    \<and> generations_ok (state op')
    \<and> (\<forall>k g. bt_get (deleted (state op')) k = Some g \<longleftrightarrow>
        bt_get (deleted (state op)) k = Some g \<and> (k, g) \<notin> set (appended_deletions (state op)))"
proof -
  let ?s = "(state op)\<lparr>appended_deletions := []\<rparr>"
  have "distinct_ok n ?s" using assms(1) by (simp add: distinct_op_ok_def distinct_ok_def)
  then obtain s' where s': "rfold ack_deletion (appended_deletions (state op)) ?s = Ok s'" "distinct_ok n s'"
      "entries s' = entries (state op)" "deletion_generation s' = deletion_generation (state op)"
      "appended_deletions s' = []"
      "\<forall>k g. bt_get (deleted s') k = Some g \<longleftrightarrow>
        bt_get (deleted (state op)) k = Some g \<and> (k, g) \<notin> set (appended_deletions (state op))"
    using ack_deletions [of n ?s "appended_deletions (state op)"] by auto
  have "ack_persisted_state op = Ok (op\<lparr>state := s'\<lparr>appended_deletion_bytes := 0\<rparr>\<rparr>)"
    using s'(1) by (simp add: ack_persisted_state_def)
  moreover have "generations_ok s'" using assms(2) s'(4,5,6) by (auto simp: generations_ok_def)
  ultimately show ?thesis
    using assms(1) s' by (auto simp: distinct_op_ok_def distinct_ok_def generations_ok_def)
qed

lemma append_spec:
  assumes "append_distinct_state op_id op target = (op', b)"
  shows "entries (state op') = entries (state op)" "deleted (state op') = deleted (state op)"
    "appended_deletions (state op') = deleted (state op)"
    "deletion_generation (state op') = deletion_generation (state op)"
    "distinct_op_ok n op \<Longrightarrow> distinct_op_ok n op'"
  using assms by (auto simp: append_distinct_state_def Let_def distinct_op_ok_def distinct_ok_def)

lemma holds_only_other:
  "holds_only op_id m c \<Longrightarrow> \<forall>x \<in> set b. \<not> under op_id (op_key x) \<Longrightarrow> holds_only op_id m (write_batch mrg b c)"
  unfolding holds_only_def using write_batch_other by (metis imageE)

lemma distinct_deleted_sorted: "distinct_op_ok n op \<Longrightarrow> bt_ok (deleted (state op))"
  by (simp add: distinct_op_ok_def distinct_ok_def)

lemma dinv_process:
  assumes inv: "dinv n op_id R mrg s" and p: "distinct_process_delta (dop s) d = Ok (op', r)" "delta_ok n d"
    "extract_row_vals ` set (data d) \<subseteq> R" "unat (deletion_generation (state (dop s))) + length (data d) < 2 ^ 64"
  shows "dinv n op_id R mrg (s\<lparr>dop := op'\<rparr>)"
proof -
  have ok: "distinct_op_ok n (dop s)" "rows_in n R (entries (state (dop s)))" "generations_ok (state (dop s))"
    using inv by (auto simp: dinv_def)
  note ev = process_evolves [OF ok(1,2) p]
  show ?thesis
    using inv ev evolves_covers [OF ev(1)] evolves_generations [OF ev(1)] evolves_safe_ack [OF ev(1) _ ok(3)]
    by (auto simp: dinv_def split: PersistPhase.splits)
qed

lemma dinv_append:
  assumes inv: "dinv n op_id R mrg s" and target: "\<forall>x \<in> set target. \<not> under op_id (op_key x)"
    and a: "append_distinct_state op_id (dop s) target = (op', b)"
  shows "dinv n op_id R mrg (s\<lparr>dop := op', dphase := Appended b (entries (state (dop s)))\<rparr>)"
proof -
  let ?st = "state (dop s)"
  have i: "hash_separates R" "rows_in n R (dsaved s)" "rows_in n R (entries ?st)" "covers ?st (dsaved s)"
    "distinct_op_ok n (dop s)" "generations_ok ?st"
    using inv by (auto simp: dinv_def)
  have effect: "holds_only op_id (entries ?st) (write_batch mrg b c)" if "holds_only op_id (dsaved s) c" for c
    by (rule append_batch_effect [OF i(1,2,3) that _ _ a refl]) (use i(4) target in \<open>auto simp: covers_def\<close>)
  have "covers (state op') (dsaved s)" "covers (state op') (entries ?st)" "safe_ack (state op') (entries ?st)"
    using i(4) by (simp_all add: covers_def safe_ack_def append_spec [OF a])
  moreover have "generations_ok (state op')"
    using i(6) distinct_deleted_sorted [OF i(5)]
    by (auto simp: generations_ok_def append_spec [OF a] bt_get_in_set)
  ultimately show ?thesis
    using inv effect append_spec [OF a] by (simp add: dinv_def)
qed

lemma dinv_ack:
  assumes inv: "dinv n op_id R mrg s" and "dphase s = Written" and a: "ack_persisted_state (dop s) = Ok op'"
  shows "dinv n op_id R mrg (s\<lparr>dop := op', dphase := Idle\<rparr>)"
proof -
  have i: "distinct_op_ok n (dop s)" "generations_ok (state (dop s))" "covers (state (dop s)) (dsaved s)"
    "safe_ack (state (dop s)) (dsaved s)"
    using inv assms(2) by (auto simp: dinv_def)
  have sp: "distinct_op_ok n op'" "entries (state op') = entries (state (dop s))" "generations_ok (state op')"
    and del: "\<And>k g. bt_get (deleted (state op')) k = Some g \<longleftrightarrow>
      bt_get (deleted (state (dop s))) k = Some g \<and> (k, g) \<notin> set (appended_deletions (state (dop s)))"
    using ack_spec [OF i(1,2)] a by auto
  have "covers (state op') (dsaved s)"
    unfolding covers_def
  proof (intro allI impI)
    fix k assume k: "has_row (dsaved s) k"
    show "has_row (entries (state op')) k \<or> bt_contains (deleted (state op')) k"
    proof (cases "has_row (entries (state (dop s))) k")
      case False
      then obtain g where "bt_get (deleted (state (dop s))) k = Some g"
        using i(3) k unfolding covers_def bt_contains_def by blast
      then have "bt_get (deleted (state op')) k = Some g"
        using i(4) k False unfolding del safe_ack_def by blast
      then show ?thesis by (simp add: bt_contains_def)
    qed (simp add: sp(2))
  qed
  then show ?thesis using inv sp by (simp add: dinv_def)
qed

lemma dinv_restore:
  assumes inv: "dinv n op_id R mrg s" and scan: "scan_of (dstore s) (distinct_op_prefix op_id) es"
  shows "dinv n op_id R mrg (s\<lparr>dop := restore_in_place es (dop s), dphase := Idle\<rparr>)"
proof -
  have i: "hash_separates R" "rows_in n R (dsaved s)" "holds_only op_id (dsaved s) (dstore s)"
    "num_cols (dop s) = n" "0 < n"
    using inv by (auto simp: dinv_def distinct_op_ok_def)
  note load = load_restores [OF i(1,2,3) scan]
  have r: "restore_in_place es (dop s) = (dop s)\<lparr>state := state (load_distinct_state n es),
      fill_level := entry_count (state (load_distinct_state n es))\<rparr>"
    by (simp add: restore_in_place_def Let_def i(4))
  show ?thesis
    using inv load i
    by (auto simp: dinv_def r distinct_op_ok_def entry_count_def covers_def generations_ok_def)
qed

interpretation distinct_system: transition_system "dinit n op_id R" "dstep n op_id R mrg" "dinv n op_id R mrg"
  for n op_id R mrg
proof unfold_locales
  fix s
  assume "dinit n op_id R s"
  then show "dinv n op_id R mrg s"
    by (auto simp: dinit_def dinv_def distinct_op_ok_def distinct_new_def distinct_state_new_def distinct_ok_def
        entries_cost_def deleted_cost_def rows_in_def holds_only_def stored_def covers_def has_row_def
        generations_ok_def)
next
  fix s e t
  assume inv: "dinv n op_id R mrg s" and "dstep n op_id R mrg s e t"
  from this(2) show "dinv n op_id R mrg t"
  proof cases
    case (d_process d op' r)
    then show ?thesis using dinv_process [OF inv] by blast
  next
    case (d_append target op' b)
    then show ?thesis using dinv_append [OF inv] by blast
  next
    case (d_write b m)
    then show ?thesis using inv by (simp add: dinv_def)
  next
    case (d_fail b m applied)
    then show ?thesis using inv by (simp add: dinv_def)
  next
    case (d_ack op')
    then show ?thesis using dinv_ack [OF inv] by blast
  next
    case (d_restore es)
    then show ?thesis using dinv_restore [OF inv] by blast
  next
    case (d_other b)
    then have "holds_only op_id (dsaved s) (dstore t)" using inv holds_only_other by (auto simp: dinv_def)
    then show ?thesis using inv d_other by (cases "dphase s") (simp_all add: dinv_def)
  qed
qed

text \<open>
  (C3) What the distinct operator persists is what it restores. In every history of deltas, appended
  batches, failed, ambiguous and successful writes, acknowledgements, restores and writes of other
  parties, where the row hashes in use do not collide and the deletion counter does not wrap: loading
  from a scan of the storage gives exactly the arrangement of the last applied batch, with exact
  counters; a batch appended now would make storage hold exactly the current arrangement; and an
  acknowledgement never panics. In particular no deleted row comes back, although deletions are
  forgotten once acknowledged and rows may be deleted again while a batch is pending.
\<close>

theorem distinct_recovery:
  assumes "dinit n op_id R s0" and "run (dstep n op_id R mrg) s0 es s"
    and "scan_of (dstore s) (distinct_op_prefix op_id) rows"
    and "\<forall>x \<in> set target. \<not> under op_id (op_key x)"
    and "append_distinct_state op_id (dop s) target = (op', b)"
    and "scan_of (write_batch mrg b (dstore s)) (distinct_op_prefix op_id) rows'"
  shows "entries (state (load_distinct_state n rows)) = dsaved s
    \<and> distinct_ok n (state (load_distinct_state n rows))
    \<and> entries (state (load_distinct_state n rows')) = entries (state (dop s))
    \<and> is_ok (ack_persisted_state (dop s))"
proof -
  have inv: "dinv n op_id R mrg s" by (rule distinct_system.reachable_inv [OF assms(1,2)])
  then have i: "hash_separates R" "rows_in n R (dsaved s)" "holds_only op_id (dsaved s) (dstore s)"
    "rows_in n R (entries (state (dop s)))" "distinct_op_ok n (dop s)" "generations_ok (state (dop s))"
    by (auto simp: dinv_def)
  have "holds_only op_id (entries (state (dop s))) (write_batch mrg b (dstore s))"
    by (rule append_batch_effect [OF i(1,2,4,3) _ _ assms(5) refl])
      (use inv assms(4) in \<open>auto simp: dinv_def covers_def\<close>)
  then show ?thesis
    using load_restores [OF i(1,2,3) assms(3)] load_restores(1) [OF i(1,4) _ assms(6)] ack_spec [OF i(5,6)]
    by (auto simp: is_ok_iff)
qed

definition demo_delta :: "arrow_row ArrowZSet" where
  "demo_delta = \<lparr>data = [[Some 1]], weights = [1], frontier = None\<rparr>"

definition demo_op :: DistinctOp where
  "demo_op = \<lparr>state = distinct_state_new\<lparr>entries := [(row_key [1], 1, [1])], entry_bytes := 24\<rparr>,
     num_cols = 1, fill_level = 1\<rparr>"

definition demo_start :: DistinctSys where
  "demo_start = \<lparr>dop = distinct_new 1, dstore = (\<lambda>_. None), dphase = Idle, dsaved = []\<rparr>"

lemma demo_process:
  "distinct_process_delta (distinct_new 1) demo_delta = Ok (demo_op, build_output 1 [([1], 1)])"
  by (simp add: distinct_process_delta_def demo_delta_def distinct_new_def distinct_state_new_def demo_op_def
      extract_row_vals_def distinct_row_def arr_weight_def distinct_maintain_def zero_crossing_def
      bt_contains_def i64_order entry_count_def arr_entry_bytes_def)

theorem distinct_recovery_witness:
  "entries (state (load_distinct_state 1 [(slot 7 (row_key [1]), encode_distinct_value 1 [1])])) =
    [(row_key [1], 1, [1])]"
proof -
  have init: "dinit 1 7 {[1]} demo_start"
    by (simp add: dinit_def hash_separates_def demo_start_def)
  have run: "run (dstep 1 7 {[1]} (\<lambda>_ v. v)) demo_start [EProcess demo_delta] (demo_start\<lparr>dop := demo_op\<rparr>)"
    unfolding run_Cons_iff
    using d_process [of demo_start demo_delta demo_op "build_output 1 [([1], 1)]" 1 "{[1]}"] demo_process
    by (auto simp: demo_start_def demo_delta_def delta_ok_def aligned_def extract_row_vals_def distinct_new_def
        distinct_state_new_def)
  have append: "append_distinct_state 7 demo_op [] =
      (demo_op, [Put (slot 7 (row_key [1])) (encode_distinct_value 1 [1])])"
    by (simp add: append_distinct_state_def demo_op_def distinct_state_new_def merge_from_def slot_def)
  have scan: "scan_of (dstore (demo_start\<lparr>dop := demo_op\<rparr>)) (distinct_op_prefix 7) []"
    by (simp add: scan_of_def demo_start_def)
  have scan': "scan_of (write_batch (\<lambda>_ v. v) [Put (slot 7 (row_key [1])) (encode_distinct_value 1 [1])]
      (dstore (demo_start\<lparr>dop := demo_op\<rparr>))) (distinct_op_prefix 7)
      [(slot 7 (row_key [1]), encode_distinct_value 1 [1])]"
    using slot_under [of 7 "row_key [1]"]
    by (auto simp: scan_of_def demo_start_def write_batch_def bt_ok_def under_def)
  show ?thesis
    using distinct_recovery [OF init run scan _ _ scan', of "[]" demo_op] append
    by (simp add: demo_op_def)
qed

end
