(* ===== verification/FlowControl.thy ===== *)
theory FlowControl
  imports Kernels
begin

text \<open>
  Exchange flow control of \<open>rockstream-runtime/src/exchange/flow_control.rs\<close>: batch permits, row
  credits, acknowledgements, teardown of an exchange, and the bounded queue of waiters.

  Counters are natural numbers. A \<open>u32\<close> or \<open>usize\<close> subtraction that saturates is the subtraction of
  naturals; \<open>fetch_sub\<close> on the 64-bit counters wraps, and the wrap-around is written out. The identity
  of a channel or notifier, a pointer in the code, is a number that is never used twice; a permit
  keeps its channel's allocation alive, so the code cannot reuse the pointer while the permit exists.
  Every critical section is one operation. Errors are distinguished by their place in the code; the
  text \<open>RESOURCE_EXHAUSTED\<close> in a message is the predicate \<open>is_exhausted\<close>.
\<close>

section \<open>Limits and state\<close>

definition DEFAULT_MAX_INFLIGHT_BATCHES :: usize where "DEFAULT_MAX_INFLIGHT_BATCHES = 64"
definition DEFAULT_MAX_INFLIGHT_BYTES :: usize where "DEFAULT_MAX_INFLIGHT_BYTES = 64 * 1024 * 1024"
definition DEFAULT_MAX_BATCH_BYTES :: usize where "DEFAULT_MAX_BATCH_BYTES = 16 * 1024 * 1024"
definition DEFAULT_MAX_PENDING_REQUESTS :: usize where "DEFAULT_MAX_PENDING_REQUESTS = 256"

type_synonym CreditKey = "u64 \<times> u32 \<times> u32"

datatype FlowError =
    FrameOverBatch | FrameOverInflight | TooManyRows | ChannelRetired
  | PendingExhausted | BytesExhausted | BatchesExhausted | RowsExhausted | WaitersExhausted

fun is_exhausted :: "FlowError \<Rightarrow> bool" where
  "is_exhausted PendingExhausted = True"
| "is_exhausted BytesExhausted = True"
| "is_exhausted BatchesExhausted = True"
| "is_exhausted RowsExhausted = True"
| "is_exhausted WaitersExhausted = True"
| "is_exhausted _ = False"

record ChannelCreditState =
  owner :: nat
  had_delivery :: bool
  available_rows :: nat
  max_rows :: nat
  rows_in_flight :: nat
  batches_in_flight :: nat
  bytes_in_flight :: nat
  awaiting_ack :: "((u64 \<times> u64) \<times> nat \<times> nat) list"

definition channel_new :: "nat \<Rightarrow> nat \<Rightarrow> ChannelCreditState" where
  "channel_new own budget = \<lparr>owner = own, had_delivery = False, available_rows = budget, max_rows = budget,
     rows_in_flight = 0, batches_in_flight = 0, bytes_in_flight = 0, awaiting_ack = []\<rparr>"

record FlowController =
  row_budget :: nat
  max_inflight_batches :: usize
  max_inflight_bytes :: usize
  max_batch_bytes :: usize
  max_pending_requests :: usize
  live :: "(CreditKey, ChannelCreditState) omap"
  retired :: "CreditKey set"
  notifiers :: "(CreditKey, nat \<times> nat) omap"
  aggregate_bytes :: nat
  pending_requests :: nat
  queued_credit_waiters :: nat
  fresh_id :: nat

record FlowPermit =
  permit_key :: CreditKey
  permit_owner :: nat
  batch_bytes :: nat
  row_count :: nat

definition u32_saturating_add :: "nat \<Rightarrow> nat \<Rightarrow> nat" where
  "u32_saturating_add a b = min (a + b) (2 ^ 32 - 1)"

definition fetch_sub_u64 :: "nat \<Rightarrow> nat \<Rightarrow> nat" where
  "fetch_sub_u64 a b = (a + 2 ^ 64 - b mod 2 ^ 64) mod 2 ^ 64"

definition with_row_budget :: "nat \<Rightarrow> FlowController" where
  "with_row_budget budget = \<lparr>row_budget = max budget 1, max_inflight_batches = DEFAULT_MAX_INFLIGHT_BATCHES,
     max_inflight_bytes = DEFAULT_MAX_INFLIGHT_BYTES, max_batch_bytes = DEFAULT_MAX_BATCH_BYTES,
     max_pending_requests = DEFAULT_MAX_PENDING_REQUESTS, live = [], retired = {}, notifiers = [],
     aggregate_bytes = 0, pending_requests = 0, queued_credit_waiters = 0, fresh_id = 0\<rparr>"

definition with_max_inflight_batches :: "usize \<Rightarrow> FlowController \<Rightarrow> FlowController" where
  "with_max_inflight_batches limit c = c\<lparr>max_inflight_batches := max limit 1\<rparr>"

definition with_max_inflight_bytes :: "usize \<Rightarrow> FlowController \<Rightarrow> FlowController" where
  "with_max_inflight_bytes limit c = c\<lparr>max_inflight_bytes := max limit 1\<rparr>"

definition with_max_batch_bytes :: "usize \<Rightarrow> FlowController \<Rightarrow> FlowController" where
  "with_max_batch_bytes limit c = c\<lparr>max_batch_bytes := max limit 1\<rparr>"

definition with_max_pending_requests :: "usize \<Rightarrow> FlowController \<Rightarrow> FlowController" where
  "with_max_pending_requests limit c = c\<lparr>max_pending_requests := max limit 1\<rparr>"

definition refresh_available :: "ChannelCreditState \<Rightarrow> ChannelCreditState" where
  "refresh_available ch = ch\<lparr>available_rows := max_rows ch - rows_in_flight ch\<rparr>"

definition set_row_budget :: "nat \<Rightarrow> FlowController \<Rightarrow> FlowController" where
  "set_row_budget budget c =
     (let b = max budget 1 in
      c\<lparr>row_budget := b, live := map (\<lambda>(k, ch). (k, refresh_available (ch\<lparr>max_rows := b\<rparr>))) (live c)\<rparr>)"

section \<open>Batch permits\<close>

definition check_frame_size :: "usize \<Rightarrow> FlowController \<Rightarrow> (FlowError, unit) result" where
  "check_frame_size bytes c =
     (if bytes > max_batch_bytes c then Err FrameOverBatch
      else if bytes > max_inflight_bytes c then Err FrameOverInflight
      else Ok ())"

definition or_insert_channel :: "nat \<Rightarrow> CreditKey \<Rightarrow> FlowController \<Rightarrow> ChannelCreditState \<times> FlowController" where
  "or_insert_channel budget key c =
     (case bt_get (live c) key of
        Some ch \<Rightarrow> (ch, c)
      | None \<Rightarrow>
          let ch = channel_new (fresh_id c) budget
          in (ch, c\<lparr>live := bt_insert key ch (live c), fresh_id := fresh_id c + 1\<rparr>))"

text \<open>
  The charge a permit makes under the lock. The two additions that the build checks for overflow are
  the channel's bytes and the new aggregate.
\<close>

definition charge_batch ::
  "CreditKey \<Rightarrow> usize \<Rightarrow> nat \<Rightarrow> ChannelCreditState \<Rightarrow> FlowController \<Rightarrow>
     (FlowError, FlowPermit) result \<times> FlowController" where
  "charge_batch key bytes rows ch c =
     (let ch1 = ch\<lparr>available_rows := available_rows ch - rows,
            rows_in_flight := u32_saturating_add (rows_in_flight ch) rows,
            batches_in_flight := batches_in_flight ch + 1\<rparr>
      in if bytes_in_flight ch + bytes > usize_max then (Panic, c\<lparr>live := bt_insert key ch1 (live c)\<rparr>)
      else
        let c1 = c\<lparr>live := bt_insert key (ch1\<lparr>bytes_in_flight := bytes_in_flight ch + bytes\<rparr>) (live c),
              aggregate_bytes := (aggregate_bytes c + bytes) mod 2 ^ 64\<rparr>
        in if aggregate_bytes c + bytes \<ge> 2 ^ 64 then (Panic, c1)
        else (Ok \<lparr>permit_key = key, permit_owner = owner ch, batch_bytes = bytes, row_count = rows\<rparr>,
              c1\<lparr>pending_requests := pending_requests c + 1\<rparr>))"

text \<open>\<open>budget\<close> is the row budget, which the code reads before it takes the lock.\<close>

definition try_acquire_batch_permit ::
  "nat \<Rightarrow> CreditKey \<Rightarrow> usize \<Rightarrow> nat \<Rightarrow> FlowController \<Rightarrow> (FlowError, FlowPermit) result \<times> FlowController" where
  "try_acquire_batch_permit budget key bytes row_count0 c =
     (case check_frame_size bytes c of
        Err e \<Rightarrow> (Err e, c)
      | Panic \<Rightarrow> (Panic, c)
      | Ok _ \<Rightarrow>
          let rows = max row_count0 1 in
          if rows > budget then (Err TooManyRows, c)
          else if key \<in> retired c then (Err ChannelRetired, c)
          else if pending_requests c \<ge> max_pending_requests c then (Err PendingExhausted, c)
          else if min (aggregate_bytes c + bytes) usize_max > max_inflight_bytes c then (Err BytesExhausted, c)
          else
            let (ch, c1) = or_insert_channel budget key c in
            if batches_in_flight ch \<ge> max_inflight_batches c then (Err BatchesExhausted, c1)
            else if available_rows ch < rows then (Err RowsExhausted, c1)
            else charge_batch key bytes rows ch c1)"

definition release_batch_permit :: "FlowPermit \<Rightarrow> FlowController \<Rightarrow> FlowController" where
  "release_batch_permit p c =
     (let (matches, rows, batches, bytes) = (case bt_get (live c) (permit_key p) of
            None \<Rightarrow> (False, 0, 0, 0)
          | Some ch \<Rightarrow> (same_owner (owner ch) (permit_owner p), rows_in_flight ch, batches_in_flight ch,
              bytes_in_flight ch));
          (next_rows, next_batches, next_channel_bytes, new_bytes, new_pending) =
            release_accounting matches rows batches bytes (aggregate_bytes c) (pending_requests c)
              (row_count p) (batch_bytes p);
          c1 = (case bt_get (live c) (permit_key p) of
            Some ch \<Rightarrow>
              if matches then
                c\<lparr>live := bt_insert (permit_key p) (refresh_available (ch\<lparr>rows_in_flight := next_rows,
                      batches_in_flight := next_batches, bytes_in_flight := next_channel_bytes\<rparr>)) (live c)\<rparr>
              else c
          | None \<Rightarrow> c)
      in c1\<lparr>aggregate_bytes := new_bytes, pending_requests := new_pending\<rparr>)"

text \<open>
  \<open>handoff\<close>: the permit becomes a charge that awaits its acknowledgement. When the channel is gone
  the permit stays active and is released when the call drops it.
\<close>

definition handoff :: "u64 \<Rightarrow> u64 \<Rightarrow> FlowPermit \<Rightarrow> FlowController \<Rightarrow> FlowController" where
  "handoff epoch sq p c =
     (case bt_get (live c) (permit_key p) of
        Some ch \<Rightarrow>
          if same_owner (owner ch) (permit_owner p) then
            c\<lparr>live := bt_insert (permit_key p) (ch\<lparr>had_delivery := True,
                awaiting_ack := awaiting_ack ch @ [((epoch, sq), batch_bytes p, row_count p)]\<rparr>) (live c)\<rparr>
          else release_batch_permit p c
      | None \<Rightarrow> release_batch_permit p c)"

section \<open>Acknowledgements and row credits\<close>

definition channel_state :: "CreditKey \<Rightarrow> FlowController \<Rightarrow> ChannelCreditState \<times> FlowController" where
  "channel_state key c = or_insert_channel (max (row_budget c) 1) key c"

fun take_first :: "('a \<Rightarrow> bool) \<Rightarrow> 'a list \<Rightarrow> ('a \<times> 'a list) option" where
  "take_first P [] = None"
| "take_first P (x # xs) =
     (if P x then Some (x, xs)
      else case take_first P xs of None \<Rightarrow> None | Some (y, ys) \<Rightarrow> Some (y, x # ys))"

text \<open>
  The critical section of \<open>handle_ack\<close>: the reservation it removes is released in a second one.
\<close>

definition ack_take ::
  "CreditKey \<Rightarrow> u64 \<Rightarrow> u64 \<Rightarrow> nat \<Rightarrow> FlowController \<Rightarrow> FlowPermit option \<times> FlowController" where
  "ack_take key epoch sq credit_grant c =
     (if key \<in> retired c then (None, c)
      else
        let (ch, c1) = channel_state key c in
        case take_first (\<lambda>r. fst r = (epoch, sq)) (awaiting_ack ch) of
          Some (r, rest) \<Rightarrow>
            (Some \<lparr>permit_key = key, permit_owner = owner ch, batch_bytes = fst (snd r), row_count = snd (snd r)\<rparr>,
             c1\<lparr>live := bt_insert key (ch\<lparr>awaiting_ack := rest\<rparr>) (live c1)\<rparr>)
        | None \<Rightarrow>
            (None,
             if batches_in_flight ch = 0 then
               c1\<lparr>live := bt_insert key (refresh_available (ch\<lparr>rows_in_flight :=
                   rows_in_flight ch - min credit_grant (rows_in_flight ch)\<rparr>)) (live c1)\<rparr>
             else c1))"

definition release_credit :: "CreditKey \<Rightarrow> nat \<Rightarrow> FlowController \<Rightarrow> FlowController" where
  "release_credit key rows c =
     (if key \<in> retired c then c
      else
        let (ch, c1) = channel_state key c in
        c1\<lparr>live := bt_insert key (refresh_available (ch\<lparr>rows_in_flight :=
            rows_in_flight ch - min rows (rows_in_flight ch)\<rparr>)) (live c1)\<rparr>)"

definition set_credits :: "CreditKey \<Rightarrow> nat \<Rightarrow> FlowController \<Rightarrow> FlowController" where
  "set_credits key amount c =
     (if key \<in> retired c then c
      else case bt_get (live c) key of
        Some ch \<Rightarrow>
          if rows_in_flight ch \<noteq> 0 \<or> batches_in_flight ch \<noteq> 0 \<or> awaiting_ack ch \<noteq> [] then c
          else c\<lparr>live := bt_insert key (ch\<lparr>available_rows := amount, max_rows := max amount 1\<rparr>) (live c)\<rparr>
      | None \<Rightarrow>
          c\<lparr>live := bt_insert key ((channel_new (fresh_id c) amount)\<lparr>max_rows := max amount 1\<rparr>) (live c),
             fresh_id := fresh_id c + 1\<rparr>)"

definition try_acquire_rows :: "CreditKey \<Rightarrow> nat \<Rightarrow> FlowController \<Rightarrow> (FlowError, bool) result \<times> FlowController" where
  "try_acquire_rows key rows c =
     (if key \<in> retired c then (Err ChannelRetired, c)
      else
        let (ch, c1) = channel_state key c in
        if available_rows ch < rows then (Ok False, c1)
        else (Ok True, c1\<lparr>live := bt_insert key (ch\<lparr>available_rows := available_rows ch - rows,
                rows_in_flight := u32_saturating_add (rows_in_flight ch) rows, had_delivery := True\<rparr>) (live c1)\<rparr>))"

definition get_credits :: "CreditKey \<Rightarrow> FlowController \<Rightarrow> nat" where
  "get_credits key c = (case bt_get (live c) key of Some ch \<Rightarrow> available_rows ch | None \<Rightarrow> max (row_budget c) 1)"

section \<open>Teardown and waiters\<close>

definition awaiting_bytes :: "ChannelCreditState \<Rightarrow> nat" where
  "awaiting_bytes ch = sum_list (map (\<lambda>r. fst (snd r)) (awaiting_ack ch))"

definition teardown_channel :: "u64 \<Rightarrow> CreditKey \<times> ChannelCreditState \<Rightarrow> FlowController \<Rightarrow> FlowController" where
  "teardown_channel exchange_id e c =
     (if fst (fst e) \<noteq> exchange_id then c
      else c\<lparr>live := bt_remove (fst e) (live c),
              retired := (if had_delivery (snd e) then insert (fst e) (retired c) else retired c),
              aggregate_bytes := fetch_sub_u64 (aggregate_bytes c) (awaiting_bytes (snd e)),
              pending_requests := fetch_sub_u64 (pending_requests c) (length (awaiting_ack (snd e)))\<rparr>)"

definition teardown_exchange :: "u64 \<Rightarrow> FlowController \<Rightarrow> FlowController" where
  "teardown_exchange exchange_id c =
     (let c1 = fold (teardown_channel exchange_id) (live c) c
      in c1\<lparr>notifiers := filter (\<lambda>e. fst (fst e) \<noteq> exchange_id) (notifiers c1)\<rparr>)"

definition reserve_credit_waiter :: "FlowController \<Rightarrow> (FlowError, unit) result \<times> FlowController" where
  "reserve_credit_waiter c =
     (if queued_credit_waiters c \<ge> max_pending_requests c then (Err WaitersExhausted, c)
      else (Ok (), c\<lparr>queued_credit_waiters := queued_credit_waiters c + 1\<rparr>))"

definition credit_waiter_drop :: "FlowController \<Rightarrow> FlowController" where
  "credit_waiter_drop c = c\<lparr>queued_credit_waiters := fetch_sub_u64 (queued_credit_waiters c) 1\<rparr>"

definition reserve_channel_waiter ::
  "CreditKey \<Rightarrow> FlowController \<Rightarrow> (FlowError, CreditKey \<times> nat) result \<times> FlowController" where
  "reserve_channel_waiter key c =
     (case reserve_credit_waiter c of
        (Ok _, c1) \<Rightarrow>
          (case bt_get (notifiers c1) key of
             Some (n, waiters) \<Rightarrow>
               (Ok (key, n), c1\<lparr>notifiers := bt_insert key (n, waiters + 1) (notifiers c1)\<rparr>)
           | None \<Rightarrow>
               (Ok (key, fresh_id c1),
                c1\<lparr>notifiers := bt_insert key (fresh_id c1, 1) (notifiers c1), fresh_id := fresh_id c1 + 1\<rparr>))
      | (Err e, c1) \<Rightarrow> (Err e, c1)
      | (Panic, c1) \<Rightarrow> (Panic, c1))"

definition channel_waiter_drop :: "CreditKey \<times> nat \<Rightarrow> FlowController \<Rightarrow> FlowController" where
  "channel_waiter_drop slot c =
     credit_waiter_drop
       (case bt_get (notifiers c) (fst slot) of
          Some (n, waiters) \<Rightarrow>
            if n = snd slot then
              (if waiters \<le> 1 then c\<lparr>notifiers := bt_remove (fst slot) (notifiers c)\<rparr>
               else c\<lparr>notifiers := bt_insert (fst slot) (n, waiters - 1) (notifiers c)\<rparr>)
            else c
        | None \<Rightarrow> c)"

text \<open>
  One round of the two waiting loops, between two wake-ups: \<open>None\<close> is waiting on. \<open>acquire_credit\<close>
  has made its first attempt without a waiter; the rounds of its loop hold one.
\<close>

definition acquire_batch_round ::
  "nat \<Rightarrow> CreditKey \<Rightarrow> usize \<Rightarrow> nat \<Rightarrow> bool \<Rightarrow> FlowController \<Rightarrow>
     (FlowError, FlowPermit) result option \<times> bool \<times> FlowController" where
  "acquire_batch_round budget key bytes rows waiting c =
     (let leave = (\<lambda>c. if waiting then credit_waiter_drop c else c) in
      case try_acquire_batch_permit budget key bytes rows c of
        (Ok p, c1) \<Rightarrow> (Some (Ok p), False, leave c1)
      | (Panic, c1) \<Rightarrow> (Some Panic, False, leave c1)
      | (Err e, c1) \<Rightarrow>
          if \<not> is_exhausted e then (Some (Err e), False, leave c1)
          else if waiting then (None, True, c1)
          else (case reserve_credit_waiter c1 of
                  (Ok _, c2) \<Rightarrow> (None, True, c2)
                | (Err e', c2) \<Rightarrow> (Some (Err e'), False, c2)
                | (Panic, c2) \<Rightarrow> (Some Panic, False, c2)))"

definition acquire_credit_start ::
  "nat \<Rightarrow> CreditKey \<Rightarrow> nat \<Rightarrow> FlowController \<Rightarrow>
     ((FlowError, unit) result + CreditKey \<times> nat) \<times> FlowController" where
  "acquire_credit_start budget key row_count0 c =
     (let rows = max row_count0 1 in
      if rows > budget then (Inl (Err TooManyRows), c)
      else case try_acquire_rows key rows c of
        (Ok True, c1) \<Rightarrow> (Inl (Ok ()), c1)
      | (Err e, c1) \<Rightarrow> (Inl (Err e), c1)
      | (Panic, c1) \<Rightarrow> (Inl Panic, c1)
      | (Ok False, c1) \<Rightarrow>
          (case reserve_channel_waiter key c1 of
             (Ok slot, c2) \<Rightarrow> (Inr slot, c2)
           | (Err e, c2) \<Rightarrow> (Inl (Err e), c2)
           | (Panic, c2) \<Rightarrow> (Inl Panic, c2)))"

definition acquire_credit_round ::
  "CreditKey \<Rightarrow> nat \<Rightarrow> CreditKey \<times> nat \<Rightarrow> FlowController \<Rightarrow> (FlowError, unit) result option \<times> FlowController" where
  "acquire_credit_round key rows slot c =
     (case try_acquire_rows key rows c of
        (Ok True, c1) \<Rightarrow> (Some (Ok ()), channel_waiter_drop slot c1)
      | (Ok False, c1) \<Rightarrow> (None, c1)
      | (Err e, c1) \<Rightarrow> (Some (Err e), channel_waiter_drop slot c1)
      | (Panic, c1) \<Rightarrow> (Some Panic, channel_waiter_drop slot c1))"

section \<open>Accounts\<close>

text \<open>
  A charge is an active permit, or a reservation taken by an acknowledgement and not yet released.
  The accounts relate the counters to the charges that exist.
\<close>

definition charged :: "('a \<Rightarrow> nat) \<Rightarrow> 'a multiset \<Rightarrow> nat" where
  "charged f M = sum_mset (image_mset f M)"

definition of_channel :: "CreditKey \<Rightarrow> nat \<Rightarrow> FlowPermit \<Rightarrow> bool" where
  "of_channel k own p \<longleftrightarrow> permit_key p = k \<and> permit_owner p = own"

definition rows_ok :: "ChannelCreditState \<Rightarrow> bool" where
  "rows_ok ch \<longleftrightarrow> available_rows ch \<le> max_rows ch - rows_in_flight ch"

definition channel_ok :: "FlowController \<Rightarrow> FlowPermit multiset \<Rightarrow> CreditKey \<Rightarrow> ChannelCreditState \<Rightarrow> bool" where
  "channel_ok c M k ch \<longleftrightarrow>
     batches_in_flight ch = size (filter_mset (of_channel k (owner ch)) M) + length (awaiting_ack ch)
     \<and> bytes_in_flight ch = charged batch_bytes (filter_mset (of_channel k (owner ch)) M) + awaiting_bytes ch
     \<and> batches_in_flight ch \<le> max_inflight_batches c
     \<and> rows_ok ch \<and> (awaiting_ack ch \<noteq> [] \<longrightarrow> had_delivery ch) \<and> owner ch < fresh_id c \<and> k \<notin> retired c"

definition limits_ok :: "FlowController \<Rightarrow> bool" where
  "limits_ok c \<longleftrightarrow> 1 \<le> max_inflight_batches c \<and> max_inflight_bytes c < usize_max
     \<and> max_pending_requests c \<le> usize_max"

definition channels_ok :: "FlowController \<Rightarrow> FlowPermit multiset \<Rightarrow> bool" where
  "channels_ok c M \<longleftrightarrow> (\<forall>k ch. bt_get (live c) k = Some ch \<longrightarrow> channel_ok c M k ch)"

definition accounts_ok :: "FlowController \<Rightarrow> FlowPermit multiset \<Rightarrow> bool" where
  "accounts_ok c M \<longleftrightarrow> limits_ok c \<and> bt_ok (live c)
     \<and> channels_ok c M \<and> (\<forall>p \<in># M. permit_owner p < fresh_id c)
     \<and> aggregate_bytes c = charged batch_bytes M + bt_sum awaiting_bytes (live c)
     \<and> pending_requests c = size M + bt_sum (\<lambda>ch. length (awaiting_ack ch)) (live c)
     \<and> aggregate_bytes c \<le> max_inflight_bytes c \<and> pending_requests c \<le> max_pending_requests c"

lemma charged_simps [simp]:
  "charged f {#} = 0" "charged f (add_mset x M) = f x + charged f M"
  by (simp_all add: charged_def)

lemma charged_remove: "p \<in># M \<Longrightarrow> charged f M = f p + charged f (M - {#p#})"
  by (metis charged_simps(2) insert_DiffM)

lemma channels_okI: "(\<And>k ch. bt_get (live c) k = Some ch \<Longrightarrow> channel_ok c M k ch) \<Longrightarrow> channels_ok c M"
  unfolding channels_ok_def by blast

lemma accounts_channel: "accounts_ok c M \<Longrightarrow> bt_get (live c) k = Some ch \<Longrightarrow> channel_ok c M k ch"
  unfolding channels_ok_def accounts_ok_def by blast

lemma no_charge_of_fresh:
  "(\<forall>p \<in># M. permit_owner p < n) \<Longrightarrow> n \<le> own \<Longrightarrow> filter_mset (of_channel k own) M = {#}"
  by (induction M) (auto simp: of_channel_def)

text \<open>Opening a channel changes no account.\<close>

lemma open_channel:
  assumes "accounts_ok c M" and "bt_get (live c) k = None" and "k \<notin> retired c"
    and "ch = (channel_new (fresh_id c) b)\<lparr>max_rows := m\<rparr>" and "b \<le> m"
  shows "accounts_ok (c\<lparr>live := bt_insert k ch (live c), fresh_id := fresh_id c + 1\<rparr>) M"
proof -
  have new: "awaiting_ack ch = []" "awaiting_bytes ch = 0" "rows_ok ch" "owner ch = fresh_id c"
    "batches_in_flight ch = 0" "bytes_in_flight ch = 0"
    using assms(4,5) by (simp_all add: channel_new_def awaiting_bytes_def rows_ok_def)
  have none: "filter_mset (of_channel k (fresh_id c)) M = {#}"
    using assms(1) by (intro no_charge_of_fresh [of M "fresh_id c"]) (simp_all add: accounts_ok_def)
  have "channel_ok (c\<lparr>live := bt_insert k ch (live c), fresh_id := fresh_id c + 1\<rparr>) M k ch"
    unfolding channel_ok_def new using assms(1,3) by (simp add: new accounts_ok_def none)
  moreover have "channel_ok (c\<lparr>live := bt_insert k ch (live c), fresh_id := fresh_id c + 1\<rparr>) M k' ch'"
    if "bt_get (live c) k' = Some ch'" for k' ch'
    using accounts_channel [OF assms(1) that] by (simp add: channel_ok_def)
  moreover have "bt_sum f (bt_insert k ch (live c)) = f ch + bt_sum f (live c)" for f :: "_ \<Rightarrow> nat"
    using assms(2) by simp
  moreover have "channels_ok (c\<lparr>live := bt_insert k ch (live c), fresh_id := fresh_id c + 1\<rparr>) M"
    using calculation(1,2) by (intro channels_okI) (simp split: if_splits)
  ultimately show ?thesis
    using assms(1) new by (auto simp: accounts_ok_def limits_ok_def)
qed

text \<open>
  Changing one channel together with the charges on it. Everything else the accounts speak about
  stays as it is.
\<close>

lemma change_channel:
  assumes ok: "accounts_ok c M" and ch: "bt_get (live c) k = Some ch" and own: "owner ch' = owner ch"
    and others: "\<And>k' o'. (k', o') \<noteq> (k, owner ch) \<Longrightarrow>
      filter_mset (of_channel k' o') M' = filter_mset (of_channel k' o') M"
    and new: "channel_ok c M' k ch'" and owners: "\<forall>p \<in># M'. permit_owner p < fresh_id c"
    and a: "a + charged batch_bytes M + awaiting_bytes ch = aggregate_bytes c + charged batch_bytes M' + awaiting_bytes ch'"
    and q: "q + size M + length (awaiting_ack ch) = pending_requests c + size M' + length (awaiting_ack ch')"
    and bounds: "a \<le> max_inflight_bytes c" "q \<le> max_pending_requests c"
  shows "accounts_ok (c\<lparr>live := bt_insert k ch' (live c), aggregate_bytes := a, pending_requests := q\<rparr>) M'"
proof -
  let ?c = "c\<lparr>live := bt_insert k ch' (live c), aggregate_bytes := a, pending_requests := q\<rparr>"
  have bt: "bt_ok (live c)" using ok by (simp add: accounts_ok_def)
  have sums: "bt_sum f (bt_insert k ch' (live c)) + f ch = bt_sum f (live c) + f ch'" for f :: "_ \<Rightarrow> nat"
    using bt_sum_insert [OF bt, of f k ch'] bt_sum_remove [OF bt ch, of f] by simp
  have agg: "aggregate_bytes c = charged batch_bytes M + bt_sum awaiting_bytes (live c)"
    and pend: "pending_requests c = size M + bt_sum (\<lambda>ch. length (awaiting_ack ch)) (live c)"
    using ok by (simp_all add: accounts_ok_def)
  have "channel_ok ?c M' k' x" if "bt_get (bt_insert k ch' (live c)) k' = Some x" for k' x
  proof (cases "k' = k")
    case True
    then show ?thesis using that new by (simp add: channel_ok_def)
  next
    case False
    then have "bt_get (live c) k' = Some x" using that by simp
    then have "channel_ok c M k' x" using ok by (rule accounts_channel [rotated])
    then show ?thesis using others [of k' "owner x"] False by (simp add: channel_ok_def)
  qed
  then have "channels_ok ?c M'" by (intro channels_okI) simp
  then show ?thesis
    using ok bt owners bounds a q agg pend sums [of awaiting_bytes] sums [of "\<lambda>ch. length (awaiting_ack ch)"]
    by (auto simp: accounts_ok_def limits_ok_def)
qed

text \<open>The same where the charges and the global counters do not change.\<close>

lemma change_rows:
  assumes "accounts_ok c M" and "bt_get (live c) k = Some ch" and "rows_ok ch'"
    and "owner ch' = owner ch" "batches_in_flight ch' = batches_in_flight ch"
      "bytes_in_flight ch' = bytes_in_flight ch" "awaiting_ack ch' = awaiting_ack ch"
      "had_delivery ch \<longrightarrow> had_delivery ch'"
  shows "accounts_ok (c\<lparr>live := bt_insert k ch' (live c)\<rparr>) M"
proof -
  have "channel_ok c M k ch" using accounts_channel assms(1,2) .
  then have "channel_ok c M k ch'" using assms(3-8) by (auto simp: channel_ok_def awaiting_bytes_def)
  then have "accounts_ok (c\<lparr>live := bt_insert k ch' (live c), aggregate_bytes := aggregate_bytes c,
      pending_requests := pending_requests c\<rparr>) M"
    by (rule change_channel [OF assms(1,2,4) refl])
      (use assms(1,7) in \<open>auto simp: accounts_ok_def awaiting_bytes_def\<close>)
  then show ?thesis by simp
qed

lemma rows_ok_refresh [simp]: "rows_ok (refresh_available ch)"
  by (simp add: rows_ok_def refresh_available_def)

lemma refresh_simps [simp]:
  "owner (refresh_available ch) = owner ch" "batches_in_flight (refresh_available ch) = batches_in_flight ch"
  "bytes_in_flight (refresh_available ch) = bytes_in_flight ch" "awaiting_ack (refresh_available ch) = awaiting_ack ch"
  "had_delivery (refresh_available ch) = had_delivery ch" "rows_in_flight (refresh_available ch) = rows_in_flight ch"
  "max_rows (refresh_available ch) = max_rows ch" "awaiting_bytes (refresh_available ch) = awaiting_bytes ch"
  by (simp_all add: refresh_available_def awaiting_bytes_def)

lemma or_insert_channel_ok:
  assumes "accounts_ok c M" and "k \<notin> retired c" and "or_insert_channel b k c = (ch, c1)"
  shows "accounts_ok c1 M" and "bt_get (live c1) k = Some ch" and "k \<notin> retired c1"
    and "max_inflight_batches c1 = max_inflight_batches c" "max_inflight_bytes c1 = max_inflight_bytes c"
      "max_pending_requests c1 = max_pending_requests c" "aggregate_bytes c1 = aggregate_bytes c"
      "pending_requests c1 = pending_requests c"
proof -
  have "accounts_ok c1 M \<and> bt_get (live c1) k = Some ch"
  proof (cases "bt_get (live c) k")
    case None
    then have "c1 = c\<lparr>live := bt_insert k ch (live c), fresh_id := fresh_id c + 1\<rparr>"
      and "ch = (channel_new (fresh_id c) b)\<lparr>max_rows := b\<rparr>"
      using assms(3) by (auto simp: or_insert_channel_def Let_def channel_new_def)
    then show ?thesis using open_channel [OF assms(1) None assms(2)] by auto
  next
    case (Some x)
    then show ?thesis using assms by (simp add: or_insert_channel_def)
  qed
  then show "accounts_ok c1 M" and "bt_get (live c1) k = Some ch" by blast+
qed (use assms in \<open>auto simp: or_insert_channel_def Let_def split: option.splits\<close>)

lemma channel_state_ok:
  assumes "accounts_ok c M" and "k \<notin> retired c" and "channel_state k c = (ch, c1)"
  shows "accounts_ok c1 M" and "bt_get (live c1) k = Some ch"
  using or_insert_channel_ok(1,2) [OF assms(1,2)] assms(3) by (simp_all add: channel_state_def)

section \<open>Every operation keeps the accounts\<close>

lemma awaiting_bytes_le:
  assumes "accounts_ok c M" and "bt_get (live c) k = Some ch"
  shows "awaiting_bytes ch \<le> aggregate_bytes c - charged batch_bytes M"
    and "length (awaiting_ack ch) \<le> pending_requests c - size M"
  using assms bt_sum_remove [of "live c" k ch awaiting_bytes]
    bt_sum_remove [of "live c" k ch "\<lambda>ch. length (awaiting_ack ch)"] by (simp_all add: accounts_ok_def)

lemma charged_filter_le: "charged f (filter_mset P M) \<le> charged f M"
  by (induction M) auto

lemma charge_batch_ok:
  assumes ok: "accounts_ok c M" and ch: "bt_get (live c) k = Some ch"
    and room: "pending_requests c < max_pending_requests c" "aggregate_bytes c + bytes \<le> max_inflight_bytes c"
      "batches_in_flight ch < max_inflight_batches c" "rows \<le> available_rows ch"
  obtains p c' where "charge_batch k bytes rows ch c = (Ok p, c')" and "accounts_ok c' (add_mset p M)"
    and "p = \<lparr>permit_key = k, permit_owner = owner ch, batch_bytes = bytes, row_count = rows\<rparr>"
    and "c' = c\<lparr>live := live c', aggregate_bytes := aggregate_bytes c + bytes,
           pending_requests := pending_requests c + 1\<rparr>"
proof -
  let ?p = "\<lparr>permit_key = k, permit_owner = owner ch, batch_bytes = bytes, row_count = rows\<rparr>"
  let ?ch = "ch\<lparr>available_rows := available_rows ch - rows,
            rows_in_flight := u32_saturating_add (rows_in_flight ch) rows,
            batches_in_flight := batches_in_flight ch + 1, bytes_in_flight := bytes_in_flight ch + bytes\<rparr>"
  have cok: "channel_ok c M k ch" using ok ch by (rule accounts_channel)
  have lim: "max_inflight_bytes c < usize_max" using ok by (simp add: accounts_ok_def limits_ok_def)
  have "bytes_in_flight ch \<le> charged batch_bytes M + awaiting_bytes ch"
    using cok charged_filter_le [of batch_bytes "of_channel k (owner ch)" M] by (simp add: channel_ok_def)
  then have "bytes_in_flight ch \<le> aggregate_bytes c"
    using ok awaiting_bytes_le(1) [OF ok ch] by (simp add: accounts_ok_def)
  then have eq: "charge_batch k bytes rows ch c = (Ok ?p, c\<lparr>live := bt_insert k ?ch (live c),
      aggregate_bytes := aggregate_bytes c + bytes, pending_requests := pending_requests c + 1\<rparr>)"
    using room(2) lim by (simp add: charge_batch_def Let_def usize_max_def)
  have "rows_ok ?ch" using cok room(4) by (auto simp: rows_ok_def channel_ok_def u32_saturating_add_def)
  then have "channel_ok c (add_mset ?p M) k ?ch"
    using cok room(3) by (auto simp: channel_ok_def of_channel_def awaiting_bytes_def)
  then have "accounts_ok (c\<lparr>live := bt_insert k ?ch (live c), aggregate_bytes := aggregate_bytes c + bytes,
      pending_requests := pending_requests c + 1\<rparr>) (add_mset ?p M)"
    by (rule change_channel [OF ok ch, rotated 2])
      (use ok cok room in \<open>auto simp: accounts_ok_def channel_ok_def of_channel_def awaiting_bytes_def\<close>)
  then show thesis using eq that by simp
qed

lemma try_acquire_batch_permit_ok:
  assumes ok: "accounts_ok c M" and eq: "try_acquire_batch_permit b k bytes rows c = (r, c')"
  shows "case r of Ok p \<Rightarrow> accounts_ok c' (add_mset p M) | Err e \<Rightarrow> accounts_ok c' M | Panic \<Rightarrow> False"
proof (cases "check_frame_size bytes c = Ok () \<and> \<not> b < max rows 1 \<and> k \<notin> retired c
    \<and> \<not> max_pending_requests c \<le> pending_requests c
    \<and> \<not> max_inflight_bytes c < min (aggregate_bytes c + bytes) usize_max")
  case False
  have "check_frame_size bytes c \<noteq> Panic" by (simp add: check_frame_size_def)
  then show ?thesis
    using eq ok False by (auto simp: try_acquire_batch_permit_def Let_def split: result.splits if_splits)
next
  case True
  obtain ch c1 where open1: "or_insert_channel b k c = (ch, c1)" by fastforce
  have keyed: "k \<notin> retired c" using True by blast
  note opened = or_insert_channel_ok [OF ok keyed open1]
  have "min (aggregate_bytes c + bytes) usize_max \<le> max_inflight_bytes c"
    and pend: "pending_requests c1 < max_pending_requests c1"
    using True opened(6,8) by (simp_all only: not_less not_le simp_thms)
  moreover have "max_inflight_bytes c < usize_max" using ok by (simp add: accounts_ok_def limits_ok_def)
  ultimately have fits: "aggregate_bytes c1 + bytes \<le> max_inflight_bytes c1"
    unfolding opened(5,7) by linarith
  have eq1: "(r, c') = (if max_inflight_batches c \<le> batches_in_flight ch then (Err BatchesExhausted, c1)
      else if available_rows ch < max rows 1 then (Err RowsExhausted, c1)
      else charge_batch k bytes (max rows 1) ch c1)"
    using eq [symmetric] True open1
    by (simp only: try_acquire_batch_permit_def Let_def result.case prod.case if_False simp_thms)
  consider (full) "r = Err BatchesExhausted \<or> r = Err RowsExhausted" "c' = c1"
    | (room) "batches_in_flight ch < max_inflight_batches c1" "max rows 1 \<le> available_rows ch"
        "charge_batch k bytes (max rows 1) ch c1 = (r, c')"
    using eq1 opened(4) by (auto split: if_splits simp: not_le not_less)
  then show ?thesis
  proof cases
    case full
    then show ?thesis using opened(1) by auto
  next
    case room
    show ?thesis
      by (rule charge_batch_ok [OF opened(1,2) pend fits room(1,2)]) (use room(3) in auto)
  qed
qed

lemma accounts_add:
  assumes "accounts_ok c (add_mset p M)"
  shows "batch_bytes p \<le> aggregate_bytes c" and "1 \<le> pending_requests c"
    and "permit_owner p < fresh_id c" and "\<forall>q \<in># M. permit_owner q < fresh_id c"
  using assms by (simp_all add: accounts_ok_def)

lemma release_detached:
  assumes ok: "accounts_ok c (add_mset p M)"
    and none: "\<And>ch. bt_get (live c) (permit_key p) = Some ch \<Longrightarrow> owner ch \<noteq> permit_owner p"
  shows "accounts_ok (c\<lparr>aggregate_bytes := aggregate_bytes c - batch_bytes p,
           pending_requests := pending_requests c - 1\<rparr>) M" (is "accounts_ok ?c M")
proof -
  have "channel_ok ?c M k ch" if "bt_get (live c) k = Some ch" for k ch
  proof -
    have "channel_ok c (add_mset p M) k ch" using ok that by (rule accounts_channel)
    moreover have "\<not> of_channel k (owner ch) p" using none that by (auto simp: of_channel_def)
    ultimately show ?thesis by (simp add: channel_ok_def)
  qed
  then have "channels_ok ?c M" by (intro channels_okI) simp
  then show ?thesis using ok by (simp add: accounts_ok_def limits_ok_def)
qed

lemma release_batch_permit_ok:
  assumes ok: "accounts_ok c (add_mset p M)"
  shows "accounts_ok (release_batch_permit p c) M"
proof (cases "\<exists>ch. bt_get (live c) (permit_key p) = Some ch \<and> owner ch = permit_owner p")
  case False
  then have "release_batch_permit p c = c\<lparr>aggregate_bytes := aggregate_bytes c - batch_bytes p,
      pending_requests := pending_requests c - 1\<rparr>"
    by (auto simp: release_batch_permit_def release_accounting_def same_owner_def Let_def split: option.splits)
  then show ?thesis using release_detached [OF ok] False by auto
next
  case True
  then obtain ch where ch: "bt_get (live c) (permit_key p) = Some ch" and own: "owner ch = permit_owner p" by blast
  let ?ch = "refresh_available (ch\<lparr>rows_in_flight := rows_in_flight ch - row_count p,
      batches_in_flight := batches_in_flight ch - 1, bytes_in_flight := bytes_in_flight ch - batch_bytes p\<rparr>)"
  have eq: "release_batch_permit p c = c\<lparr>live := bt_insert (permit_key p) ?ch (live c),
      aggregate_bytes := aggregate_bytes c - batch_bytes p, pending_requests := pending_requests c - 1\<rparr>"
    using ch own by (simp add: release_batch_permit_def release_accounting_def same_owner_def Let_def)
  have "channel_ok c (add_mset p M) (permit_key p) ch" using ok ch by (rule accounts_channel)
  then have "channel_ok c M (permit_key p) ?ch"
    using own by (auto simp: channel_ok_def of_channel_def awaiting_bytes_def)
  then show ?thesis
    unfolding eq
    by (rule change_channel [OF ok ch, rotated 2])
      (use ok own accounts_add [OF ok] in \<open>auto simp: accounts_ok_def of_channel_def awaiting_bytes_def\<close>)
qed

lemma awaiting_snoc:
  "awaiting_bytes (ch\<lparr>had_delivery := d, awaiting_ack := awaiting_ack ch @ [(i, b, r)]\<rparr>) = awaiting_bytes ch + b"
  by (simp add: awaiting_bytes_def)

lemma handoff_ok:
  assumes ok: "accounts_ok c (add_mset p M)"
  shows "accounts_ok (handoff e sq p c) M"
proof (cases "\<exists>ch. bt_get (live c) (permit_key p) = Some ch \<and> owner ch = permit_owner p")
  case False
  then have "handoff e sq p c = release_batch_permit p c"
    by (auto simp: handoff_def same_owner_def split: option.splits)
  then show ?thesis using release_batch_permit_ok [OF ok] by simp
next
  case True
  then obtain ch where ch: "bt_get (live c) (permit_key p) = Some ch" and own: "owner ch = permit_owner p" by blast
  let ?ch = "ch\<lparr>had_delivery := True, awaiting_ack := awaiting_ack ch @ [((e, sq), batch_bytes p, row_count p)]\<rparr>"
  have eq: "handoff e sq p c = c\<lparr>live := bt_insert (permit_key p) ?ch (live c),
      aggregate_bytes := aggregate_bytes c, pending_requests := pending_requests c\<rparr>"
    using ch own by (simp add: handoff_def same_owner_def)
  have "channel_ok c (add_mset p M) (permit_key p) ch" using ok ch by (rule accounts_channel)
  then have "channel_ok c M (permit_key p) ?ch"
    using own by (simp add: channel_ok_def of_channel_def awaiting_snoc rows_ok_def)
  then show ?thesis
    unfolding eq
    by (rule change_channel [OF ok ch, rotated 2])
      (use ok own in \<open>auto simp: accounts_ok_def of_channel_def awaiting_snoc\<close>)
qed

lemma take_first_Some:
  "take_first P xs = Some (x, ys) \<Longrightarrow> \<exists>as bs. xs = as @ x # bs \<and> ys = as @ bs \<and> P x \<and> (\<forall>a \<in> set as. \<not> P a)"
proof (induction xs arbitrary: x ys)
  case (Cons a xs)
  show ?case
  proof (cases "P a")
    case False
    then obtain zs where "take_first P xs = Some (x, zs)" "ys = a # zs"
      using Cons.prems by (auto split: option.splits)
    then show ?thesis using Cons.IH False by (metis append_Cons set_ConsD)
  qed (use Cons.prems in force)
qed simp

lemma take_first_None: "take_first P xs = None \<longleftrightarrow> (\<forall>x \<in> set xs. \<not> P x)"
  by (induction xs) (auto split: option.splits)

lemma refresh_rows_ok:
  "accounts_ok c M \<Longrightarrow> bt_get (live c) k = Some ch \<Longrightarrow>
     accounts_ok (c\<lparr>live := bt_insert k (refresh_available (ch\<lparr>rows_in_flight := n\<rparr>)) (live c)\<rparr>) M"
  by (rule change_rows) auto

lemma ack_take_ok:
  assumes ok: "accounts_ok c M" and eq: "ack_take k e sq g c = (r, c')"
  shows "accounts_ok c' (case r of Some p \<Rightarrow> add_mset p M | None \<Rightarrow> M)"
proof (cases "k \<in> retired c")
  case True
  then show ?thesis using ok eq by (auto simp: ack_take_def)
next
  case False
  obtain ch c1 where st: "channel_state k c = (ch, c1)" by fastforce
  note opened = channel_state_ok [OF ok False st]
  show ?thesis
  proof (cases "take_first (\<lambda>r. fst r = (e, sq)) (awaiting_ack ch)")
    case None
    then show ?thesis
      using eq False st opened(1) refresh_rows_ok [OF opened(1,2)] by (auto simp: ack_take_def split: if_splits)
  next
    case (Some y)
    then obtain i b n rest where y: "y = ((i, b, n), rest)" by (metis surj_pair)
    obtain as bs where split: "awaiting_ack ch = as @ (i, b, n) # bs" "rest = as @ bs"
      using take_first_Some [OF Some [unfolded y]] by blast
    let ?p = "\<lparr>permit_key = k, permit_owner = owner ch, batch_bytes = b, row_count = n\<rparr>"
    have r: "r = Some ?p" and c': "c' = c1\<lparr>live := bt_insert k (ch\<lparr>awaiting_ack := rest\<rparr>) (live c1),
        aggregate_bytes := aggregate_bytes c1, pending_requests := pending_requests c1\<rparr>"
      using eq False st Some y by (auto simp: ack_take_def)
    have bytes: "awaiting_bytes ch = b + awaiting_bytes (ch\<lparr>awaiting_ack := rest\<rparr>)"
      by (simp add: awaiting_bytes_def split)
    have cok: "channel_ok c1 M k ch" using opened(1,2) by (rule accounts_channel)
    then have "channel_ok c1 (add_mset ?p M) k (ch\<lparr>awaiting_ack := rest\<rparr>)"
      using bytes by (auto simp: channel_ok_def of_channel_def split rows_ok_def)
    then have "accounts_ok c' (add_mset ?p M)"
      unfolding c' by (rule change_channel [OF opened(1,2), rotated 2])
        (use opened(1) cok bytes split in \<open>auto simp: accounts_ok_def of_channel_def channel_ok_def\<close>)
    then show ?thesis by (simp add: r)
  qed
qed

lemma release_credit_ok:
  assumes ok: "accounts_ok c M"
  shows "accounts_ok (release_credit k n c) M"
proof (cases "k \<in> retired c")
  case False
  obtain ch c1 where st: "channel_state k c = (ch, c1)" by fastforce
  then show ?thesis
    using False refresh_rows_ok [OF channel_state_ok [OF ok False st]] by (simp add: release_credit_def)
qed (use ok in \<open>simp add: release_credit_def\<close>)

lemma try_acquire_rows_ok:
  assumes ok: "accounts_ok c M" and eq: "try_acquire_rows k n c = (r, c')"
  shows "accounts_ok c' M \<and> r \<noteq> Panic"
proof (cases "k \<in> retired c")
  case True
  then show ?thesis using ok eq by (auto simp: try_acquire_rows_def)
next
  case False
  obtain ch c1 where st: "channel_state k c = (ch, c1)" by fastforce
  note opened = channel_state_ok [OF ok False st]
  have "rows_ok ch" using accounts_channel [OF opened(1,2)] by (simp add: channel_ok_def)
  then have "accounts_ok (c1\<lparr>live := bt_insert k (ch\<lparr>available_rows := available_rows ch - n,
      rows_in_flight := u32_saturating_add (rows_in_flight ch) n, had_delivery := True\<rparr>) (live c1)\<rparr>) M"
    if "n \<le> available_rows ch"
    using that by (intro change_rows [OF opened(1,2)]) (auto simp: rows_ok_def u32_saturating_add_def)
  then show ?thesis using eq False st opened(1) by (auto simp: try_acquire_rows_def not_less split: if_splits)
qed

lemma set_credits_ok:
  assumes ok: "accounts_ok c M"
  shows "accounts_ok (set_credits k n c) M"
proof (cases "k \<in> retired c")
  case False
  show ?thesis
  proof (cases "bt_get (live c) k")
    case None
    then show ?thesis
      using open_channel [OF ok None False refl, of n "max n 1"] False by (simp add: set_credits_def)
  next
    case (Some ch)
    then have "accounts_ok (c\<lparr>live := bt_insert k (ch\<lparr>available_rows := n, max_rows := max n 1\<rparr>) (live c)\<rparr>) M"
      if "rows_in_flight ch = 0"
      using that by (intro change_rows [OF ok Some]) (auto simp: rows_ok_def)
    then show ?thesis using ok Some False by (auto simp: set_credits_def)
  qed
qed (use ok in \<open>simp add: set_credits_def\<close>)


lemma bt_get_map_snd: "bt_get (map (\<lambda>(k, v). (k, f v)) m) k = map_option f (bt_get m k)"
  by (induction m) auto

lemma bt_sum_map_snd: "bt_sum g (map (\<lambda>(k, v). (k, f v)) m) = bt_sum (\<lambda>v. g (f v)) m"
  by (induction m) (auto simp: bt_sum_def)

lemma keys_map_snd: "map fst (map (\<lambda>(k, v). (k, f v)) m) = map fst m"
  by (induction m) auto

lemma set_row_budget_ok:
  assumes ok: "accounts_ok c M"
  shows "accounts_ok (set_row_budget b c) M"
proof -
  let ?f = "\<lambda>ch. refresh_available (ch\<lparr>max_rows := max b 1\<rparr>)"
  have same: "awaiting_bytes (?f ch) = awaiting_bytes ch" "length (awaiting_ack (?f ch)) = length (awaiting_ack ch)" for ch
    by (simp_all add: awaiting_bytes_def)
  have "channel_ok (set_row_budget b c) M k ch" if ch: "bt_get (live (set_row_budget b c)) k = Some ch" for k ch
  proof -
    obtain x where x: "bt_get (live c) k = Some x" "ch = ?f x"
      using ch by (auto simp: set_row_budget_def Let_def bt_get_map_snd)
    show ?thesis
      using accounts_channel [OF ok x(1)] x(2) same by (simp add: channel_ok_def set_row_budget_def Let_def)
  qed
  then have "channels_ok (set_row_budget b c) M" by (rule channels_okI)
  moreover have "bt_ok (live (set_row_budget b c))"
    using ok unfolding accounts_ok_def set_row_budget_def Let_def bt_ok_def by (simp add: keys_map_snd del: map_map)
  moreover have sums: "bt_sum awaiting_bytes (live (set_row_budget b c)) = bt_sum awaiting_bytes (live c)"
    "bt_sum (\<lambda>ch. length (awaiting_ack ch)) (live (set_row_budget b c)) = bt_sum (\<lambda>ch. length (awaiting_ack ch)) (live c)"
    unfolding set_row_budget_def Let_def by (simp_all add: bt_sum_map_snd awaiting_bytes_def [abs_def])
  ultimately show ?thesis
    using ok unfolding accounts_ok_def sums by (simp add: limits_ok_def set_row_budget_def Let_def)
qed

lemma fetch_sub_small:
  assumes "b \<le> a" and "a < 2 ^ 64"
  shows "fetch_sub_u64 a b = a - b"
proof -
  have "b mod 2 ^ 64 = b" and "a + 2 ^ 64 - b = (a - b) + 2 ^ 64" and "(a - b) mod 2 ^ 64 = a - b"
    using assms by simp_all
  then show ?thesis by (simp only: fetch_sub_u64_def mod_add_self2)
qed

lemma teardown_channel_ok:
  assumes ok: "accounts_ok c M" and ch: "bt_get (live c) k = Some ch"
  shows "accounts_ok (teardown_channel x (k, ch) c) M"
proof (cases "fst k = x")
  case True
  let ?c = "teardown_channel x (k, ch) c"
  have bt: "bt_ok (live c)" and small: "aggregate_bytes c < 2 ^ 64" "pending_requests c < 2 ^ 64"
    using ok by (auto simp: accounts_ok_def limits_ok_def usize_max_def)
  note sums = bt_sum_remove [OF bt ch, of awaiting_bytes] bt_sum_remove [OF bt ch, of "\<lambda>ch. length (awaiting_ack ch)"]
  have counts: "aggregate_bytes ?c = aggregate_bytes c - awaiting_bytes ch"
    "pending_requests ?c = pending_requests c - length (awaiting_ack ch)"
    using True small awaiting_bytes_le [OF ok ch]
    by (auto simp: teardown_channel_def intro!: fetch_sub_small)
  have "channel_ok ?c M k' ch'" if get: "bt_get (live ?c) k' = Some ch'" for k' ch'
  proof -
    have "k' \<noteq> k" and "bt_get (live c) k' = Some ch'"
      using get True bt by (auto simp: teardown_channel_def split: if_splits)
    then show ?thesis
      using accounts_channel [OF ok, of k' ch'] True by (simp add: channel_ok_def teardown_channel_def)
  qed
  then have "channels_ok ?c M" by (rule channels_okI)
  moreover have "live ?c = bt_remove k (live c)" "fresh_id ?c = fresh_id c" "limits_ok ?c = limits_ok c"
    "max_inflight_bytes ?c = max_inflight_bytes c" "max_pending_requests ?c = max_pending_requests c"
    using True by (simp_all add: teardown_channel_def limits_ok_def)
  ultimately show ?thesis using ok bt counts sums by (simp add: accounts_ok_def)
qed (use ok in \<open>simp add: teardown_channel_def\<close>)

lemma teardown_fold_ok:
  assumes "accounts_ok c M" and "distinct (map fst es)" and "\<forall>e \<in> set es. bt_get (live c) (fst e) = Some (snd e)"
  shows "accounts_ok (fold (teardown_channel x) es c) M"
  using assms
proof (induction es arbitrary: c)
  case (Cons e es)
  have "accounts_ok (teardown_channel x e c) M"
    using teardown_channel_ok [of c M "fst e" "snd e" x] Cons.prems by simp
  moreover have "bt_get (live (teardown_channel x e c)) (fst d) = Some (snd d)" if "d \<in> set es" for d
  proof -
    have "fst d \<noteq> fst e" using Cons.prems(2) that by (metis distinct.simps(2) image_eqI list.map(2) list.set_map)
    then show ?thesis using Cons.prems(1,3) that by (simp add: teardown_channel_def accounts_ok_def)
  qed
  ultimately show ?case using Cons.IH Cons.prems(2) by simp
qed simp

lemma accounts_notifiers [simp]: "accounts_ok (c\<lparr>notifiers := n\<rparr>) M = accounts_ok c M"
  "accounts_ok (c\<lparr>queued_credit_waiters := q\<rparr>) M = accounts_ok c M"
  by (simp_all add: accounts_ok_def limits_ok_def channels_ok_def channel_ok_def)

lemma accounts_fresh:
  assumes ok: "accounts_ok c M" and n: "fresh_id c \<le> n"
  shows "accounts_ok (c\<lparr>fresh_id := n\<rparr>) M"
proof -
  have "channel_ok (c\<lparr>fresh_id := n\<rparr>) M k ch" if "bt_get (live c) k = Some ch" for k ch
    using accounts_channel [OF ok that] n by (simp add: channel_ok_def)
  then have "channels_ok (c\<lparr>fresh_id := n\<rparr>) M" by (intro channels_okI) simp
  then show ?thesis using ok n by (auto simp: accounts_ok_def limits_ok_def)
qed

lemma teardown_exchange_ok:
  assumes ok: "accounts_ok c M"
  shows "accounts_ok (teardown_exchange x c) M"
proof -
  have bt: "bt_ok (live c)" using ok by (simp add: accounts_ok_def)
  then have "distinct (map fst (live c))" by (simp add: bt_ok_def strict_sorted_iff)
  moreover have "\<forall>e \<in> set (live c). bt_get (live c) (fst e) = Some (snd e)"
    using calculation by simp
  ultimately show ?thesis using teardown_fold_ok [OF ok] by (simp add: teardown_exchange_def Let_def)
qed

section \<open>Waiters\<close>

definition counted :: "(CreditKey, nat \<times> nat) omap \<Rightarrow> (CreditKey \<times> nat) multiset \<Rightarrow> bool" where
  "counted ns S \<longleftrightarrow> (\<forall>k n m. bt_get ns k = Some (n, m) \<longrightarrow> m = count S (k, n) \<and> 0 < m)"

definition entries_ok :: "FlowController \<Rightarrow> (CreditKey \<times> nat) multiset \<Rightarrow> bool" where
  "entries_ok c S \<longleftrightarrow> bt_ok (notifiers c) \<and> counted (notifiers c) S"

lemma countedI: "(\<And>k n m. bt_get ns k = Some (n, m) \<Longrightarrow> m = count S (k, n) \<and> 0 < m) \<Longrightarrow> counted ns S"
  unfolding counted_def by blast

lemma countedD: "counted ns S \<Longrightarrow> bt_get ns k = Some (n, m) \<Longrightarrow> m = count S (k, n) \<and> 0 < m"
  unfolding counted_def by blast

definition waiters_ok :: "FlowController \<Rightarrow> nat \<Rightarrow> (CreditKey \<times> nat) multiset \<Rightarrow> bool" where
  "waiters_ok c w S \<longleftrightarrow> queued_credit_waiters c = w + size S
     \<and> queued_credit_waiters c \<le> max_pending_requests c \<and> max_pending_requests c \<le> usize_max
     \<and> (\<forall>s \<in># S. snd s < fresh_id c) \<and> entries_ok c S"

definition limits :: "FlowController \<Rightarrow> usize \<times> usize \<times> usize \<times> usize" where
  "limits c = (max_inflight_batches c, max_inflight_bytes c, max_batch_bytes c, max_pending_requests c)"

lemma limits_simps [simp]:
  "limits (c\<lparr>live := v1\<rparr>) = limits c" "limits (c\<lparr>retired := v2\<rparr>) = limits c" "limits (c\<lparr>row_budget := v7\<rparr>) = limits c"
  "limits (c\<lparr>notifiers := v3\<rparr>) = limits c" "limits (c\<lparr>aggregate_bytes := v4\<rparr>) = limits c"
  "limits (c\<lparr>pending_requests := v4\<rparr>) = limits c" "limits (c\<lparr>queued_credit_waiters := v5\<rparr>) = limits c"
  "limits (c\<lparr>fresh_id := v6\<rparr>) = limits c"
  by (simp_all add: limits_def)

text \<open>What every step keeps: the limits, the retired channels, and the identities in use.\<close>

definition kept :: "FlowController \<Rightarrow> FlowController \<Rightarrow> bool" where
  "kept c c' \<longleftrightarrow> limits c' = limits c \<and> retired c \<subseteq> retired c' \<and> fresh_id c \<le> fresh_id c'"

definition same_waiters :: "FlowController \<Rightarrow> FlowController \<Rightarrow> bool" where
  "same_waiters c c' \<longleftrightarrow> notifiers c' = notifiers c \<and> queued_credit_waiters c' = queued_credit_waiters c
     \<and> limits c' = limits c \<and> fresh_id c \<le> fresh_id c' \<and> retired c \<subseteq> retired c'"

lemma same_waiters_kept: "same_waiters c c' \<Longrightarrow> kept c c'"
  by (simp add: same_waiters_def kept_def)

lemma same_waiters_ok: "same_waiters c c' \<Longrightarrow> waiters_ok c w S \<Longrightarrow> waiters_ok c' w S"
  unfolding same_waiters_def waiters_ok_def entries_ok_def limits_def by (auto dest: order_less_le_trans)

lemma same_waiters_refl [simp]: "same_waiters c c"
  by (simp add: same_waiters_def)

lemma same_waiters_trans: "same_waiters c c1 \<Longrightarrow> same_waiters c1 c2 \<Longrightarrow> same_waiters c c2"
  unfolding same_waiters_def by auto

lemma or_insert_same: "or_insert_channel b k c = (ch, c1) \<Longrightarrow> same_waiters c c1"
  by (auto simp: or_insert_channel_def Let_def same_waiters_def split: option.splits)

lemma channel_state_same: "channel_state k c = (ch, c1) \<Longrightarrow> same_waiters c c1"
  by (simp add: channel_state_def or_insert_same)

lemma charge_batch_same: "charge_batch k bytes rows ch c = (r, c') \<Longrightarrow> same_waiters c c'"
  by (auto simp: charge_batch_def Let_def same_waiters_def split: if_splits)

lemma try_acquire_batch_permit_same:
  "try_acquire_batch_permit b k bytes rows c = (r, c') \<Longrightarrow> same_waiters c c'"
  unfolding try_acquire_batch_permit_def Let_def
  by (auto split: result.splits if_splits prod.splits dest!: or_insert_same charge_batch_same
      intro: same_waiters_trans)

lemma release_batch_permit_same [simp]: "same_waiters c (release_batch_permit p c)"
  by (auto simp: release_batch_permit_def Let_def same_waiters_def split: option.splits prod.splits)

lemma handoff_same [simp]: "same_waiters c (handoff e sq p c)"
  by (auto simp: handoff_def split: option.splits) (simp add: same_waiters_def)

lemma ack_take_same: "ack_take k e sq g c = (r, c') \<Longrightarrow> same_waiters c c'"
  by (auto simp: ack_take_def same_waiters_def split: if_splits prod.splits option.splits dest!: channel_state_same)

lemma release_credit_same [simp]: "same_waiters c (release_credit k n c)"
  by (auto simp: release_credit_def same_waiters_def split: prod.splits dest!: channel_state_same)

lemma set_credits_same [simp]: "same_waiters c (set_credits k n c)"
  by (auto simp: set_credits_def same_waiters_def split: option.splits)

lemma set_row_budget_same [simp]: "same_waiters c (set_row_budget b c)"
  by (simp add: set_row_budget_def same_waiters_def Let_def)

lemma try_acquire_rows_same: "try_acquire_rows k n c = (r, c') \<Longrightarrow> same_waiters c c'"
  by (auto simp: try_acquire_rows_def same_waiters_def split: if_splits prod.splits dest!: channel_state_same)

lemma teardown_fold_same: "same_waiters c (fold (teardown_channel x) es c)"
proof (induction es arbitrary: c)
  case (Cons e es)
  have "same_waiters c (teardown_channel x e c)" by (auto simp: teardown_channel_def same_waiters_def)
  then show ?case using Cons same_waiters_trans by fastforce
qed simp

lemma bt_get_filter_key: "bt_get (filter (\<lambda>e. P (fst e)) m) k = (if P k then bt_get m k else None)"
  by (induction m) auto

lemma counted_filter: "counted ns S \<Longrightarrow> counted (filter (\<lambda>e. P (fst e)) ns) S"
  unfolding counted_def bt_get_filter_key by (auto split: if_splits)

lemma teardown_exchange_waiters:
  assumes "waiters_ok c w S"
  shows "waiters_ok (teardown_exchange x c) w S"
proof -
  let ?c = "fold (teardown_channel x) (live c) c"
  have ok: "waiters_ok ?c w S" using same_waiters_ok [OF teardown_fold_same assms] .
  have bt: "bt_ok (notifiers ?c)" using ok by (simp add: waiters_ok_def entries_ok_def)
  have "counted (notifiers (teardown_exchange x c)) S"
    using counted_filter [where P = "\<lambda>q. fst q \<noteq> x"] ok
    by (simp add: teardown_exchange_def Let_def waiters_ok_def entries_ok_def)
  moreover have "bt_ok (notifiers (teardown_exchange x c))"
    using bt by (simp add: teardown_exchange_def Let_def bt_ok_def strict_sorted_iff distinct_map_filter sorted_filter)
  ultimately have "entries_ok (teardown_exchange x c) S" by (simp add: entries_ok_def)
  then show ?thesis using ok by (auto simp: waiters_ok_def teardown_exchange_def Let_def)
qed

lemma reserve_credit_waiter_ok:
  assumes "waiters_ok c w S" and "reserve_credit_waiter c = (r, c')"
  shows "case r of Ok _ \<Rightarrow> waiters_ok c' (w + 1) S | Err e \<Rightarrow> c' = c | Panic \<Rightarrow> False"
  using assms by (auto simp: reserve_credit_waiter_def waiters_ok_def entries_ok_def split: if_splits)

lemma credit_waiter_drop_ok: "waiters_ok c (w + 1) S \<Longrightarrow> waiters_ok (credit_waiter_drop c) w S"
  by (auto simp: credit_waiter_drop_def waiters_ok_def entries_ok_def usize_max_def fetch_sub_small)

lemma reserve_channel_waiter_ok:
  assumes ok: "waiters_ok c w S" and eq: "reserve_channel_waiter k c = (r, c')"
  shows "case r of Ok s \<Rightarrow> waiters_ok c' w (add_mset s S) \<and> fst s = k | Err e \<Rightarrow> c' = c | Panic \<Rightarrow> False"
proof (cases "queued_credit_waiters c \<ge> max_pending_requests c")
  case True
  then show ?thesis using eq by (auto simp: reserve_channel_waiter_def reserve_credit_waiter_def)
next
  case False
  let ?c = "c\<lparr>queued_credit_waiters := queued_credit_waiters c + 1\<rparr>"
  have ent: "entries_ok c S" "\<forall>s \<in># S. snd s < fresh_id c" using ok by (simp_all add: waiters_ok_def)
  show ?thesis
  proof (cases "bt_get (notifiers c) k")
    case None
    have r: "r = Ok (k, fresh_id c)" "c' = ?c\<lparr>notifiers := bt_insert k (fresh_id c, 1) (notifiers c), fresh_id := fresh_id c + 1\<rparr>"
      using eq False None by (auto simp: reserve_channel_waiter_def reserve_credit_waiter_def)
    have "count S (k, fresh_id c) = 0" using ent(2) by (metis count_inI less_irrefl snd_conv)
    then have "counted (notifiers c') (add_mset (k, fresh_id c) S)"
      using ent(1) by (intro countedI) (auto simp: entries_ok_def r(2) split: if_splits dest: countedD)
    then have "entries_ok c' (add_mset (k, fresh_id c) S)" using ent by (simp add: entries_ok_def r(2))
    then show ?thesis using ok False r by (auto simp: waiters_ok_def less_Suc_eq)
  next
    case (Some e)
    obtain n m where e: "e = (n, m)" by fastforce
    have r: "r = Ok (k, n)" "c' = ?c\<lparr>notifiers := bt_insert k (n, m + 1) (notifiers c)\<rparr>"
      using eq False Some e by (auto simp: reserve_channel_waiter_def reserve_credit_waiter_def)
    have m: "m = count S (k, n)" "0 < m" using countedD [of "notifiers c" S k n m] ent(1) Some e unfolding entries_ok_def by blast+
    then have "n < fresh_id c" using ent(2) by (metis count_greater_zero_iff snd_conv)
    moreover have "counted (notifiers c') (add_mset (k, n) S)"
      using ent(1) m by (intro countedI) (auto simp: entries_ok_def r(2) split: if_splits dest: countedD)
    moreover have "bt_ok (notifiers c')" using ent(1) by (simp add: entries_ok_def r(2))
    ultimately show ?thesis using ok False r by (simp add: waiters_ok_def entries_ok_def)
  qed
qed

lemma channel_waiter_drop_ok:
  assumes ok: "waiters_ok c w (add_mset s S)"
  shows "waiters_ok (channel_waiter_drop s c) w S"
proof -
  obtain k n where s: "s = (k, n)" by fastforce
  have ent: "entries_ok c (add_mset s S)" and bt: "bt_ok (notifiers c)"
    using ok by (simp_all add: waiters_ok_def entries_ok_def)
  define ns where "ns = (case bt_get (notifiers c) k of
      Some (n', m) \<Rightarrow> if n' = n then (if m \<le> 1 then bt_remove k (notifiers c)
        else bt_insert k (n', m - 1) (notifiers c)) else notifiers c
    | None \<Rightarrow> notifiers c)"
  have eq: "channel_waiter_drop s c = credit_waiter_drop (c\<lparr>notifiers := ns\<rparr>)"
    by (auto simp: channel_waiter_drop_def ns_def s split: option.splits)
  have all: "m = count (add_mset s S) (k', n') \<and> 0 < m" if "bt_get (notifiers c) k' = Some (n', m)" for k' n' m
    using ent that countedD unfolding entries_ok_def by blast
  have "bt_ok ns" using bt by (auto simp: ns_def split: option.splits)
  moreover have "m = count S (k', n') \<and> 0 < m" if "bt_get ns k' = Some (n', m)" for k' n' m
    using all [of k' n'] all [of k] that bt
    by (cases "k' = k") (auto simp: ns_def s split: option.splits if_splits)
  ultimately have "entries_ok (c\<lparr>notifiers := ns\<rparr>) S" unfolding entries_ok_def counted_def by simp
  then have "waiters_ok (c\<lparr>notifiers := ns, queued_credit_waiters := w + size S\<rparr>) w S"
    using ok by (auto simp: waiters_ok_def entries_ok_def)
  moreover have "fetch_sub_u64 (queued_credit_waiters c) 1 = w + size S"
    using ok by (auto simp: waiters_ok_def usize_max_def fetch_sub_small)
  ultimately show ?thesis unfolding eq credit_waiter_drop_def by simp
qed


lemma waiter_kept:
  "kept c (credit_waiter_drop c)" "kept c (channel_waiter_drop s c)"
  "reserve_credit_waiter c = (r, c') \<Longrightarrow> kept c c'" "reserve_channel_waiter k c = (q, c'') \<Longrightarrow> kept c c''"
  by (auto simp: credit_waiter_drop_def channel_waiter_drop_def reserve_credit_waiter_def
      reserve_channel_waiter_def kept_def split: if_splits option.splits)

lemma kept_trans: "kept c c1 \<Longrightarrow> kept c1 c2 \<Longrightarrow> kept c c2"
  unfolding kept_def by auto

lemma teardown_exchange_kept: "kept c (teardown_exchange x c)"
  using same_waiters_kept [OF teardown_fold_same] by (auto simp: kept_def teardown_exchange_def Let_def)

section \<open>The controller and its callers\<close>

text \<open>
  The controller together with what its callers hold: the charges (active permits, and reservations
  that \<open>handle_ack\<close> has taken and not yet released), the callers that wait for a permit, and the
  keyed slots of the callers that wait for credit. An event is one atomic step of a call; \<open>Err ()\<close>
  says that no caller can make it in this state.
\<close>

record FlowSys =
  ctl :: FlowController
  charges :: "FlowPermit multiset"
  waits :: nat
  slots :: "(CreditKey \<times> nat) multiset"

datatype FlowEvent =
    AcquireBatch nat CreditKey usize nat | RetryBatch nat CreditKey usize nat | AbandonBatch
  | Release FlowPermit | Handoff u64 u64 FlowPermit | Ack CreditKey u64 u64 nat | Teardown u64
  | ReleaseCredit CreditKey nat | SetCredits CreditKey nat | SetRowBudget nat
  | AcquireCredit nat CreditKey nat | RetryCredit "CreditKey \<times> nat" nat | AbandonCredit "CreditKey \<times> nat"

definition granted :: "(FlowError, FlowPermit) result option \<Rightarrow> FlowPermit multiset" where
  "granted r = (case r of Some (Ok p) \<Rightarrow> {#p#} | _ \<Rightarrow> {#})"

definition batch_event :: "nat \<Rightarrow> CreditKey \<Rightarrow> usize \<Rightarrow> nat \<Rightarrow> bool \<Rightarrow> FlowSys \<Rightarrow> (unit, FlowSys) result" where
  "batch_event b k bytes rows waiting s =
     (case acquire_batch_round b k bytes rows waiting (ctl s) of (r, w, c) \<Rightarrow>
        if r = Some Panic then Panic
        else Ok (s\<lparr>ctl := c, charges := charges s + granted r,
          waits := waits s - (if waiting then 1 else 0) + (if w then 1 else 0)\<rparr>))"

fun flow_event :: "FlowEvent \<Rightarrow> FlowSys \<Rightarrow> (unit, FlowSys) result" where
  "flow_event (AcquireBatch b k bytes rows) s = batch_event b k bytes rows False s"
| "flow_event (RetryBatch b k bytes rows) s =
     (if waits s = 0 then Err () else batch_event b k bytes rows True s)"
| "flow_event AbandonBatch s =
     (if waits s = 0 then Err () else Ok (s\<lparr>ctl := credit_waiter_drop (ctl s), waits := waits s - 1\<rparr>))"
| "flow_event (Release p) s =
     (if p \<in># charges s then Ok (s\<lparr>ctl := release_batch_permit p (ctl s), charges := charges s - {#p#}\<rparr>)
      else Err ())"
| "flow_event (Handoff e sq p) s =
     (if p \<in># charges s then Ok (s\<lparr>ctl := handoff e sq p (ctl s), charges := charges s - {#p#}\<rparr>) else Err ())"
| "flow_event (Ack k e sq g) s =
     (case ack_take k e sq g (ctl s) of (r, c) \<Rightarrow>
        Ok (s\<lparr>ctl := c, charges := charges s + (case r of Some p \<Rightarrow> {#p#} | None \<Rightarrow> {#})\<rparr>))"
| "flow_event (Teardown x) s = Ok (s\<lparr>ctl := teardown_exchange x (ctl s)\<rparr>)"
| "flow_event (ReleaseCredit k n) s = Ok (s\<lparr>ctl := release_credit k n (ctl s)\<rparr>)"
| "flow_event (SetCredits k n) s = Ok (s\<lparr>ctl := set_credits k n (ctl s)\<rparr>)"
| "flow_event (SetRowBudget b) s = Ok (s\<lparr>ctl := set_row_budget b (ctl s)\<rparr>)"
| "flow_event (AcquireCredit b k rows) s =
     (case acquire_credit_start b k rows (ctl s) of
        (Inl Panic, c) \<Rightarrow> Panic
      | (Inl _, c) \<Rightarrow> Ok (s\<lparr>ctl := c\<rparr>)
      | (Inr slot, c) \<Rightarrow> Ok (s\<lparr>ctl := c, slots := add_mset slot (slots s)\<rparr>))"
| "flow_event (RetryCredit slot rows) s =
     (if slot \<notin># slots s then Err ()
      else case acquire_credit_round (fst slot) rows slot (ctl s) of
        (Some Panic, c) \<Rightarrow> Panic
      | (Some _, c) \<Rightarrow> Ok (s\<lparr>ctl := c, slots := slots s - {#slot#}\<rparr>)
      | (None, c) \<Rightarrow> Ok (s\<lparr>ctl := c\<rparr>))"
| "flow_event (AbandonCredit slot) s =
     (if slot \<in># slots s then Ok (s\<lparr>ctl := channel_waiter_drop slot (ctl s), slots := slots s - {#slot#}\<rparr>)
      else Err ())"

definition flow_step :: "FlowSys \<Rightarrow> FlowEvent \<Rightarrow> FlowSys \<Rightarrow> bool" where
  "flow_step s e t \<longleftrightarrow> flow_event e s = Ok t"

definition flow_new :: "FlowController \<Rightarrow> FlowSys" where
  "flow_new c = \<lparr>ctl = c, charges = {#}, waits = 0, slots = {#}\<rparr>"

text \<open>
  A controller as the constructor and the four limit setters leave it. A byte limit of \<open>usize::MAX\<close> is
  left out: the saturating sum of the admission check can never exceed it.
\<close>

definition flow_init :: "FlowSys \<Rightarrow> bool" where
  "flow_init s \<longleftrightarrow> (\<exists>b batches bytes frame pending.
     bytes < usize_max \<and> pending \<le> usize_max
     \<and> s = flow_new (with_max_inflight_batches batches (with_max_inflight_bytes bytes
         (with_max_batch_bytes frame (with_max_pending_requests pending (with_row_budget b))))))"

definition flow_inv :: "FlowSys \<Rightarrow> bool" where
  "flow_inv s \<longleftrightarrow> accounts_ok (ctl s) (charges s) \<and> waiters_ok (ctl s) (waits s) (slots s)"

lemmas flow_invI = flow_inv_def [THEN iffD2, OF conjI]

lemma flow_new_inv: "flow_init s \<Longrightarrow> flow_inv s"
  unfolding flow_init_def flow_inv_def flow_new_def
  by (auto simp: with_max_inflight_batches_def with_max_inflight_bytes_def with_max_batch_bytes_def
      with_max_pending_requests_def with_row_budget_def accounts_ok_def limits_ok_def channels_ok_def
      waiters_ok_def entries_ok_def counted_def bt_ok_def bt_sum_def usize_max_def)

lemma waiter_accounts:
  assumes "accounts_ok c M"
  shows "accounts_ok (credit_waiter_drop c) M" and "accounts_ok (channel_waiter_drop s c) M"
    and "reserve_credit_waiter c = (r, c') \<Longrightarrow> accounts_ok c' M"
    and "reserve_channel_waiter k c = (q, c'') \<Longrightarrow> accounts_ok c'' M"
  using assms accounts_fresh [OF assms, of "fresh_id c + 1"]
  by (auto simp: credit_waiter_drop_def channel_waiter_drop_def reserve_credit_waiter_def
      reserve_channel_waiter_def split: if_splits option.splits intro!: accounts_fresh)

lemma acquire_batch_round_ok:
  assumes inv: "accounts_ok c M" "waiters_ok c (w + (if waiting then 1 else 0)) S"
    and eq: "acquire_batch_round b k bytes rows waiting c = (r, w', c')"
  shows "accounts_ok c' (M + granted r) \<and> waiters_ok c' (w + (if w' then 1 else 0)) S \<and> r \<noteq> Some Panic"
proof -
  obtain t c1 where t: "try_acquire_batch_permit b k bytes rows c = (t, c1)" by fastforce
  note acc = try_acquire_batch_permit_ok [OF inv(1) t]
  note wt = same_waiters_ok [OF try_acquire_batch_permit_same [OF t] inv(2)]
  have drop: "waiters_ok (if waiting then credit_waiter_drop c1 else c1) w S"
    using wt by (auto intro: credit_waiter_drop_ok)
  have leave: "accounts_ok (if waiting then credit_waiter_drop c1 else c1) N" if "accounts_ok c1 N" for N
    using that waiter_accounts(1) by auto
  obtain q c2 where q: "reserve_credit_waiter c1 = (q, c2)" by fastforce
  note res = reserve_credit_waiter_ok [OF _ q, of w S]
  show ?thesis
  proof (cases t)
    case (Ok p)
    then show ?thesis using eq t acc drop leave by (auto simp: acquire_batch_round_def granted_def)
  next
    case (Err e)
    then have a1: "accounts_ok c1 M" using acc by simp
    show ?thesis
      using eq t Err a1 drop leave [OF a1] wt q res waiter_accounts(3) [OF a1 q]
      by (auto simp: acquire_batch_round_def granted_def split: if_splits result.splits)
  next
    case Panic
    then show ?thesis using acc by simp
  qed
qed

lemma batch_event_ok:
  assumes inv: "flow_inv s" and w: "waiting \<longrightarrow> waits s \<noteq> 0"
  shows "\<exists>t. batch_event b k bytes rows waiting s = Ok t \<and> flow_inv t"
proof -
  obtain r w' c' where eq: "acquire_batch_round b k bytes rows waiting (ctl s) = (r, w', c')"
    by (metis prod_cases3)
  have "waiters_ok (ctl s) (waits s - (if waiting then 1 else 0) + (if waiting then 1 else 0)) (slots s)"
    using inv w by (simp add: flow_inv_def)
  from acquire_batch_round_ok [OF _ this eq, of "charges s"] inv
  show ?thesis by (simp add: batch_event_def eq flow_inv_def)
qed

lemma acquire_credit_start_ok:
  assumes inv: "accounts_ok c M" "waiters_ok c w S" and eq: "acquire_credit_start b k rows c = (r, c')"
  shows "accounts_ok c' M \<and> (case r of Inl q \<Rightarrow> waiters_ok c' w S \<and> q \<noteq> Panic
           | Inr slot \<Rightarrow> waiters_ok c' w (add_mset slot S))"
proof -
  obtain t c1 where t: "try_acquire_rows k (max rows 1) c = (t, c1)" by fastforce
  note acc = try_acquire_rows_ok [OF inv(1) t]
  note wt = same_waiters_ok [OF try_acquire_rows_same [OF t] inv(2)]
  obtain q c2 where q: "reserve_channel_waiter k c1 = (q, c2)" by fastforce
  note res = reserve_channel_waiter_ok [OF wt q]
  have a1: "accounts_ok c1 M" using acc by simp
  show ?thesis
    using eq t acc wt q res waiter_accounts(4) [OF a1 q] inv
    by (auto simp: acquire_credit_start_def Let_def split: if_splits result.splits bool.splits)
qed

lemma acquire_credit_round_ok:
  assumes inv: "accounts_ok c M" "waiters_ok c w (add_mset slot S)"
    and eq: "acquire_credit_round k rows slot c = (r, c')"
  shows "accounts_ok c' M \<and> r \<noteq> Some Panic
     \<and> waiters_ok c' w (if r = None then add_mset slot S else S)"
proof -
  obtain t c1 where t: "try_acquire_rows k rows c = (t, c1)" by fastforce
  note acc = try_acquire_rows_ok [OF inv(1) t]
  note wt = same_waiters_ok [OF try_acquire_rows_same [OF t] inv(2)]
  have a1: "accounts_ok c1 M" using acc by simp
  show ?thesis
    using eq t acc wt waiter_accounts(2) [OF a1, of slot] channel_waiter_drop_ok [OF wt]
    by (auto simp: acquire_credit_round_def split: result.splits bool.splits)
qed

lemma flow_event_ok:
  assumes inv: "flow_inv s"
  shows "flow_event e s \<noteq> Panic" and "flow_event e s = Ok t \<Longrightarrow> flow_inv t"
proof -
  have a: "accounts_ok (ctl s) (charges s)" and w: "waiters_ok (ctl s) (waits s) (slots s)"
    using inv by (simp_all add: flow_inv_def)
  have held: "accounts_ok (ctl s) (add_mset p (charges s - {#p#}))" if "p \<in># charges s" for p
    using a that by simp
  have slot: "waiters_ok (ctl s) (waits s) (add_mset x (slots s - {#x#}))" if "x \<in># slots s" for x
    using w that by simp
  have keep: "waiters_ok c' (waits s) (slots s)" if "same_waiters (ctl s) c'" for c'
    using same_waiters_ok [OF that w] .
  have "flow_event e s \<noteq> Panic \<and> (\<forall>t. flow_event e s = Ok t \<longrightarrow> flow_inv t)"
  proof (cases e)
    case (AcquireBatch b k bytes rows)
    then show ?thesis using batch_event_ok [OF inv, of False b k bytes rows] by auto
  next
    case (RetryBatch b k bytes rows)
    then show ?thesis using batch_event_ok [OF inv, of True b k bytes rows] by auto
  next
    case AbandonBatch
    then show ?thesis
      using waiter_accounts(1) [OF a] credit_waiter_drop_ok [of "ctl s" "waits s - 1" "slots s"] w
      by (auto simp: flow_inv_def)
  next
    case (Release p)
    then show ?thesis using release_batch_permit_ok [OF held] keep by (auto simp: flow_inv_def)
  next
    case (Handoff x y p)
    then show ?thesis using handoff_ok [OF held] keep by (auto simp: flow_inv_def)
  next
    case (Ack k x y g)
    obtain r c where eq: "ack_take k x y g (ctl s) = (r, c)" by fastforce
    show ?thesis
      using Ack eq ack_take_ok [OF a eq] keep [OF ack_take_same [OF eq]]
      by (auto simp: flow_inv_def split: option.splits)
  next
    case (AcquireCredit b k rows)
    obtain r c where eq: "acquire_credit_start b k rows (ctl s) = (r, c)" by fastforce
    show ?thesis
      using AcquireCredit eq acquire_credit_start_ok [OF a w eq]
      by (auto simp: flow_inv_def split: sum.splits result.splits)
  next
    case (RetryCredit x rows)
    obtain r c where eq: "acquire_credit_round (fst x) rows x (ctl s) = (r, c)" by fastforce
    show ?thesis
      using RetryCredit eq acquire_credit_round_ok [OF a slot eq]
      by (auto simp: flow_inv_def split: option.splits result.splits)
  next
    case (AbandonCredit x)
    then show ?thesis
      using waiter_accounts(2) [OF a] channel_waiter_drop_ok [OF slot] by (auto simp: flow_inv_def)
  qed (use a keep teardown_exchange_ok teardown_exchange_waiters [OF w] release_credit_ok set_credits_ok
      set_row_budget_ok in \<open>auto simp: flow_inv_def\<close>)
  then show "flow_event e s \<noteq> Panic" and "flow_event e s = Ok t \<Longrightarrow> flow_inv t" by blast+
qed

lemma acquire_batch_round_kept:
  "acquire_batch_round b k bytes rows w c = (r, w', c') \<Longrightarrow> kept c c'"
proof -
  assume eq: "acquire_batch_round b k bytes rows w c = (r, w', c')"
  obtain t c1 where t: "try_acquire_batch_permit b k bytes rows c = (t, c1)" by fastforce
  obtain q c2 where q: "reserve_credit_waiter c1 = (q, c2)" by fastforce
  have "kept c c1" using same_waiters_kept [OF try_acquire_batch_permit_same [OF t]] .
  moreover from this have "kept c (credit_waiter_drop c1)" "kept c c2"
    using kept_trans waiter_kept(1) waiter_kept(3) [OF q] by blast+
  ultimately show ?thesis
    using eq t q by (auto simp: acquire_batch_round_def Let_def split: result.splits if_splits)
qed

lemma acquire_credit_kept:
  "acquire_credit_start b k rows c = (r, c') \<Longrightarrow> kept c c'"
  "acquire_credit_round k rows slot c = (q, c'') \<Longrightarrow> kept c c''"
proof -
  have rows: "kept c c1" if "try_acquire_rows k n c = (t, c1)" for n t c1
    using same_waiters_kept [OF try_acquire_rows_same [OF that]] .
  have "kept c c" by (simp add: kept_def)
  then show "acquire_credit_start b k rows c = (r, c') \<Longrightarrow> kept c c'"
    unfolding acquire_credit_start_def Let_def
    by (auto split: if_splits result.splits bool.splits prod.splits dest!: rows waiter_kept(4) intro: kept_trans)
  show "acquire_credit_round k rows slot c = (q, c'') \<Longrightarrow> kept c c''"
    unfolding acquire_credit_round_def
    by (auto split: result.splits bool.splits prod.splits dest!: rows intro: kept_trans waiter_kept(2))
qed

lemma flow_event_kept: "flow_event e s = Ok t \<Longrightarrow> kept (ctl s) (ctl t)"
  by (cases e)
    (auto simp: batch_event_def split: prod.splits if_splits option.splits sum.splits result.splits
      dest!: acquire_batch_round_kept acquire_credit_kept same_waiters_kept [OF ack_take_same]
      intro: waiter_kept teardown_exchange_kept same_waiters_kept)

interpretation flow: monotone_system flow_init flow_step flow_inv "\<lambda>s t. kept (ctl s) (ctl t)"
proof
  show "flow_init s \<Longrightarrow> flow_inv s" for s by (rule flow_new_inv)
  show "flow_inv s \<Longrightarrow> flow_step s e t \<Longrightarrow> flow_inv t" for s e t
    using flow_event_ok(2) by (simp add: flow_step_def)
  show "kept (ctl s) (ctl s)" for s by (simp add: kept_def)
  show "kept (ctl s) (ctl u)" if "kept (ctl s) (ctl t)" "kept (ctl t) (ctl u)" for s t u
    using kept_trans that .
  show "flow_inv s \<Longrightarrow> flow_step s e t \<Longrightarrow> kept (ctl s) (ctl t)" for s e t
    using flow_event_kept by (simp add: flow_step_def)
qed

lemma card_set_mset_le: "card (set_mset M) \<le> size M"
  by (induction M) (auto simp: card_insert_if)

lemma notifiers_le_slots:
  assumes "entries_ok c S"
  shows "length (notifiers c) \<le> size S"
proof -
  let ?f = "\<lambda>(k, n, m). (k, n) :: CreditKey \<times> nat"
  have d: "distinct (bt_keys (notifiers c))" using assms by (simp add: entries_ok_def bt_ok_distinct)
  then have "inj_on ?f (set (notifiers c))" by (auto intro!: inj_onI dest: eq_key_imp_eq_value)
  moreover have "?f ` set (notifiers c) \<subseteq> set_mset S"
  proof clarify
    fix k n m assume "(k, n, m) \<in> set (notifiers c)"
    then have "bt_get (notifiers c) k = Some (n, m)" using d by simp
    then have "0 < count S (k, n)" using assms countedD [of "notifiers c" S k n m] unfolding entries_ok_def by blast
    then show "(k, n) \<in># S" by simp
  qed
  ultimately have "card (set (notifiers c)) \<le> card (set_mset S)" by (metis card_inj_on_le finite_set_mset)
  moreover have "distinct (notifiers c)" using d distinct_map by blast
  ultimately show ?thesis using card_set_mset_le [of S] by (simp add: distinct_card)
qed

lemma teardown_fold_retires:
  "(k, ch) \<in> set es \<Longrightarrow> had_delivery ch \<Longrightarrow> k \<in> retired (fold (teardown_channel (fst k)) es c)"
proof (induction es arbitrary: c)
  case (Cons e es)
  have mono: "retired c \<subseteq> retired (fold (teardown_channel x) es c)" for x c
    using teardown_fold_same by (auto simp: same_waiters_def)
  show ?case
  proof (cases "e = (k, ch)")
    case True
    then have "k \<in> retired (teardown_channel (fst k) e c)" using Cons.prems by (simp add: teardown_channel_def)
    then show ?thesis using mono by auto
  next
    case False
    then show ?thesis using Cons by auto
  qed
qed simp

lemma teardown_exchange_retires:
  assumes "bt_get (live c) k = Some ch" and "had_delivery ch"
  shows "k \<in> retired (teardown_exchange (fst k) c)"
  using teardown_fold_retires [OF map_of_SomeD [OF assms(1)] assms(2), of c]
  by (simp add: teardown_exchange_def Let_def)

lemma retired_refused:
  assumes "k \<in> retired c"
  shows "\<exists>e. try_acquire_batch_permit b k bytes rows c = (Err e, c) \<and> \<not> is_exhausted e"
    and "try_acquire_rows k n c = (Err ChannelRetired, c)" and "ack_take k e sq g c = (None, c)"
    and "release_credit k n c = c" and "set_credits k n c = c"
  using assms by (auto simp: try_acquire_batch_permit_def check_frame_size_def Let_def try_acquire_rows_def
      ack_take_def release_credit_def set_credits_def)

section \<open>Properties\<close>

text \<open>
  (C13) Flow control keeps its limits. In every state that any interleaving of calls reaches, the
  aggregate bytes and the pending requests are exactly those of the active permits and of the batches
  that await acknowledgement, and they and the batches of each channel stay within the limits the
  controller was built with. The queue counts exactly the callers that wait, stays within its limit,
  and there are no more keyed notifiers than waiters. No call panics on overflow.
\<close>

theorem flow_bounds:
  assumes "flow_init s0" and "run flow_step s0 es s"
  shows "limits (ctl s) = limits (ctl s0)
     \<and> aggregate_bytes (ctl s) = charged batch_bytes (charges s) + bt_sum awaiting_bytes (live (ctl s))
     \<and> pending_requests (ctl s) = size (charges s) + bt_sum (\<lambda>ch. length (awaiting_ack ch)) (live (ctl s))
     \<and> aggregate_bytes (ctl s) \<le> max_inflight_bytes (ctl s)
     \<and> pending_requests (ctl s) \<le> max_pending_requests (ctl s)
     \<and> (\<forall>k ch. bt_get (live (ctl s)) k = Some ch \<longrightarrow>
          batches_in_flight ch = size (filter_mset (of_channel k (owner ch)) (charges s)) + length (awaiting_ack ch)
          \<and> batches_in_flight ch \<le> max_inflight_batches (ctl s)
          \<and> available_rows ch \<le> max_rows ch - rows_in_flight ch)
     \<and> queued_credit_waiters (ctl s) = waits s + size (slots s)
     \<and> queued_credit_waiters (ctl s) \<le> max_pending_requests (ctl s)
     \<and> length (notifiers (ctl s)) \<le> size (slots s)
     \<and> flow_event e s \<noteq> Panic"
proof -
  have inv: "flow_inv s" using flow.reachable_inv [OF assms] .
  then have a: "accounts_ok (ctl s) (charges s)" and w: "waiters_ok (ctl s) (waits s) (slots s)"
    by (simp_all add: flow_inv_def)
  have "kept (ctl s0) (ctl s)" using flow.run_progress [OF assms(2)] flow_new_inv [OF assms(1)] .
  then have "limits (ctl s) = limits (ctl s0)" by (simp add: kept_def)
  moreover have "length (notifiers (ctl s)) \<le> size (slots s)"
    using w notifiers_le_slots by (simp add: waiters_ok_def)
  moreover have "\<forall>k ch. bt_get (live (ctl s)) k = Some ch \<longrightarrow>
      batches_in_flight ch = size (filter_mset (of_channel k (owner ch)) (charges s)) + length (awaiting_ack ch)
      \<and> batches_in_flight ch \<le> max_inflight_batches (ctl s) \<and> available_rows ch \<le> max_rows ch - rows_in_flight ch"
    using accounts_channel [OF a] unfolding channel_ok_def rows_ok_def by blast
  moreover have "flow_event e s \<noteq> Panic" using flow_event_ok(1) [OF inv] .
  ultimately show ?thesis using a w unfolding accounts_ok_def waiters_ok_def by blast
qed

text \<open>
  (C14) A channel that delivered before its exchange was torn down stays retired. Whatever happens
  afterwards, no channel opens under its key, every attempt to send or to take credit on it fails with
  an error that makes no caller wait, acknowledgements and credit grants for it change nothing, and
  a permit of the old channel releases its bytes and its request without touching any live channel.
\<close>

theorem retired_channels:
  assumes "flow_init s0" and "run flow_step s0 es s"
    and "bt_get (live (ctl s)) k = Some ch" and "had_delivery ch"
    and "run flow_step s (Teardown (fst k) # fs) t"
  shows "k \<in> retired (ctl t) \<and> bt_get (live (ctl t)) k = None
     \<and> (\<exists>e. try_acquire_batch_permit b k bytes rows (ctl t) = (Err e, ctl t) \<and> \<not> is_exhausted e)
     \<and> try_acquire_rows k n (ctl t) = (Err ChannelRetired, ctl t)
     \<and> ack_take k e sq g (ctl t) = (None, ctl t)
     \<and> release_credit k n (ctl t) = ctl t \<and> set_credits k n (ctl t) = ctl t
     \<and> (permit_key p = k \<longrightarrow> live (release_batch_permit p (ctl t)) = live (ctl t)
          \<and> aggregate_bytes (release_batch_permit p (ctl t)) = aggregate_bytes (ctl t) - batch_bytes p
          \<and> pending_requests (release_batch_permit p (ctl t)) = pending_requests (ctl t) - 1)"
proof -
  obtain s1 where s1: "s1 = s\<lparr>ctl := teardown_exchange (fst k) (ctl s)\<rparr>" and rest: "run flow_step s1 fs t"
    using assms(5) by (auto simp: run_Cons_iff flow_step_def)
  have inv: "flow_inv s1" "flow_inv t"
    using flow.reachable_inv [OF assms(1,2)] flow_event_ok(2) [of s "Teardown (fst k)" s1] s1
      flow.run_inv [OF rest] by auto
  have "k \<in> retired (ctl s1)" using teardown_exchange_retires assms(3,4) by (simp add: s1)
  then have ret: "k \<in> retired (ctl t)" using flow.run_progress [OF rest inv(1)] by (auto simp: kept_def)
  moreover have none: "bt_get (live (ctl t)) k = None"
    using accounts_channel [of "ctl t" "charges t" k] inv(2) ret
    by (cases "bt_get (live (ctl t)) k") (auto simp: flow_inv_def channel_ok_def)
  moreover have "permit_key p = k \<longrightarrow> live (release_batch_permit p (ctl t)) = live (ctl t)
      \<and> aggregate_bytes (release_batch_permit p (ctl t)) = aggregate_bytes (ctl t) - batch_bytes p
      \<and> pending_requests (release_batch_permit p (ctl t)) = pending_requests (ctl t) - 1"
    using none by (auto simp: release_batch_permit_def release_accounting_def Let_def)
  ultimately show ?thesis using retired_refused [OF ret] by blast
qed


definition flow_demo :: FlowSys where
  "flow_demo = flow_new (with_max_inflight_batches 2 (with_max_inflight_bytes 100
     (with_max_batch_bytes 80 (with_max_pending_requests 3 (with_row_budget 10)))))"

definition demo_key :: CreditKey where "demo_key = (7, 0, 1)"

definition demo_permit :: FlowPermit where
  "demo_permit = \<lparr>permit_key = demo_key, permit_owner = 0, batch_bytes = 60, row_count = 4\<rparr>"

definition demo_sent :: FlowSys where
  "demo_sent = flow_demo\<lparr>ctl := (ctl flow_demo)\<lparr>live := [(demo_key, \<lparr>owner = 0, had_delivery = True,
      available_rows = 6, max_rows = 10, rows_in_flight = 4, batches_in_flight = 1, bytes_in_flight = 60,
      awaiting_ack = [((1, 1), 60, 4)]\<rparr>)], aggregate_bytes := 60, pending_requests := 1,
      queued_credit_waiters := 1, fresh_id := 1\<rparr>, waits := 1\<rparr>"

lemmas demo_defs = flow_demo_def demo_sent_def demo_key_def demo_permit_def flow_new_def with_max_inflight_batches_def
  with_max_inflight_bytes_def with_max_batch_bytes_def with_max_pending_requests_def with_row_budget_def

lemma flow_demo_init: "flow_init flow_demo"
  unfolding flow_init_def flow_demo_def by (intro exI conjI) (auto simp: usize_max_def)

lemma demo_run:
  "run flow_step flow_demo [AcquireBatch 10 demo_key 60 4, Handoff 1 1 demo_permit, AcquireBatch 10 demo_key 60 4] demo_sent"
  by (simp add: run_Cons_iff flow_step_def batch_event_def acquire_batch_round_def Let_def granted_def
      try_acquire_batch_permit_def check_frame_size_def or_insert_channel_def charge_batch_def channel_new_def
      handoff_def same_owner_def reserve_credit_waiter_def u32_saturating_add_def usize_max_def demo_defs)

theorem flow_bounds_witness:
  "run flow_step flow_demo [AcquireBatch 10 demo_key 60 4, Handoff 1 1 demo_permit, AcquireBatch 10 demo_key 60 4] demo_sent
     \<and> aggregate_bytes (ctl demo_sent) = 60 \<and> queued_credit_waiters (ctl demo_sent) = 1
     \<and> aggregate_bytes (ctl demo_sent) \<le> max_inflight_bytes (ctl demo_sent)
     \<and> flow_event (Teardown 7) demo_sent \<noteq> Panic"
  using flow_bounds [OF flow_demo_init demo_run, of "Teardown 7"] demo_run
  by (simp add: demo_sent_def)

theorem retired_channels_witness:
  "demo_key \<in> retired (ctl (demo_sent\<lparr>ctl := teardown_exchange 7 (ctl demo_sent)\<rparr>))
     \<and> try_acquire_rows demo_key 1 (teardown_exchange 7 (ctl demo_sent))
       = (Err ChannelRetired, teardown_exchange 7 (ctl demo_sent))
     \<and> aggregate_bytes (teardown_exchange 7 (ctl demo_sent)) = 0"
proof -
  have ch: "bt_get (live (ctl demo_sent)) demo_key = Some (snd (hd (live (ctl demo_sent))))"
    and del: "had_delivery (snd (hd (live (ctl demo_sent))))" by (simp_all add: demo_sent_def)
  have run: "run flow_step demo_sent [Teardown (fst demo_key)] (demo_sent\<lparr>ctl := teardown_exchange 7 (ctl demo_sent)\<rparr>)"
    by (simp add: run_Cons_iff flow_step_def demo_key_def)
  have "aggregate_bytes (teardown_exchange 7 (ctl demo_sent)) = 0"
    by (simp add: teardown_exchange_def teardown_channel_def fetch_sub_u64_def awaiting_bytes_def demo_defs)
  then show ?thesis
    using retired_channels [OF flow_demo_init demo_run ch del run, of 10 60 4 1] by simp
qed

end
