(* ===== verification/Arrays.thy ===== *)
theory Arrays
  imports Prelude "HOL-Library.Signed_Division"
begin

text \<open>
  Arrow arrays as the evaluator of \<open>rockstream-ops/src/expr.rs\<close> sees them, the functions that read one
  cell (\<open>extract_string\<close> to \<open>extract_timestamp_micros\<close>), and the environment of an evaluation.

  A column is a list of cells, \<open>None\<close> for a null; \<open>NullArray\<close> has no null buffer, so its \<open>is_null\<close> is
  false. Text is its UTF-8 bytes. An \<open>f64\<close> is its bit pattern. Errors are distinguished by their
  constructor in \<open>OpError\<close>. A row index outside a column is a panic. \<open>ExprEnv\<close> holds what the evaluator
  takes from elsewhere: floating-point arithmetic, Unicode case mapping, the cast kernel and the debug
  format of Arrow, the regex and chrono packages, and the clock.
\<close>

section \<open>Arrays\<close>

datatype TimeUnit = Second | Millisecond | Microsecond | Nanosecond

datatype DataType =
    Int64 | Int32 | Float64 | Utf8 | LargeUtf8 | Utf8View | Boolean | Date32
  | Timestamp TimeUnit "string option" | Null | OtherType nat

datatype Arr =
    Int64Array "i64 option list"
  | Int32Array "u32 option list"
  | Float64Array "u64 option list"
  | StringArray "bytes option list"
  | LargeStringArray "bytes option list"
  | StringViewArray "bytes option list"
  | BooleanArray "bool option list"
  | Date32Array "u32 option list"
  | TimestampArray TimeUnit "string option" "i64 option list"
  | NullArray nat
  | OtherArray nat "bool list"

datatype ExprError =
    ColumnOutOfBounds | ColumnTypeMismatch | InvalidLiteral | NumericOverflow | ExprTypeMismatch
  | Unimplemented | ArrowError

fun data_type :: "Arr \<Rightarrow> DataType" where
  "data_type (Int64Array _) = Int64"
| "data_type (Int32Array _) = Int32"
| "data_type (Float64Array _) = Float64"
| "data_type (StringArray _) = Utf8"
| "data_type (LargeStringArray _) = LargeUtf8"
| "data_type (StringViewArray _) = Utf8View"
| "data_type (BooleanArray _) = Boolean"
| "data_type (Date32Array _) = Date32"
| "data_type (TimestampArray u tz _) = Timestamp u tz"
| "data_type (NullArray _) = Null"
| "data_type (OtherArray t _) = OtherType t"

fun arr_len :: "Arr \<Rightarrow> nat" where
  "arr_len (Int64Array xs) = length xs"
| "arr_len (Int32Array xs) = length xs"
| "arr_len (Float64Array xs) = length xs"
| "arr_len (StringArray xs) = length xs"
| "arr_len (LargeStringArray xs) = length xs"
| "arr_len (StringViewArray xs) = length xs"
| "arr_len (BooleanArray xs) = length xs"
| "arr_len (Date32Array xs) = length xs"
| "arr_len (TimestampArray _ _ xs) = length xs"
| "arr_len (NullArray n) = n"
| "arr_len (OtherArray _ ns) = length ns"

fun null_cell :: "Arr \<Rightarrow> nat \<Rightarrow> bool" where
  "null_cell (Int64Array xs) r = (xs ! r = None)"
| "null_cell (Int32Array xs) r = (xs ! r = None)"
| "null_cell (Float64Array xs) r = (xs ! r = None)"
| "null_cell (StringArray xs) r = (xs ! r = None)"
| "null_cell (LargeStringArray xs) r = (xs ! r = None)"
| "null_cell (StringViewArray xs) r = (xs ! r = None)"
| "null_cell (BooleanArray xs) r = (xs ! r = None)"
| "null_cell (Date32Array xs) r = (xs ! r = None)"
| "null_cell (TimestampArray _ _ xs) r = (xs ! r = None)"
| "null_cell (NullArray _) r = False"
| "null_cell (OtherArray _ ns) r = (ns ! r)"

definition is_null :: "Arr \<Rightarrow> nat \<Rightarrow> (ExprError, bool) result" where
  "is_null a r = (if r < arr_len a then Ok (null_cell a r) else Panic)"

record RecordBatch =
  num_rows :: nat
  columns :: "Arr list"

text \<open>A point in time in UTC with the fields of chrono; \<open>weekday\<close> counts from Monday.\<close>

record DateTime =
  year :: int
  month :: nat
  day :: nat
  hour :: nat
  minute :: nat
  second :: nat
  nanosecond :: nat
  weekday :: nat
  iso_week :: nat
  ordinal :: nat

record ExprEnv =
  f64_add :: "u64 \<Rightarrow> u64 \<Rightarrow> u64"
  f64_sub :: "u64 \<Rightarrow> u64 \<Rightarrow> u64"
  f64_mul :: "u64 \<Rightarrow> u64 \<Rightarrow> u64"
  f64_div :: "u64 \<Rightarrow> u64 \<Rightarrow> u64"
  f64_lt :: "u64 \<Rightarrow> u64 \<Rightarrow> bool"
  f64_le :: "u64 \<Rightarrow> u64 \<Rightarrow> bool"
  f64_eq :: "u64 \<Rightarrow> u64 \<Rightarrow> bool"
  f64_of_i64 :: "i64 \<Rightarrow> u64"
  f64_to_string :: "u64 \<Rightarrow> bytes"
  to_uppercase :: "bytes \<Rightarrow> bytes"
  to_lowercase :: "bytes \<Rightarrow> bytes"
  debug_array :: "Arr \<Rightarrow> bytes"
  cast_kernel :: "Arr \<Rightarrow> Arr option"
  regex_replace :: "bytes \<Rightarrow> (bytes \<Rightarrow> bytes \<Rightarrow> bytes) option"
  parse_rfc3339 :: "bytes \<Rightarrow> i64 option"
  parse_datetime :: "bytes \<Rightarrow> i64 option"
  parse_date :: "bytes \<Rightarrow> i64 option"
  datetime_of_micros :: "i64 \<Rightarrow> DateTime option"
  datetime_of_secs :: "i64 \<Rightarrow> nat \<Rightarrow> DateTime option"
  datetime_default :: DateTime
  civil_micros :: "int \<times> nat \<times> nat \<Rightarrow> nat \<Rightarrow> nat \<Rightarrow> nat \<Rightarrow> nat \<Rightarrow> i64 option"
  minus_days :: "int \<times> nat \<times> nat \<Rightarrow> nat \<Rightarrow> (int \<times> nat \<times> nat) option"
  chrono_format :: "DateTime \<Rightarrow> bytes \<Rightarrow> bytes option"
  now_micros :: i64
  now_secs :: i64

section \<open>Integers and text\<close>

definition i64_checked_div :: "i64 \<Rightarrow> i64 \<Rightarrow> i64 option" where
  "i64_checked_div x y = (if y = 0 then None else i64_checked (ival x sdiv ival y))"

definition i64_checked_rem :: "i64 \<Rightarrow> i64 \<Rightarrow> i64 option" where
  "i64_checked_rem x y =
     (if y = 0 \<or> \<not> in_i64 (ival x sdiv ival y) then None else i64_checked (ival x smod ival y))"

definition i64_saturate :: "int \<Rightarrow> i64" where
  "i64_saturate i = of_ival (max (- (2 ^ 63)) (min i (2 ^ 63 - 1)))"

definition i32_as_i64 :: "u32 \<Rightarrow> i64" where
  "i32_as_i64 w = of_ival (sint w)"

definition i64_from_be :: "bytes \<Rightarrow> i64" where
  "i64_from_be bs = I64 (from_be bs)"

definition continuation :: "u8 \<Rightarrow> bool" where
  "continuation b \<longleftrightarrow> 0x80 \<le> b \<and> b \<le> 0xBF"

text \<open>\<open>String::from_utf8\<close> accepts exactly the well-formed byte sequences.\<close>

fun utf8_ok :: "bytes \<Rightarrow> bool" where
  "utf8_ok [] = True"
| "utf8_ok (b # bs) =
     (if b < 0x80 then utf8_ok bs
      else if 0xC2 \<le> b \<and> b \<le> 0xDF then
        (case bs of c # cs \<Rightarrow> continuation c \<and> utf8_ok cs | _ \<Rightarrow> False)
      else if 0xE0 \<le> b \<and> b \<le> 0xEF then
        (case bs of c # d # cs \<Rightarrow>
           continuation c \<and> (b = 0xE0 \<longrightarrow> 0xA0 \<le> c) \<and> (b = 0xED \<longrightarrow> c \<le> 0x9F)
           \<and> continuation d \<and> utf8_ok cs | _ \<Rightarrow> False)
      else if 0xF0 \<le> b \<and> b \<le> 0xF4 then
        (case bs of c # d # e # cs \<Rightarrow>
           continuation c \<and> (b = 0xF0 \<longrightarrow> 0x90 \<le> c) \<and> (b = 0xF4 \<longrightarrow> c \<le> 0x8F)
           \<and> continuation d \<and> continuation e \<and> utf8_ok cs | _ \<Rightarrow> False)
      else False)"

fun bytes_less :: "bytes \<Rightarrow> bytes \<Rightarrow> bool" where
  "bytes_less _ [] = False"
| "bytes_less [] (_ # _) = True"
| "bytes_less (a # as) (b # bs) = (a < b \<or> a = b \<and> bytes_less as bs)"

section \<open>Cells\<close>

definition or_zero :: "i64 option \<Rightarrow> i64" where
  "or_zero v = (case v of None \<Rightarrow> 0 | Some x \<Rightarrow> x)"

text \<open>
  The extractors are called on cells that are not null; the value that the code would read from a
  null slot is given as zero.
\<close>

definition cell_value :: "'a option list \<Rightarrow> 'a \<Rightarrow> nat \<Rightarrow> (ExprError, 'a) result" where
  "cell_value xs d r = (if r < length xs then Ok (case xs ! r of Some v \<Rightarrow> v | None \<Rightarrow> d) else Panic)"

fun extract_f64 :: "ExprEnv \<Rightarrow> Arr \<Rightarrow> nat \<Rightarrow> (ExprError, u64) result" where
  "extract_f64 env (Float64Array xs) r = cell_value xs 0 r"
| "extract_f64 env (Int64Array xs) r = rbind (cell_value xs 0 r) (\<lambda>v. Ok (f64_of_i64 env v))"
| "extract_f64 env (Int32Array xs) r = rbind (cell_value xs 0 r) (\<lambda>v. Ok (f64_of_i64 env (i32_as_i64 v)))"
| "extract_f64 env _ r = Err ColumnTypeMismatch"

fun extract_duration_micros :: "Arr \<Rightarrow> nat \<Rightarrow> (ExprError, i64) result" where
  "extract_duration_micros (Int64Array xs) r = cell_value xs 0 r"
| "extract_duration_micros (Int32Array xs) r = rbind (cell_value xs 0 r) (\<lambda>v. Ok (i32_as_i64 v))"
| "extract_duration_micros _ r = Err ColumnTypeMismatch"

definition unless_null :: "Arr \<Rightarrow> nat \<Rightarrow> (ExprError, 'a) result \<Rightarrow> (ExprError, 'a option) result" where
  "unless_null a r v =
     (if data_type a = Null then Ok None
      else rbind (is_null a r) (\<lambda>n. if n then Ok None else rbind v (\<lambda>x. Ok (Some x))))"

fun text_cell :: "Arr \<Rightarrow> nat \<Rightarrow> (ExprError, bytes) result" where
  "text_cell (StringArray xs) r = cell_value xs [] r"
| "text_cell (StringViewArray xs) r = cell_value xs [] r"
| "text_cell (LargeStringArray xs) r = cell_value xs [] r"
| "text_cell _ r = Err ColumnTypeMismatch"

definition extract_string :: "Arr \<Rightarrow> nat \<Rightarrow> (ExprError, bytes option) result" where
  "extract_string a r = unless_null a r (text_cell a r)"

text \<open>Integers and booleans as \<open>to_string\<close> prints them.\<close>

definition ascii :: "string \<Rightarrow> bytes" where
  "ascii s = map of_char s"

definition int_to_string :: "int \<Rightarrow> bytes" where
  "int_to_string i = (if i < 0 then 45 # decimal (nat (- i)) else decimal (nat i))"

definition bool_to_string :: "bool \<Rightarrow> bytes" where
  "bool_to_string b = ascii (if b then ''true'' else ''false'')"

text \<open>A cell as text; an array of a type that is not listed gives the debug format of the whole array.\<close>

fun shown_cell :: "ExprEnv \<Rightarrow> Arr \<Rightarrow> nat \<Rightarrow> (ExprError, bytes) result" where
  "shown_cell env (StringArray xs) r = cell_value xs [] r"
| "shown_cell env (StringViewArray xs) r = cell_value xs [] r"
| "shown_cell env (LargeStringArray xs) r = cell_value xs [] r"
| "shown_cell env (Int64Array xs) r = rbind (cell_value xs 0 r) (\<lambda>v. Ok (int_to_string (ival v)))"
| "shown_cell env (Int32Array xs) r = rbind (cell_value xs 0 r) (\<lambda>v. Ok (int_to_string (sint v)))"
| "shown_cell env (Float64Array xs) r = rbind (cell_value xs 0 r) (\<lambda>v. Ok (f64_to_string env v))"
| "shown_cell env (BooleanArray xs) r = rbind (cell_value xs False r) (\<lambda>v. Ok (bool_to_string v))"
| "shown_cell env a r = Ok (debug_array env a)"

definition extract_string_any :: "ExprEnv \<Rightarrow> Arr \<Rightarrow> nat \<Rightarrow> (ExprError, bytes option) result" where
  "extract_string_any env a r = unless_null a r (shown_cell env a r)"

definition int_cell :: "Arr \<Rightarrow> nat \<Rightarrow> (ExprError, i64) result" where
  "int_cell a r =
     (case a of
        Int64Array xs \<Rightarrow> cell_value xs 0 r
      | Int32Array xs \<Rightarrow> rbind (cell_value xs 0 r) (\<lambda>v. Ok (i32_as_i64 v))
      | TimestampArray unit _ xs \<Rightarrow> if unit = Microsecond then cell_value xs 0 r else Err ColumnTypeMismatch
      | _ \<Rightarrow> Err ColumnTypeMismatch)"

definition extract_i64 :: "Arr \<Rightarrow> nat \<Rightarrow> (ExprError, i64 option) result" where
  "extract_i64 a r = unless_null a r (int_cell a r)"

definition extract_f64_opt :: "ExprEnv \<Rightarrow> Arr \<Rightarrow> nat \<Rightarrow> (ExprError, u64 option) result" where
  "extract_f64_opt env a r = unless_null a r (extract_f64 env a r)"

definition parse_timestamp :: "ExprEnv \<Rightarrow> bytes \<Rightarrow> (ExprError, i64) result" where
  "parse_timestamp env s =
     (case parse_rfc3339 env s of
        Some t \<Rightarrow> Ok t
      | None \<Rightarrow> (case parse_datetime env s of
          Some t \<Rightarrow> Ok t
        | None \<Rightarrow> ok_or InvalidLiteral (parse_date env s)))"

definition micros_cell :: "ExprEnv \<Rightarrow> Arr \<Rightarrow> nat \<Rightarrow> (ExprError, i64) result" where
  "micros_cell env a r =
     (case a of
        TimestampArray unit _ xs \<Rightarrow> rbind (cell_value xs 0 r) (\<lambda>v. Ok
          (case unit of
             Microsecond \<Rightarrow> v
           | Millisecond \<Rightarrow> i64_saturate (ival v * 1000)
           | Second \<Rightarrow> i64_saturate (ival v * 1000000)
           | Nanosecond \<Rightarrow> of_ival (ival v sdiv 1000)))
      | Date32Array xs \<Rightarrow> rbind (cell_value xs 0 r) (\<lambda>v. Ok (i64_saturate (sint v * 86400000000)))
      | Int64Array xs \<Rightarrow> cell_value xs 0 r
      | StringArray xs \<Rightarrow> rbind (cell_value xs [] r) (parse_timestamp env)
      | _ \<Rightarrow> Err ColumnTypeMismatch)"

definition extract_timestamp_micros :: "ExprEnv \<Rightarrow> Arr \<Rightarrow> nat \<Rightarrow> (ExprError, i64 option) result" where
  "extract_timestamp_micros env a r = unless_null a r (micros_cell env a r)"

section \<open>Reading within the bounds\<close>

lemma cell_value_Ok: "r < length xs \<Longrightarrow> cell_value xs d r \<noteq> Panic"
  by (simp add: cell_value_def)

lemma is_null_Ok: "r < arr_len a \<Longrightarrow> is_null a r \<noteq> Panic"
  by (simp add: is_null_def)

lemma unless_null_Panic: "r < arr_len a \<Longrightarrow> unless_null a r v = Panic \<Longrightarrow> v = Panic"
  by (auto simp: unless_null_def rbind_Panic is_null_def split: if_splits)

lemma cells_no_panic:
  assumes "r < arr_len a"
  shows "text_cell a r \<noteq> Panic" "shown_cell env a r \<noteq> Panic" "int_cell a r \<noteq> Panic" "micros_cell env a r \<noteq> Panic"
    "extract_f64 env a r \<noteq> Panic" "extract_duration_micros a r \<noteq> Panic"
  using assms by (cases a; simp add: rbind_Panic cell_value_Ok int_cell_def micros_cell_def parse_timestamp_def
      ok_or_no_Panic split: option.splits)+

lemma extract_no_panic:
  assumes "r < arr_len a"
  shows "extract_string a r \<noteq> Panic" "extract_string_any env a r \<noteq> Panic" "extract_i64 a r \<noteq> Panic"
    "extract_f64_opt env a r \<noteq> Panic" "extract_timestamp_micros env a r \<noteq> Panic"
  using unless_null_Panic [OF assms] cells_no_panic [OF assms]
  unfolding extract_string_def extract_string_any_def extract_i64_def extract_f64_opt_def extract_timestamp_micros_def
  by blast+

section \<open>Selections of rows\<close>

definition pick :: "nat list \<Rightarrow> 'a list \<Rightarrow> 'a list" where
  "pick idx xs = map (\<lambda>i. xs ! i) idx"

fun arr_take :: "nat list \<Rightarrow> Arr \<Rightarrow> Arr" where
  "arr_take idx (Int64Array xs) = Int64Array (pick idx xs)"
| "arr_take idx (Int32Array xs) = Int32Array (pick idx xs)"
| "arr_take idx (Float64Array xs) = Float64Array (pick idx xs)"
| "arr_take idx (StringArray xs) = StringArray (pick idx xs)"
| "arr_take idx (LargeStringArray xs) = LargeStringArray (pick idx xs)"
| "arr_take idx (StringViewArray xs) = StringViewArray (pick idx xs)"
| "arr_take idx (BooleanArray xs) = BooleanArray (pick idx xs)"
| "arr_take idx (Date32Array xs) = Date32Array (pick idx xs)"
| "arr_take idx (TimestampArray u tz xs) = TimestampArray u tz (pick idx xs)"
| "arr_take idx (NullArray n) = NullArray (length idx)"
| "arr_take idx (OtherArray t ns) = OtherArray t (pick idx ns)"

definition batch_take :: "nat list \<Rightarrow> RecordBatch \<Rightarrow> RecordBatch" where
  "batch_take idx b = \<lparr>num_rows = length idx, columns = map (arr_take idx) (columns b)\<rparr>"

definition rows_of :: "nat list \<Rightarrow> RecordBatch \<Rightarrow> bool" where
  "rows_of idx b \<longleftrightarrow> (\<forall>i \<in> set idx. i < num_rows b)"

lemma length_pick [simp]: "length (pick idx xs) = length idx"
  by (simp add: pick_def)

lemma nth_pick [simp]: "j < length idx \<Longrightarrow> pick idx xs ! j = xs ! (idx ! j)"
  by (simp add: pick_def)

lemma pick_map: "\<forall>i \<in> set idx. i < length xs \<Longrightarrow> pick idx (map f xs) = map f (pick idx xs)"
  by (simp add: pick_def)

lemma pick_replicate [simp]: "\<forall>i \<in> set idx. i < n \<Longrightarrow> pick idx (replicate n x) = replicate (length idx) x"
  by (induction idx) (auto simp: pick_def)

lemma pick_map2:
  "\<forall>i \<in> set idx. i < length xs \<Longrightarrow> length xs = length ys \<Longrightarrow> pick idx (map2 f xs ys) = map2 f (pick idx xs) (pick idx ys)"
  by (intro nth_equalityI) (auto simp: pick_def)

lemma data_type_take [simp]: "data_type (arr_take idx a) = data_type a"
  by (cases a) auto

lemma arr_len_take [simp]: "arr_len (arr_take idx a) = length idx"
  by (cases a) auto

lemma null_cell_take [simp]: "j < length idx \<Longrightarrow> null_cell (arr_take idx a) j = null_cell a (idx ! j)"
  by (cases a) auto

lemma is_null_take:
  "j < length idx \<Longrightarrow> idx ! j < arr_len a \<Longrightarrow> is_null (arr_take idx a) j = is_null a (idx ! j)"
  by (simp add: is_null_def)

lemma cell_value_pick:
  "j < length idx \<Longrightarrow> idx ! j < length xs \<Longrightarrow> cell_value (pick idx xs) d j = cell_value xs d (idx ! j)"
  by (simp add: cell_value_def)

lemma unless_null_take:
  "j < length idx \<Longrightarrow> idx ! j < arr_len a \<Longrightarrow> unless_null (arr_take idx a) j v = unless_null a (idx ! j) v"
  by (simp add: unless_null_def is_null_take)

lemma cell_take:
  assumes "j < length idx" and "idx ! j < arr_len a"
  shows "text_cell (arr_take idx a) j = text_cell a (idx ! j)"
    and "int_cell (arr_take idx a) j = int_cell a (idx ! j)"
    and "micros_cell env (arr_take idx a) j = micros_cell env a (idx ! j)"
    and "extract_f64 env (arr_take idx a) j = extract_f64 env a (idx ! j)"
    and "extract_duration_micros (arr_take idx a) j = extract_duration_micros a (idx ! j)"
  using assms by (cases a; simp add: cell_value_pick int_cell_def micros_cell_def)+

text \<open>The types whose cells are printed one by one.\<close>

definition shown_types :: "DataType set" where
  "shown_types = {Int64, Int32, Float64, Utf8, LargeUtf8, Utf8View, Boolean, Null}"

lemma shown_take:
  assumes "j < length idx" and "idx ! j < arr_len a" and "data_type a \<in> shown_types"
  shows "extract_string_any env (arr_take idx a) j = extract_string_any env a (idx ! j)"
  using assms by (cases a) (simp_all add: extract_string_any_def unless_null_def is_null_def cell_value_def shown_types_def)

lemma extract_take:
  assumes "j < length idx" and "idx ! j < arr_len a"
  shows "extract_string (arr_take idx a) j = extract_string a (idx ! j)"
    and "extract_i64 (arr_take idx a) j = extract_i64 a (idx ! j)"
    and "extract_f64_opt env (arr_take idx a) j = extract_f64_opt env a (idx ! j)"
    and "extract_timestamp_micros env (arr_take idx a) j = extract_timestamp_micros env a (idx ! j)"
  using unless_null_take [OF assms] cell_take [OF assms]
  by (simp_all add: extract_string_def extract_i64_def extract_f64_opt_def extract_timestamp_micros_def)

lemma rmap_rows:
  assumes "rmap g [0..<n] = Ok vs" and "\<And>j. j < length idx \<Longrightarrow> idx ! j < n \<Longrightarrow> g' j = g (idx ! j)"
    and "\<forall>i \<in> set idx. i < n"
  shows "rmap g' [0..<length idx] = Ok (pick idx vs)"
proof -
  have vs: "length vs = n" "\<And>i. i < n \<Longrightarrow> g i = Ok (vs ! i)"
    using assms(1) by (auto simp: rmap_Ok list_all2_conv_all_nth)
  show ?thesis using assms(2,3) vs by (auto simp: rmap_Ok list_all2_conv_all_nth)
qed


end
