(* ===== verification/ScalarFunctions.thy ===== *)
theory ScalarFunctions
  imports Arrays
begin

text \<open>
  The scalar functions of \<open>eval_scalar_udf\<close> in \<open>rockstream-ops/src/expr.rs\<close>, one definition per function,
  over the arrays of their arguments. \<open>n\<close> is the number of rows of the batch and \<open>rs\<close> are the results of
  evaluating the arguments; a function looks at the results in the order in which the code evaluates
  them, so the first failure is the same.

  Text is handled character by character, a character being its UTF-8 bytes. The functions of other
  packages (regular expressions, the calendar, formatting of times) come from the environment.
\<close>

section \<open>Text\<close>

text \<open>The characters of a text: a leading byte with the continuation bytes that follow it.\<close>

function chars :: "bytes \<Rightarrow> bytes list" where
  "chars [] = []"
| "chars (b # bs) = (b # takeWhile continuation bs) # chars (dropWhile continuation bs)"
  by pat_completeness auto

termination
  by (relation "measure length") (auto simp: length_dropWhile_le less_Suc_eq_le)

lemma concat_chars [simp]: "concat (chars s) = s"
  by (induction s rule: chars.induct) simp_all

definition is_whitespace :: "bytes \<Rightarrow> bool" where
  "is_whitespace c \<longleftrightarrow>
     c \<in> {[9], [10], [11], [12], [13], [32], [0xC2, 0x85], [0xC2, 0xA0], [0xE1, 0x9A, 0x80], [0xE2, 0x80, 0xA8],
          [0xE2, 0x80, 0xA9], [0xE2, 0x80, 0xAF], [0xE2, 0x81, 0x9F], [0xE3, 0x80, 0x80]}
     \<or> (case c of [x, y, z] \<Rightarrow> x = 0xE2 \<and> y = 0x80 \<and> 0x80 \<le> z \<and> z \<le> 0x8A | _ \<Rightarrow> False)"

definition trim_start :: "(bytes \<Rightarrow> bool) \<Rightarrow> bytes \<Rightarrow> bytes" where
  "trim_start p s = concat (dropWhile p (chars s))"

definition trim_end :: "(bytes \<Rightarrow> bool) \<Rightarrow> bytes \<Rightarrow> bytes" where
  "trim_end p s = concat (rev (dropWhile p (rev (chars s))))"

definition trim_both :: "(bytes \<Rightarrow> bool) \<Rightarrow> bytes \<Rightarrow> bytes" where
  "trim_both p s = concat (rev (dropWhile p (rev (dropWhile p (chars s)))))"

fun find_sub :: "bytes \<Rightarrow> bytes \<Rightarrow> nat option" where
  "find_sub sub [] = (if sub = [] then Some 0 else None)"
| "find_sub sub (b # s) = (if take (length sub) (b # s) = sub then Some 0 else map_option Suc (find_sub sub s))"

lemma find_sub_Some:
  "find_sub sub s = Some i \<Longrightarrow> take (length sub) (drop i s) = sub \<and> i + length sub \<le> length s"
proof (induction s arbitrary: i)
  case (Cons b s)
  show ?case
  proof (cases "take (length sub) (b # s) = sub")
    case True
    then have "length sub \<le> length (b # s)" by (metis length_take min.cobounded1)
    then show ?thesis using True Cons.prems by simp
  next
    case False
    then obtain j where "find_sub sub s = Some j" "i = Suc j" using Cons.prems by auto
    then show ?thesis using Cons.IH [of j] by simp
  qed
qed (auto split: if_splits)

text \<open>\<open>split\<close> of the standard library; an empty separator splits at every character boundary.\<close>

function split_text :: "bytes \<Rightarrow> bytes \<Rightarrow> bytes list" where
  "split_text sep s =
     (if sep = [] then [] # chars s @ [[]]
      else case find_sub sep s of
        None \<Rightarrow> [s]
      | Some i \<Rightarrow> take i s # split_text sep (drop (i + length sep) s))"
  by pat_completeness auto

termination
proof (relation "measure (\<lambda>(sep, s). length s)")
  show "((sep, drop (i + length sep) s), sep, s) \<in> measure (\<lambda>(sep, s). length s)"
    if "sep \<noteq> []" "find_sub sep s = Some i" for sep s i
  proof -
    have "0 < length sep" "i + length sep \<le> length s" using that find_sub_Some by auto
    then show ?thesis by (simp del: length_greater_0_conv)
  qed
qed simp

declare split_text.simps [simp del]

fun join :: "bytes \<Rightarrow> bytes list \<Rightarrow> bytes" where
  "join sep [] = []"
| "join sep [x] = x"
| "join sep (x # y # ys) = x @ sep @ join sep (y # ys)"

definition str_replace :: "bytes \<Rightarrow> bytes \<Rightarrow> bytes \<Rightarrow> bytes" where
  "str_replace s from to = join to (split_text from s)"

definition char_count :: "bytes \<Rightarrow> i64" where
  "char_count s = of_ival (int (length (chars s)))"

definition chars_from :: "bytes \<Rightarrow> (int \<Rightarrow> bool) \<Rightarrow> bytes" where
  "chars_from s keep = concat (map snd (filter (\<lambda>(i, c). keep (int i + 1)) (enumerate 0 (chars s))))"

definition substring :: "bytes \<Rightarrow> i64 \<Rightarrow> i64 option \<Rightarrow> (ExprError, bytes) result" where
  "substring s start limit =
     (case limit of
        Some c \<Rightarrow>
          if ival c < 0 then Err InvalidLiteral
          else Ok (chars_from s (\<lambda>i. ival start \<le> i \<and> i < ival (i64_saturate (ival start + ival c))))
      | None \<Rightarrow> Ok (chars_from s (\<lambda>i. ival start \<le> i)))"

definition padding :: "bytes \<Rightarrow> nat \<Rightarrow> bytes" where
  "padding pad k = concat (map (\<lambda>i. chars pad ! (i mod length (chars pad))) [0..<k])"

definition pad_text :: "(bytes \<Rightarrow> bytes \<Rightarrow> bytes) \<Rightarrow> bytes \<Rightarrow> i64 \<Rightarrow> bytes \<Rightarrow> bytes" where
  "pad_text put s len pad =
     (if ival len \<le> 0 then []
      else if pad = [] \<or> nat (ival len) \<le> length (chars s) then concat (take (nat (ival len)) (chars s))
      else put (padding pad (nat (ival len) - length (chars s))) s)"

definition split_part :: "bytes \<Rightarrow> bytes \<Rightarrow> i64 \<Rightarrow> bytes" where
  "split_part s sep idx =
     (if ival idx < 1 then []
      else if sep = [] then (if idx = 1 then s else [])
      else if nat (ival idx - 1) < length (split_text sep s) then split_text sep s ! nat (ival idx - 1)
      else [])"

definition strpos :: "bytes \<Rightarrow> bytes \<Rightarrow> i64" where
  "strpos s sub =
     (if sub = [] then 1
      else case find_sub sub s of
        Some i \<Rightarrow> of_ival (int (length (chars (take i s))) + 1)
      | None \<Rightarrow> 0)"

section \<open>Times\<close>

definition datetime :: "ExprEnv \<Rightarrow> i64 \<Rightarrow> DateTime" where
  "datetime env ts =
     (case datetime_of_micros env ts of
        Some d \<Rightarrow> d
      | None \<Rightarrow>
          (case datetime_of_secs env (of_ival (ival ts sdiv 1000000)) (nat \<bar>ival ts smod 1000000\<bar> * 1000) of
             Some d \<Rightarrow> d
           | None \<Rightarrow> datetime_default env))"

definition is_name :: "bytes \<Rightarrow> string list \<Rightarrow> bool" where
  "is_name s names \<longleftrightarrow> s \<in> set (map ascii names)"

definition date_of :: "DateTime \<Rightarrow> int \<times> nat \<times> nat" where
  "date_of d = (year d, month d, day d)"

definition date_trunc :: "ExprEnv \<Rightarrow> bytes \<Rightarrow> i64 \<Rightarrow> (ExprError, i64) result" where
  "date_trunc env unit ts =
     (let d = datetime env ts; at = civil_micros env (date_of d); keep = (\<lambda>t. Ok (case t of Some v \<Rightarrow> v | None \<Rightarrow> ts)) in
      if is_name unit [''year'', ''years''] then keep (civil_micros env (year d, 1, 1) 0 0 0 0)
      else if is_name unit [''quarter''] then
        (if month d = 0 then Panic else keep (civil_micros env (year d, (month d - 1) div 3 * 3 + 1, 1) 0 0 0 0))
      else if is_name unit [''month'', ''months''] then keep (civil_micros env (year d, month d, 1) 0 0 0 0)
      else if is_name unit [''week'', ''weeks''] then
        (case minus_days env (date_of d) (weekday d) of
           None \<Rightarrow> Panic
         | Some monday \<Rightarrow> keep (civil_micros env monday 0 0 0 0))
      else if is_name unit [''day'', ''days''] then keep (at 0 0 0 0)
      else if is_name unit [''hour'', ''hours''] then keep (at (hour d) 0 0 0)
      else if is_name unit [''minute'', ''minutes''] then keep (at (hour d) (minute d) 0 0)
      else if is_name unit [''second'', ''seconds''] then keep (at (hour d) (minute d) (second d) 0)
      else if is_name unit [''millisecond'', ''milliseconds''] then
        keep (at (hour d) (minute d) (second d) (nanosecond d div 1000000 * 1000))
      else if is_name unit [''microsecond'', ''microseconds''] then
        keep (at (hour d) (minute d) (second d) (nanosecond d div 1000))
      else keep (at 0 0 0 0))"

definition f64_int :: "ExprEnv \<Rightarrow> int \<Rightarrow> u64" where
  "f64_int env i = f64_of_i64 env (of_ival i)"

definition date_part :: "ExprEnv \<Rightarrow> bytes \<Rightarrow> i64 \<Rightarrow> (ExprError, u64) result" where
  "date_part env field ts =
     (let d = datetime env ts; num = (\<lambda>k. Ok (f64_int env (int k)));
          frac = (\<lambda>k m. Ok (f64_add env
            (if k = 1 then f64_int env (int (second d)) else f64_mul env (f64_int env (int (second d))) (f64_int env k))
            (f64_div env (f64_int env (int (nanosecond d))) (f64_int env m)))) in
      if is_name field [''year'', ''years''] then Ok (f64_int env (year d))
      else if is_name field [''quarter''] then (if month d = 0 then Panic else num ((month d - 1) div 3 + 1))
      else if is_name field [''month'', ''months''] then num (month d)
      else if is_name field [''week'', ''weeks''] then num (iso_week d)
      else if is_name field [''day'', ''days''] then num (day d)
      else if is_name field [''dow'', ''dayofweek''] then num ((weekday d + 1) mod 7)
      else if is_name field [''isodow''] then num (weekday d + 1)
      else if is_name field [''doy'', ''dayofyear''] then num (ordinal d)
      else if is_name field [''hour'', ''hours''] then num (hour d)
      else if is_name field [''minute'', ''minutes''] then num (minute d)
      else if is_name field [''second'', ''seconds''] then frac 1 1000000000
      else if is_name field [''millisecond'', ''milliseconds''] then frac 1000 1000000
      else if is_name field [''microsecond'', ''microseconds''] then frac 1000000 1000
      else if is_name field [''epoch''] then Ok (f64_div env (f64_of_i64 env ts) (f64_int env 1000000))
      else Ok 0)"

text \<open>The rewriting of a PostgreSQL time format into a chrono format, replacement by replacement.\<close>

definition pg_formats :: "(string \<times> string) list" where
  "pg_formats = [(''YYYY'', ''%Y''), (''yyyy'', ''%Y''), (''YY'', ''%y''), (''yy'', ''%y''), (''MM'', ''%m''),
     (''DD'', ''%d''), (''dd'', ''%d''), (''HH24'', ''%H''), (''hh24'', ''%H''), (''HH12'', ''%I''), (''hh12'', ''%I''),
     (''HH'', ''%H''), (''hh'', ''%H''), (''MI'', ''%M''), (''mi'', ''%M''), (''SS'', ''%S''), (''ss'', ''%S''),
     (''MS'', ''%3f''), (''ms'', ''%3f''), (''US'', ''%6f''), (''us'', ''%6f'')]"

definition format_pg_to_chrono :: "bytes \<Rightarrow> bytes" where
  "format_pg_to_chrono f = foldl (\<lambda>s (from, to). str_replace s (ascii from) (ascii to)) f pg_formats"

definition to_char :: "ExprEnv \<Rightarrow> i64 \<Rightarrow> bytes \<Rightarrow> (ExprError, bytes) result" where
  "to_char env ts fmt =
     (case chrono_format env (datetime env ts) (format_pg_to_chrono fmt) of Some s \<Rightarrow> Ok s | None \<Rightarrow> Panic)"

definition two_digits :: "int \<Rightarrow> bytes" where
  "two_digits i = (if i < 10 then 48 # decimal (nat i) else decimal (nat i))"

definition age :: "i64 \<Rightarrow> i64 \<Rightarrow> (ExprError, bytes) result" where
  "age ts1 ts2 =
     (case i64_checked_sub ts1 ts2 of
        None \<Rightarrow> Panic
      | Some diff \<Rightarrow>
          let total_secs = ival diff sdiv 1000000;
              days = total_secs sdiv 86400;
              rem_secs = \<bar>total_secs smod 86400\<bar>;
              clock = two_digits (rem_secs div 3600) @ ascii '':'' @ two_digits (rem_secs mod 3600 div 60)
                @ ascii '':'' @ two_digits (rem_secs mod 60)
          in Ok (if days \<noteq> 0 then int_to_string days @ ascii '' days '' @ clock else clock))"

section \<open>Columns built row by row\<close>

definition text_rows :: "nat \<Rightarrow> (nat \<Rightarrow> (ExprError, bytes option) result) \<Rightarrow> (ExprError, Arr) result" where
  "text_rows n row = rbind (rmap row [0..<n]) (\<lambda>vs. Ok (StringArray vs))"

definition int_rows :: "nat \<Rightarrow> (nat \<Rightarrow> (ExprError, i64 option) result) \<Rightarrow> (ExprError, Arr) result" where
  "int_rows n row = rbind (rmap row [0..<n]) (\<lambda>vs. Ok (Int64Array vs))"

definition float_rows :: "nat \<Rightarrow> (nat \<Rightarrow> (ExprError, u64 option) result) \<Rightarrow> (ExprError, Arr) result" where
  "float_rows n row = rbind (rmap row [0..<n]) (\<lambda>vs. Ok (Float64Array vs))"

definition bool_rows :: "nat \<Rightarrow> (nat \<Rightarrow> (ExprError, bool option) result) \<Rightarrow> (ExprError, Arr) result" where
  "bool_rows n row = rbind (rmap row [0..<n]) (\<lambda>vs. Ok (BooleanArray vs))"

definition date_rows :: "nat \<Rightarrow> (nat \<Rightarrow> (ExprError, u32 option) result) \<Rightarrow> (ExprError, Arr) result" where
  "date_rows n row = rbind (rmap row [0..<n]) (\<lambda>vs. Ok (Date32Array vs))"

definition micros_rows :: "nat \<Rightarrow> (nat \<Rightarrow> (ExprError, i64 option) result) \<Rightarrow> (ExprError, Arr) result" where
  "micros_rows n row = rbind (rmap row [0..<n]) (\<lambda>vs. Ok (TimestampArray Microsecond None vs))"

text \<open>
  The arguments of a call. A missing argument is an error when the call needs it; \<open>arg_opt\<close> is one that
  may be absent.
\<close>

type_synonym arg_results = "(ExprError, Arr) result list"

definition arg :: "arg_results \<Rightarrow> nat \<Rightarrow> (ExprError, Arr) result" where
  "arg rs i = (if i < length rs then rs ! i else Err ExprTypeMismatch)"

definition arg_opt :: "arg_results \<Rightarrow> nat \<Rightarrow> (ExprError, Arr option) result" where
  "arg_opt rs i = (if i < length rs then rbind (rs ! i) (\<lambda>a. Ok (Some a)) else Ok None)"

text \<open>Reading a row: an absent optional argument is \<open>None\<close>, a null one is \<open>Some None\<close>.\<close>

definition extract_opt ::
  "(Arr \<Rightarrow> nat \<Rightarrow> (ExprError, 'a option) result) \<Rightarrow> Arr option \<Rightarrow> nat \<Rightarrow> (ExprError, 'a option option) result" where
  "extract_opt ex a r = (case a of None \<Rightarrow> Ok None | Some c \<Rightarrow> rbind (ex c r) (\<lambda>v. Ok (Some v)))"

definition lift1 :: "('a \<Rightarrow> (ExprError, 'c) result) \<Rightarrow> 'a option \<Rightarrow> (ExprError, 'c option) result" where
  "lift1 f x = (case x of None \<Rightarrow> Ok None | Some u \<Rightarrow> rbind (f u) (\<lambda>v. Ok (Some v)))"

definition lift2 :: "('a \<Rightarrow> 'b \<Rightarrow> (ExprError, 'c) result) \<Rightarrow> 'a option \<Rightarrow> 'b option \<Rightarrow> (ExprError, 'c option) result" where
  "lift2 f x y = (case x of None \<Rightarrow> Ok None | Some u \<Rightarrow> lift1 (f u) y)"

definition lift3 ::
  "('a \<Rightarrow> 'b \<Rightarrow> 'c \<Rightarrow> (ExprError, 'd) result) \<Rightarrow> 'a option \<Rightarrow> 'b option \<Rightarrow> 'c option \<Rightarrow> (ExprError, 'd option) result" where
  "lift3 f x y z = (case x of None \<Rightarrow> Ok None | Some u \<Rightarrow> lift2 (f u) y z)"

text \<open>The value of an optional argument that is present and not null, for functions that have a default.\<close>

definition opt_value :: "'a option option \<Rightarrow> 'a option option" where
  "opt_value x = (case x of None \<Rightarrow> Some None | Some None \<Rightarrow> None | Some (Some v) \<Rightarrow> Some (Some v))"

definition row1 ::
  "(Arr \<Rightarrow> nat \<Rightarrow> (ExprError, 'a option) result) \<Rightarrow> ('a \<Rightarrow> (ExprError, 'c) result) \<Rightarrow> Arr \<Rightarrow> nat \<Rightarrow>
     (ExprError, 'c option) result" where
  "row1 ex f a r = rbind (ex a r) (lift1 f)"

definition row2 ::
  "(Arr \<Rightarrow> nat \<Rightarrow> (ExprError, 'a option) result) \<Rightarrow> (Arr \<Rightarrow> nat \<Rightarrow> (ExprError, 'b option) result) \<Rightarrow>
     ('a \<Rightarrow> 'b \<Rightarrow> (ExprError, 'c) result) \<Rightarrow> Arr \<Rightarrow> Arr \<Rightarrow> nat \<Rightarrow> (ExprError, 'c option) result" where
  "row2 ex1 ex2 f a b r = rbind (ex1 a r) (\<lambda>x. rbind (ex2 b r) (\<lambda>y. lift2 f x y))"

definition row3 ::
  "(Arr \<Rightarrow> nat \<Rightarrow> (ExprError, 'a option) result) \<Rightarrow> (Arr \<Rightarrow> nat \<Rightarrow> (ExprError, 'b option) result) \<Rightarrow>
     (Arr \<Rightarrow> nat \<Rightarrow> (ExprError, 'c option) result) \<Rightarrow> ('a \<Rightarrow> 'b \<Rightarrow> 'c \<Rightarrow> (ExprError, 'd) result) \<Rightarrow>
     Arr \<Rightarrow> Arr \<Rightarrow> Arr \<Rightarrow> nat \<Rightarrow> (ExprError, 'd option) result" where
  "row3 ex1 ex2 ex3 f a b c r =
     rbind (ex1 a r) (\<lambda>x. rbind (ex2 b r) (\<lambda>y. rbind (ex3 c r) (\<lambda>z. lift3 f x y z)))"

section \<open>The functions\<close>

definition udf_cast_int64 :: "ExprEnv \<Rightarrow> arg_results \<Rightarrow> (ExprError, Arr) result" where
  "udf_cast_int64 env rs = rbind (arg rs 0) (\<lambda>a. ok_or ArrowError (cast_kernel env a))"

definition udf_upper :: "ExprEnv \<Rightarrow> nat \<Rightarrow> arg_results \<Rightarrow> (ExprError, Arr) result" where
  "udf_upper env n rs =
     rbind (arg rs 0) (\<lambda>a. text_rows n (row1 extract_string (\<lambda>s. Ok (to_uppercase env s)) a))"

definition udf_lower :: "ExprEnv \<Rightarrow> nat \<Rightarrow> arg_results \<Rightarrow> (ExprError, Arr) result" where
  "udf_lower env n rs =
     rbind (arg rs 0) (\<lambda>a. text_rows n (row1 extract_string (\<lambda>s. Ok (to_lowercase env s)) a))"

definition udf_length :: "nat \<Rightarrow> arg_results \<Rightarrow> (ExprError, Arr) result" where
  "udf_length n rs = rbind (arg rs 0) (\<lambda>a. int_rows n (row1 extract_string (\<lambda>s. Ok (char_count s)) a))"

definition udf_substring :: "nat \<Rightarrow> arg_results \<Rightarrow> (ExprError, Arr) result" where
  "udf_substring n rs =
     rbind (arg rs 0) (\<lambda>a. rbind (arg rs 1) (\<lambda>b. rbind (arg_opt rs 2) (\<lambda>c.
       text_rows n (\<lambda>r.
         rbind (extract_string a r) (\<lambda>s. rbind (extract_i64 b r) (\<lambda>start. rbind (extract_opt extract_i64 c r) (\<lambda>count.
           lift3 substring s start (opt_value count))))))))"

definition trim_row :: "((bytes \<Rightarrow> bool) \<Rightarrow> bytes \<Rightarrow> bytes) \<Rightarrow> Arr \<Rightarrow> Arr option \<Rightarrow> nat \<Rightarrow> (ExprError, bytes option) result" where
  "trim_row trim a c r =
     rbind (extract_string a r) (\<lambda>s. rbind (extract_opt extract_string c r) (\<lambda>cs.
       lift2 (\<lambda>s cs. Ok (case cs of None \<Rightarrow> trim is_whitespace s | Some t \<Rightarrow> trim (\<lambda>x. x \<in> set (chars t)) s))
         s (opt_value cs)))"

definition udf_trim :: "((bytes \<Rightarrow> bool) \<Rightarrow> bytes \<Rightarrow> bytes) \<Rightarrow> nat \<Rightarrow> arg_results \<Rightarrow> (ExprError, Arr) result" where
  "udf_trim trim n rs = rbind (arg rs 0) (\<lambda>a. rbind (arg_opt rs 1) (\<lambda>c. text_rows n (trim_row trim a c)))"

definition all_args :: "arg_results \<Rightarrow> (ExprError, Arr list) result" where
  "all_args rs = rmap (\<lambda>r. r) rs"

definition shown_parts :: "ExprEnv \<Rightarrow> Arr list \<Rightarrow> nat \<Rightarrow> (ExprError, bytes list) result" where
  "shown_parts env as r =
     rbind (rmap (\<lambda>a. extract_string_any env a r) as) (\<lambda>vs. Ok (map the (filter (\<lambda>v. v \<noteq> None) vs)))"

definition udf_concat :: "ExprEnv \<Rightarrow> nat \<Rightarrow> arg_results \<Rightarrow> (ExprError, Arr) result" where
  "udf_concat env n rs =
     rbind (all_args rs) (\<lambda>as. text_rows n (\<lambda>r. rbind (shown_parts env as r) (\<lambda>ps. Ok (Some (concat ps)))))"

definition udf_concat_ws :: "ExprEnv \<Rightarrow> nat \<Rightarrow> arg_results \<Rightarrow> (ExprError, Arr) result" where
  "udf_concat_ws env n rs =
     rbind (arg rs 0) (\<lambda>sep. rbind (all_args (tl rs)) (\<lambda>as.
       text_rows n (\<lambda>r. rbind (extract_string sep r)
         (lift1 (\<lambda>s. rbind (shown_parts env as r) (\<lambda>ps. Ok (join s ps)))))))"

definition udf_regexp_replace :: "ExprEnv \<Rightarrow> nat \<Rightarrow> arg_results \<Rightarrow> (ExprError, Arr) result" where
  "udf_regexp_replace env n rs =
     rbind (arg rs 0) (\<lambda>a. rbind (arg rs 1) (\<lambda>pat. rbind (arg rs 2) (\<lambda>rep.
       text_rows n (row3 extract_string extract_string extract_string
         (\<lambda>s p t. rbind (ok_or InvalidLiteral (regex_replace env p)) (\<lambda>f. Ok (f s t))) a pat rep))))"

definition udf_replace :: "nat \<Rightarrow> arg_results \<Rightarrow> (ExprError, Arr) result" where
  "udf_replace n rs =
     rbind (arg rs 0) (\<lambda>a. rbind (arg rs 1) (\<lambda>from. rbind (arg rs 2) (\<lambda>to.
       text_rows n (row3 extract_string extract_string extract_string (\<lambda>s f t. Ok (str_replace s f t)) a from to))))"

definition udf_split_part :: "nat \<Rightarrow> arg_results \<Rightarrow> (ExprError, Arr) result" where
  "udf_split_part n rs =
     rbind (arg rs 0) (\<lambda>a. rbind (arg rs 1) (\<lambda>sep. rbind (arg rs 2) (\<lambda>idx.
       text_rows n (row3 extract_string extract_string extract_i64 (\<lambda>s d i. Ok (split_part s d i)) a sep idx))))"

definition pad_row :: "(bytes \<Rightarrow> bytes \<Rightarrow> bytes) \<Rightarrow> Arr \<Rightarrow> Arr \<Rightarrow> Arr option \<Rightarrow> nat \<Rightarrow> (ExprError, bytes option) result" where
  "pad_row put a len pad r =
     rbind (extract_string a r) (\<lambda>s. rbind (extract_i64 len r) (\<lambda>l. rbind (extract_opt extract_string pad r) (\<lambda>p.
       lift3 (\<lambda>s l p. Ok (pad_text put s l (case p of None \<Rightarrow> ascii '' '' | Some q \<Rightarrow> q))) s l (opt_value p))))"

definition udf_pad :: "(bytes \<Rightarrow> bytes \<Rightarrow> bytes) \<Rightarrow> nat \<Rightarrow> arg_results \<Rightarrow> (ExprError, Arr) result" where
  "udf_pad put n rs =
     rbind (arg rs 0) (\<lambda>a. rbind (arg rs 1) (\<lambda>len. rbind (arg_opt rs 2) (\<lambda>pad. text_rows n (pad_row put a len pad))))"

definition udf_strpos :: "nat \<Rightarrow> arg_results \<Rightarrow> (ExprError, Arr) result" where
  "udf_strpos n rs =
     rbind (arg rs 0) (\<lambda>a. rbind (arg rs 1) (\<lambda>sub.
       int_rows n (row2 extract_string extract_string (\<lambda>s t. Ok (strpos s t)) a sub)))"

definition udf_position :: "nat \<Rightarrow> arg_results \<Rightarrow> (ExprError, Arr) result" where
  "udf_position n rs =
     rbind (arg rs 1) (\<lambda>a. rbind (arg rs 0) (\<lambda>sub.
       int_rows n (row2 extract_string extract_string (\<lambda>s t. Ok (strpos s t)) a sub)))"

fun first_some :: "(Arr \<Rightarrow> nat \<Rightarrow> (ExprError, 'a option) result) \<Rightarrow> Arr list \<Rightarrow> nat \<Rightarrow> (ExprError, 'a option) result" where
  "first_some ex [] r = Ok None"
| "first_some ex (a # as) r =
     rbind (ex a r) (\<lambda>v. case v of Some x \<Rightarrow> Ok (Some x) | None \<Rightarrow> first_some ex as r)"

definition extract_bool :: "Arr \<Rightarrow> nat \<Rightarrow> (ExprError, bool option) result" where
  "extract_bool a r =
     rbind (is_null a r) (\<lambda>n. if n then Ok None
       else case a of BooleanArray xs \<Rightarrow> rbind (cell_value xs False r) (\<lambda>v. Ok (Some v)) | _ \<Rightarrow> Ok None)"

definition coalesce_target :: "DataType list \<Rightarrow> DataType" where
  "coalesce_target ts = (case find (\<lambda>t. t \<noteq> Null) ts of Some t \<Rightarrow> t | None \<Rightarrow> Utf8)"

definition udf_coalesce :: "ExprEnv \<Rightarrow> nat \<Rightarrow> arg_results \<Rightarrow> (ExprError, Arr) result" where
  "udf_coalesce env n rs =
     rbind (all_args rs) (\<lambda>as.
       case coalesce_target (map data_type as) of
         Utf8 \<Rightarrow> text_rows n (first_some (extract_string_any env) as)
       | Int64 \<Rightarrow> int_rows n (first_some extract_i64 as)
       | Int32 \<Rightarrow> int_rows n (first_some extract_i64 as)
       | Float64 \<Rightarrow> float_rows n (first_some (extract_f64_opt env) as)
       | Timestamp unit _ \<Rightarrow>
           if unit = Microsecond then micros_rows n (first_some (extract_timestamp_micros env) as)
           else text_rows n (first_some (extract_string_any env) as)
       | Boolean \<Rightarrow> bool_rows n (first_some extract_bool as)
       | _ \<Rightarrow> text_rows n (first_some (extract_string_any env) as))"

definition nullif_row ::
  "(Arr \<Rightarrow> nat \<Rightarrow> (ExprError, 'a option) result) \<Rightarrow> ('a \<Rightarrow> 'a \<Rightarrow> bool) \<Rightarrow> Arr \<Rightarrow> Arr \<Rightarrow> nat \<Rightarrow> (ExprError, 'a option) result" where
  "nullif_row ex same a b r =
     rbind (ex a r) (\<lambda>x. rbind (ex b r) (\<lambda>y.
       Ok (case x of None \<Rightarrow> None
           | Some u \<Rightarrow> (case y of Some v \<Rightarrow> if same u v then None else Some u | None \<Rightarrow> Some u))))"

definition udf_nullif :: "ExprEnv \<Rightarrow> nat \<Rightarrow> arg_results \<Rightarrow> (ExprError, Arr) result" where
  "udf_nullif env n rs =
     rbind (arg rs 0) (\<lambda>a. rbind (arg rs 1) (\<lambda>b.
       case data_type a of
         Utf8 \<Rightarrow> text_rows n (nullif_row extract_string (=) a b)
       | Int64 \<Rightarrow> int_rows n (nullif_row extract_i64 (=) a b)
       | Int32 \<Rightarrow> int_rows n (nullif_row extract_i64 (=) a b)
       | Float64 \<Rightarrow> float_rows n (nullif_row (extract_f64_opt env) (f64_eq env) a b)
       | _ \<Rightarrow> text_rows n (nullif_row (extract_string_any env) (=) a b)))"

definition udf_is_null :: "(bool \<Rightarrow> bool) \<Rightarrow> nat \<Rightarrow> arg_results \<Rightarrow> (ExprError, Arr) result" where
  "udf_is_null f n rs = rbind (arg rs 0) (\<lambda>a. bool_rows n (\<lambda>r. rbind (is_null a r) (\<lambda>v. Ok (Some (f v)))))"

definition distinct_cells :: "ExprEnv \<Rightarrow> Arr \<Rightarrow> Arr \<Rightarrow> nat \<Rightarrow> (ExprError, bool) result" where
  "distinct_cells env a b r =
     rbind (is_null a r) (\<lambda>x. rbind (is_null b r) (\<lambda>y.
       if x \<and> y then Ok False
       else if x \<noteq> y then Ok True
       else rbind (extract_string_any env a r) (\<lambda>s. rbind (extract_string_any env b r) (\<lambda>t. Ok (s \<noteq> t)))))"

definition udf_is_distinct_from :: "(bool \<Rightarrow> bool) \<Rightarrow> ExprEnv \<Rightarrow> nat \<Rightarrow> arg_results \<Rightarrow> (ExprError, Arr) result" where
  "udf_is_distinct_from f env n rs =
     rbind (arg rs 0) (\<lambda>a. rbind (arg rs 1) (\<lambda>b.
       bool_rows n (\<lambda>r. rbind (distinct_cells env a b r) (\<lambda>v. Ok (Some (f v))))))"

definition udf_date_trunc :: "ExprEnv \<Rightarrow> nat \<Rightarrow> arg_results \<Rightarrow> (ExprError, Arr) result" where
  "udf_date_trunc env n rs =
     rbind (arg rs 0) (\<lambda>unit. rbind (arg rs 1) (\<lambda>ts.
       micros_rows n (row2 extract_string (extract_timestamp_micros env)
         (\<lambda>u t. date_trunc env (to_lowercase env u) t) unit ts)))"

definition udf_date_part :: "ExprEnv \<Rightarrow> nat \<Rightarrow> arg_results \<Rightarrow> (ExprError, Arr) result" where
  "udf_date_part env n rs =
     rbind (arg rs 0) (\<lambda>field. rbind (arg rs 1) (\<lambda>ts.
       float_rows n (row2 extract_string (extract_timestamp_micros env)
         (\<lambda>f t. date_part env (to_lowercase env f) t) field ts)))"

definition udf_to_char :: "ExprEnv \<Rightarrow> nat \<Rightarrow> arg_results \<Rightarrow> (ExprError, Arr) result" where
  "udf_to_char env n rs =
     rbind (arg rs 0) (\<lambda>ts. rbind (arg rs 1) (\<lambda>fmt.
       text_rows n (row2 (extract_timestamp_micros env) extract_string (to_char env) ts fmt)))"

definition age_row :: "ExprEnv \<Rightarrow> Arr \<Rightarrow> Arr option \<Rightarrow> nat \<Rightarrow> (ExprError, bytes option) result" where
  "age_row env a b r =
     rbind (extract_timestamp_micros env a r) (\<lambda>x.
     rbind (case b of Some c \<Rightarrow> extract_timestamp_micros env c r | None \<Rightarrow> Ok (Some (now_micros env))) (\<lambda>y.
       lift2 age x y))"

definition udf_age :: "ExprEnv \<Rightarrow> nat \<Rightarrow> arg_results \<Rightarrow> (ExprError, Arr) result" where
  "udf_age env n rs = rbind (arg rs 0) (\<lambda>a. rbind (arg_opt rs 1) (\<lambda>b. text_rows n (age_row env a b)))"

definition udf_now :: "ExprEnv \<Rightarrow> nat \<Rightarrow> (ExprError, Arr) result" where
  "udf_now env n = micros_rows n (\<lambda>_. Ok (Some (now_micros env)))"

definition udf_current_date :: "ExprEnv \<Rightarrow> nat \<Rightarrow> (ExprError, Arr) result" where
  "udf_current_date env n = date_rows n (\<lambda>_. Ok (Some (word_of_int (ival (now_secs env) sdiv 86400))))"

definition eval_scalar_udf :: "ExprEnv \<Rightarrow> nat \<Rightarrow> string \<Rightarrow> arg_results \<Rightarrow> (ExprError, Arr) result" where
  "eval_scalar_udf env n name rs =
     (if name = ''cast_int64'' then udf_cast_int64 env rs
      else if name = ''upper'' then udf_upper env n rs
      else if name = ''lower'' then udf_lower env n rs
      else if name \<in> {''length'', ''char_length'', ''character_length''} then udf_length n rs
      else if name \<in> {''substring'', ''substr''} then udf_substring n rs
      else if name \<in> {''trim'', ''btrim''} then udf_trim trim_both n rs
      else if name = ''ltrim'' then udf_trim trim_start n rs
      else if name = ''rtrim'' then udf_trim trim_end n rs
      else if name = ''concat'' then udf_concat env n rs
      else if name = ''concat_ws'' then udf_concat_ws env n rs
      else if name = ''regexp_replace'' then udf_regexp_replace env n rs
      else if name = ''replace'' then udf_replace n rs
      else if name = ''split_part'' then udf_split_part n rs
      else if name = ''lpad'' then udf_pad (\<lambda>p s. p @ s) n rs
      else if name = ''rpad'' then udf_pad (\<lambda>p s. s @ p) n rs
      else if name = ''strpos'' then udf_strpos n rs
      else if name = ''position'' then udf_position n rs
      else if name = ''coalesce'' then udf_coalesce env n rs
      else if name = ''nullif'' then udf_nullif env n rs
      else if name = ''is_null'' then udf_is_null (\<lambda>v. v) n rs
      else if name = ''is_not_null'' then udf_is_null Not n rs
      else if name = ''is_distinct_from'' then udf_is_distinct_from (\<lambda>v. v) env n rs
      else if name = ''is_not_distinct_from'' then udf_is_distinct_from Not env n rs
      else if name = ''date_trunc'' then udf_date_trunc env n rs
      else if name \<in> {''date_part'', ''extract''} then udf_date_part env n rs
      else if name = ''to_char'' then udf_to_char env n rs
      else if name = ''age'' then udf_age env n rs
      else if name \<in> {''now'', ''current_timestamp''} then udf_now env n
      else if name = ''current_date'' then udf_current_date env n
      else Err Unimplemented)"

section \<open>Types of the results\<close>

definition is_micros :: "DataType \<Rightarrow> bool" where
  "is_micros t \<longleftrightarrow> (\<exists>tz. t = Timestamp Microsecond tz)"

definition coalesce_type :: "DataType \<Rightarrow> DataType" where
  "coalesce_type t =
     (if t \<in> {Int64, Int32} then Int64 else if t \<in> {Float64, Boolean} then t
      else if is_micros t then Timestamp Microsecond None else Utf8)"

definition nullif_type :: "DataType \<Rightarrow> DataType" where
  "nullif_type t = (if t \<in> {Int64, Int32} then Int64 else if t = Float64 then Float64 else Utf8)"

definition udf_type :: "string \<Rightarrow> DataType list \<Rightarrow> DataType" where
  "udf_type name ts =
     (if name \<in> {''cast_int64'', ''length'', ''char_length'', ''character_length'', ''strpos'', ''position''} then Int64
      else if name = ''coalesce'' then coalesce_type (coalesce_target ts)
      else if name = ''nullif'' then nullif_type (hd ts)
      else if name \<in> {''is_null'', ''is_not_null'', ''is_distinct_from'', ''is_not_distinct_from''} then Boolean
      else if name \<in> {''date_trunc'', ''now'', ''current_timestamp''} then Timestamp Microsecond None
      else if name \<in> {''date_part'', ''extract''} then Float64
      else if name = ''current_date'' then Date32
      else Utf8)"

text \<open>
  The cast kernel gives an integer array of the same length, and the months of chrono start at one.
\<close>

definition env_ok :: "ExprEnv \<Rightarrow> bool" where
  "env_ok env \<longleftrightarrow>
     (\<forall>a c. cast_kernel env a = Some c \<longrightarrow> data_type c = Int64 \<and> arr_len c = arr_len a)
     \<and> (\<forall>ts. 1 \<le> month (datetime env ts))"

definition args_typed :: "nat \<Rightarrow> DataType list \<Rightarrow> arg_results \<Rightarrow> bool" where
  "args_typed n ts rs \<longleftrightarrow> list_all2 (\<lambda>r t. \<forall>x. r = Ok x \<longrightarrow> arr_len x = n \<and> data_type x = t) rs ts"

definition rows_typed :: "nat \<Rightarrow> DataType \<Rightarrow> (ExprError, Arr) result \<Rightarrow> bool" where
  "rows_typed n t res \<longleftrightarrow> (\<forall>a. res = Ok a \<longrightarrow> arr_len a = n \<and> data_type a = t)"

named_theorems typed_rules

lemma rows_typed [typed_rules]:
  "rows_typed n Utf8 (text_rows n f1)" "rows_typed n Int64 (int_rows n f2)" "rows_typed n Float64 (float_rows n f3)"
  "rows_typed n Boolean (bool_rows n f4)" "rows_typed n Date32 (date_rows n f5)"
  "rows_typed n (Timestamp Microsecond None) (micros_rows n f6)"
  by (auto simp: rows_typed_def text_rows_def int_rows_def float_rows_def bool_rows_def date_rows_def micros_rows_def
      rbind_Ok dest!: rmap_length)

lemma rows_typed_bind [typed_rules]: "(\<And>x. r = Ok x \<Longrightarrow> rows_typed n t (f x)) \<Longrightarrow> rows_typed n t (rbind r f)"
  by (cases r) (simp_all add: rows_typed_def)

lemma rows_typed_Err [typed_rules]: "rows_typed n t (Err e)"
  by (simp add: rows_typed_def)

lemma arg_typed: "args_typed n ts rs \<Longrightarrow> arg rs i = Ok a \<Longrightarrow> arr_len a = n \<and> data_type a = ts ! i"
  by (auto simp: args_typed_def arg_def list_all2_conv_all_nth split: if_splits)

lemma all_args_typed:
  "args_typed n ts rs \<Longrightarrow> all_args rs = Ok as \<Longrightarrow> map data_type as = ts \<and> (\<forall>a \<in> set as. arr_len a = n)"
proof (induction rs arbitrary: ts as)
  case (Cons r rs)
  obtain t ts' where ts: "ts = t # ts'" "args_typed n ts' rs" "\<And>x. r = Ok x \<Longrightarrow> arr_len x = n \<and> data_type x = t"
    using Cons.prems(1) by (auto simp: args_typed_def list_all2_Cons1)
  obtain x xs where as: "as = x # xs" "r = Ok x" "all_args rs = Ok xs"
    using Cons.prems(2) by (auto simp: all_args_def rbind_Ok)
  show ?case using Cons.IH [OF ts(2) as(3)] ts(1,3) as(1,2) by simp
qed (simp add: args_typed_def all_args_def)

lemma cast_typed: "env_ok env \<Longrightarrow> args_typed n ts rs \<Longrightarrow> rows_typed n Int64 (udf_cast_int64 env rs)"
  unfolding rows_typed_def udf_cast_int64_def env_ok_def by (auto simp: rbind_Ok dest: arg_typed)

lemma coalesce_typed: "args_typed n ts rs \<Longrightarrow> rows_typed n (coalesce_type (coalesce_target ts)) (udf_coalesce env n rs)"
  unfolding udf_coalesce_def
  by (rule rows_typed_bind) (auto simp: typed_rules coalesce_type_def is_micros_def dest!: all_args_typed
      split: DataType.splits)

lemma nullif_typed: "args_typed n ts rs \<Longrightarrow> rows_typed n (nullif_type (hd ts)) (udf_nullif env n rs)"
  unfolding udf_nullif_def
proof (intro rows_typed_bind)
  fix a b assume "args_typed n ts rs" and "arg rs 0 = Ok a"
  then have "data_type a = hd ts" using arg_typed [of n ts rs 0 a] by (cases rs; cases ts) (auto simp: args_typed_def arg_def)
  then show "rows_typed n (nullif_type (hd ts)) (case data_type a of
         Utf8 \<Rightarrow> text_rows n (nullif_row extract_string (=) a b)
       | Int64 \<Rightarrow> int_rows n (nullif_row extract_i64 (=) a b)
       | Int32 \<Rightarrow> int_rows n (nullif_row extract_i64 (=) a b)
       | Float64 \<Rightarrow> float_rows n (nullif_row (extract_f64_opt env) (f64_eq env) a b)
       | _ \<Rightarrow> text_rows n (nullif_row (extract_string_any env) (=) a b))"
    by (auto simp: typed_rules nullif_type_def split: DataType.splits)
qed

lemma udf_typed:
  "rows_typed n Utf8 (udf_upper env n rs)" "rows_typed n Utf8 (udf_lower env n rs)" "rows_typed n Int64 (udf_length n rs)"
  "rows_typed n Utf8 (udf_substring n rs)" "rows_typed n Utf8 (udf_trim trim n rs)" "rows_typed n Utf8 (udf_concat env n rs)"
  "rows_typed n Utf8 (udf_concat_ws env n rs)" "rows_typed n Utf8 (udf_regexp_replace env n rs)"
  "rows_typed n Utf8 (udf_replace n rs)" "rows_typed n Utf8 (udf_split_part n rs)" "rows_typed n Utf8 (udf_pad put n rs)"
  "rows_typed n Int64 (udf_strpos n rs)" "rows_typed n Int64 (udf_position n rs)" "rows_typed n Boolean (udf_is_null f n rs)"
  "rows_typed n Boolean (udf_is_distinct_from f env n rs)"
  "rows_typed n (Timestamp Microsecond None) (udf_date_trunc env n rs)" "rows_typed n Float64 (udf_date_part env n rs)"
  "rows_typed n Utf8 (udf_to_char env n rs)" "rows_typed n Utf8 (udf_age env n rs)"
  "rows_typed n (Timestamp Microsecond None) (udf_now env n)" "rows_typed n Date32 (udf_current_date env n)"
  unfolding udf_upper_def udf_lower_def udf_length_def udf_substring_def udf_trim_def udf_concat_def udf_concat_ws_def
    udf_regexp_replace_def udf_replace_def udf_split_part_def udf_pad_def udf_strpos_def udf_position_def udf_is_null_def
    udf_is_distinct_from_def udf_date_trunc_def udf_date_part_def udf_to_char_def udf_age_def udf_now_def udf_current_date_def
  by (intro typed_rules)+

theorem scalar_typed:
  assumes "env_ok env" and "args_typed n ts rs"
  shows "rows_typed n (udf_type name ts) (eval_scalar_udf env n name rs)"
  using cast_typed [OF assms] coalesce_typed [OF assms(2), of env] nullif_typed [OF assms(2), of env]
  by (simp add: eval_scalar_udf_def udf_type_def udf_typed rows_typed_Err)

section \<open>Panics\<close>

text \<open>
  Three functions can panic on well-formed columns: \<open>age\<close> when the difference of the times overflows,
  \<open>date_trunc\<close> when a week starts before the first day of the calendar, and \<open>to_char\<close> when chrono rejects
  the format.
\<close>

definition total_udf :: "string \<Rightarrow> bool" where
  "total_udf name \<longleftrightarrow> name \<notin> {''age'', ''date_trunc'', ''to_char''}"

named_theorems total_rules

lemma rows_total [total_rules]:
  assumes "\<And>r. r < n \<Longrightarrow> f r \<noteq> Panic"
  shows "rbind (rmap f [0..<n]) (\<lambda>vs. Ok (mk vs)) \<noteq> Panic"
proof -
  have "rmap f [0..<n] \<noteq> Panic" by (rule rmap_not_Panic) (use assms in simp)
  then show ?thesis by (simp add: rbind_Panic)
qed

lemma bind_total [total_rules]: "r \<noteq> Panic \<Longrightarrow> (\<And>x. r = Ok x \<Longrightarrow> f x \<noteq> Panic) \<Longrightarrow> rbind r f \<noteq> Panic"
  by (cases r) simp_all

lemma lift_total [total_rules]:
  "(\<And>u. f1 u \<noteq> Panic) \<Longrightarrow> lift1 f1 x \<noteq> Panic"
  "(\<And>u v. f2 u v \<noteq> Panic) \<Longrightarrow> lift2 f2 x y \<noteq> Panic"
  "(\<And>u v w. f3 u v w \<noteq> Panic) \<Longrightarrow> lift3 f3 x y z \<noteq> Panic"
  by (auto simp: lift1_def lift2_def lift3_def rbind_Panic split: option.splits)

lemma Ok_total [total_rules]: "Ok x \<noteq> Panic"
  by simp

lemma extract_opt_total:
  "(\<And>a. c = Some a \<Longrightarrow> ex a r \<noteq> Panic) \<Longrightarrow> extract_opt ex c r \<noteq> Panic"
  by (auto simp: extract_opt_def rbind_Panic split: option.splits)

lemma first_some_total: "(\<And>a. a \<in> set as \<Longrightarrow> ex a r \<noteq> Panic) \<Longrightarrow> first_some ex as r \<noteq> Panic"
  by (induction ex as r rule: first_some.induct) (auto simp: rbind_Panic split: option.splits)

lemma extract_bool_total: "r < arr_len a \<Longrightarrow> extract_bool a r \<noteq> Panic"
  by (cases a) (auto simp: extract_bool_def rbind_Panic is_null_def cell_value_def)

lemma shown_parts_total: "(\<And>a. a \<in> set as \<Longrightarrow> r < arr_len a) \<Longrightarrow> shown_parts env as r \<noteq> Panic"
  unfolding shown_parts_def by (intro total_rules rmap_not_Panic extract_no_panic)

lemma substring_total: "substring s start limit \<noteq> Panic"
  by (auto simp: substring_def split: option.splits)

lemma date_part_total: "env_ok env \<Longrightarrow> date_part env field ts \<noteq> Panic"
  unfolding date_part_def Let_def env_ok_def by (auto simp: not_less_eq_eq dest: spec [of _ ts])

lemma distinct_cells_total: "r < arr_len a \<Longrightarrow> r < arr_len b \<Longrightarrow> distinct_cells env a b r \<noteq> Panic"
  by (auto simp: distinct_cells_def rbind_Panic is_null_Ok extract_no_panic split: if_splits)

lemma nullif_row_total: "ex a r \<noteq> Panic \<Longrightarrow> ex b r \<noteq> Panic \<Longrightarrow> nullif_row ex same a b r \<noteq> Panic"
  by (simp add: nullif_row_def rbind_Panic)

definition args_total :: "nat \<Rightarrow> arg_results \<Rightarrow> bool" where
  "args_total n rs \<longleftrightarrow> (\<forall>r \<in> set rs. r \<noteq> Panic \<and> (\<forall>x. r = Ok x \<longrightarrow> arr_len x = n))"

lemma arg_total:
  assumes "args_total n rs"
  shows "arg rs i \<noteq> Panic" "arg_opt rs i \<noteq> Panic" "all_args rs \<noteq> Panic"
    and "arg rs i = Ok a \<Longrightarrow> arr_len a = n" "arg_opt rs i = Ok (Some a) \<Longrightarrow> arr_len a = n"
    and "all_args rs = Ok as \<Longrightarrow> x \<in> set as \<Longrightarrow> arr_len x = n"
proof -
  have at: "rs ! i \<noteq> Panic" "rs ! i = Ok a \<Longrightarrow> arr_len a = n" if "i < length rs"
    using assms nth_mem [OF that] unfolding args_total_def by blast+
  show "arg rs i \<noteq> Panic" "arg_opt rs i \<noteq> Panic" "arg rs i = Ok a \<Longrightarrow> arr_len a = n"
    "arg_opt rs i = Ok (Some a) \<Longrightarrow> arr_len a = n"
    using at by (auto simp: arg_def arg_opt_def rbind_Panic rbind_Ok split: if_splits)
  show "all_args rs \<noteq> Panic"
    unfolding all_args_def by (rule rmap_not_Panic) (use assms in \<open>auto simp: args_total_def\<close>)
  show "all_args rs = Ok as \<Longrightarrow> x \<in> set as \<Longrightarrow> arr_len x = n"
    using assms unfolding all_args_def rmap_Ok args_total_def list_all2_conv_all_nth in_set_conv_nth [of x]
    by (metis nth_mem)
qed

lemma args_total_tl: "args_total n rs \<Longrightarrow> args_total n (tl rs)"
  by (cases rs) (simp_all add: args_total_def)

lemmas builder_defs = text_rows_def int_rows_def float_rows_def bool_rows_def date_rows_def micros_rows_def

lemmas udf_defs = udf_cast_int64_def udf_upper_def udf_lower_def udf_length_def udf_substring_def udf_trim_def udf_concat_def
  udf_concat_ws_def udf_regexp_replace_def udf_replace_def udf_split_part_def udf_pad_def udf_strpos_def udf_position_def
  udf_is_null_def udf_is_distinct_from_def udf_date_trunc_def udf_date_part_def udf_to_char_def udf_age_def udf_now_def
  udf_current_date_def row1_def row2_def row3_def trim_row_def pad_row_def

lemmas cell_total = extract_no_panic is_null_Ok extract_opt_total shown_parts_total substring_total date_part_total
  distinct_cells_total ok_or_no_Panic

lemma udf_total:
  assumes "args_total n rs"
  shows "udf_cast_int64 env rs \<noteq> Panic" "udf_upper env n rs \<noteq> Panic" "udf_lower env n rs \<noteq> Panic"
    "udf_length n rs \<noteq> Panic" "udf_substring n rs \<noteq> Panic" "udf_trim trim n rs \<noteq> Panic" "udf_concat env n rs \<noteq> Panic"
    "udf_concat_ws env n rs \<noteq> Panic" "udf_regexp_replace env n rs \<noteq> Panic" "udf_replace n rs \<noteq> Panic"
    "udf_split_part n rs \<noteq> Panic" "udf_pad put n rs \<noteq> Panic" "udf_strpos n rs \<noteq> Panic" "udf_position n rs \<noteq> Panic"
    "udf_is_null f n rs \<noteq> Panic" "udf_is_distinct_from f env n rs \<noteq> Panic" "env_ok env \<Longrightarrow> udf_date_part env n rs \<noteq> Panic"
    "udf_now env n \<noteq> Panic" "udf_current_date env n \<noteq> Panic"
  unfolding udf_defs builder_defs
  by (intro total_rules cell_total arg_total [OF assms] arg_total(3) [OF args_total_tl [OF assms]];
      (use arg_total(4-6) [OF assms] arg_total(6) [OF args_total_tl [OF assms]] in fastforce)?)+

lemma coalesce_total:
  assumes "args_total n rs"
  shows "udf_coalesce env n rs \<noteq> Panic"
proof -
  have rows: "text_rows n (first_some (extract_string_any env) as) \<noteq> Panic" "int_rows n (first_some extract_i64 as) \<noteq> Panic"
    "float_rows n (first_some (extract_f64_opt env) as) \<noteq> Panic"
    "micros_rows n (first_some (extract_timestamp_micros env) as) \<noteq> Panic" "bool_rows n (first_some extract_bool as) \<noteq> Panic"
    if "all_args rs = Ok as" for as
    unfolding builder_defs
    by (intro total_rules first_some_total; use arg_total(6) [OF assms that] extract_no_panic extract_bool_total in fastforce)+
  show ?thesis
    unfolding udf_coalesce_def
    by (rule bind_total) (use rows arg_total(3) [OF assms] in \<open>auto split: DataType.splits\<close>)
qed

lemma nullif_total:
  assumes "args_total n rs"
  shows "udf_nullif env n rs \<noteq> Panic"
proof -
  have rows: "text_rows n (nullif_row extract_string (=) a b) \<noteq> Panic" "int_rows n (nullif_row extract_i64 (=) a b) \<noteq> Panic"
    "float_rows n (nullif_row (extract_f64_opt env) (f64_eq env) a b) \<noteq> Panic"
    "text_rows n (nullif_row (extract_string_any env) (=) a b) \<noteq> Panic"
    if "arg rs 0 = Ok a" "arg rs 1 = Ok b" for a b
    unfolding builder_defs
    by (intro total_rules nullif_row_total extract_no_panic; use arg_total(4) [OF assms] that in fastforce)+
  show ?thesis
    unfolding udf_nullif_def
    by (intro bind_total) (use rows arg_total(1) [OF assms] in \<open>auto split: DataType.splits\<close>)
qed

theorem scalar_no_panic:
  assumes "env_ok env" and "args_total n rs" and "total_udf name"
  shows "eval_scalar_udf env n name rs \<noteq> Panic"
  using assms(3) udf_total [OF assms(2)] coalesce_total [OF assms(2)] nullif_total [OF assms(2)] assms(1)
  by (simp add: eval_scalar_udf_def total_udf_def)

section \<open>Rows are independent\<close>

text \<open>
  The functions that print cells depend on the row alone when the types are printed cell by cell. The
  debug format of an array of another type depends on all its rows.
\<close>

definition local_udf :: "string \<Rightarrow> DataType list \<Rightarrow> bool" where
  "local_udf name ts \<longleftrightarrow>
     (if name \<in> {''concat'', ''concat_ws'', ''is_distinct_from'', ''is_not_distinct_from''} then set ts \<subseteq> shown_types
      else if name = ''coalesce'' then
        set ts \<subseteq> shown_types \<or> coalesce_target ts \<in> {Int64, Int32, Float64, Boolean} \<or> is_micros (coalesce_target ts)
      else if name = ''nullif'' then set ts \<subseteq> shown_types \<or> hd ts \<in> {Int64, Int32, Float64, Utf8}
      else True)"

text \<open>The cast kernel works element by element.\<close>

definition cast_local :: "ExprEnv \<Rightarrow> nat list \<Rightarrow> bool" where
  "cast_local env idx \<longleftrightarrow> (\<forall>a c. cast_kernel env a = Some c \<longrightarrow> (\<forall>i \<in> set idx. i < arr_len a) \<longrightarrow>
     cast_kernel env (arr_take idx a) = Some (arr_take idx c))"

definition args_taken :: "nat list \<Rightarrow> arg_results \<Rightarrow> arg_results \<Rightarrow> bool" where
  "args_taken idx rs rs' \<longleftrightarrow> list_all2 (\<lambda>r r'. \<forall>x. r = Ok x \<longrightarrow> r' = Ok (arr_take idx x)) rs rs'"

lemma arg_taken:
  assumes "args_taken idx rs rs'"
  shows "arg rs i = Ok a \<Longrightarrow> arg rs' i = Ok (arr_take idx a)"
    and "arg_opt rs i = Ok c \<Longrightarrow> arg_opt rs' i = Ok (map_option (arr_take idx) c)"
    and "all_args rs = Ok as \<Longrightarrow> all_args rs' = Ok (map (arr_take idx) as)"
proof -
  show "arg rs i = Ok a \<Longrightarrow> arg rs' i = Ok (arr_take idx a)"
    "arg_opt rs i = Ok c \<Longrightarrow> arg_opt rs' i = Ok (map_option (arr_take idx) c)"
    using assms by (auto simp: args_taken_def arg_def arg_opt_def list_all2_conv_all_nth rbind_Ok split: if_splits)
  show "all_args rs = Ok as \<Longrightarrow> all_args rs' = Ok (map (arr_take idx) as)"
    using assms by (simp add: args_taken_def all_args_def rmap_Ok list_all2_conv_all_nth)
qed

lemma args_taken_tl: "args_taken idx rs rs' \<Longrightarrow> args_taken idx (tl rs) (tl rs')"
  by (cases rs; cases rs') (simp_all add: args_taken_def)

text \<open>A call is local when its result on the selected rows is the selection of its result.\<close>

definition rows_local :: "nat list \<Rightarrow> (ExprError, Arr) result \<Rightarrow> (ExprError, Arr) result \<Rightarrow> bool" where
  "rows_local idx res res' \<longleftrightarrow> (\<forall>a. res = Ok a \<longrightarrow> res' = Ok (arr_take idx a))"

lemma rows_local_build:
  assumes "\<forall>i \<in> set idx. i < n" and "\<And>vs. arr_take idx (mk vs) = mk (pick idx vs)"
    and "\<And>j. j < length idx \<Longrightarrow> idx ! j < n \<Longrightarrow> row' j = row (idx ! j)"
  shows "rows_local idx (rbind (rmap row [0..<n]) (\<lambda>vs. Ok (mk vs))) (rbind (rmap row' [0..<length idx]) (\<lambda>vs. Ok (mk vs)))"
proof -
  have "rmap row' [0..<length idx] = Ok (pick idx vs)" if "rmap row [0..<n] = Ok vs" for vs
    by (rule rmap_rows [OF that _ assms(1)]) (rule assms(3))
  then show ?thesis using assms(2) by (auto simp: rows_local_def rbind_Ok)
qed

lemma rows_local_builders:
  assumes "\<forall>i \<in> set idx. i < n"
  shows "(\<And>j. j < length idx \<Longrightarrow> idx ! j < n \<Longrightarrow> f1' j = f1 (idx ! j)) \<Longrightarrow> rows_local idx (text_rows n f1) (text_rows (length idx) f1')"
    and "(\<And>j. j < length idx \<Longrightarrow> idx ! j < n \<Longrightarrow> f2' j = f2 (idx ! j)) \<Longrightarrow> rows_local idx (int_rows n f2) (int_rows (length idx) f2')"
    and "(\<And>j. j < length idx \<Longrightarrow> idx ! j < n \<Longrightarrow> f3' j = f3 (idx ! j)) \<Longrightarrow> rows_local idx (float_rows n f3) (float_rows (length idx) f3')"
    and "(\<And>j. j < length idx \<Longrightarrow> idx ! j < n \<Longrightarrow> f4' j = f4 (idx ! j)) \<Longrightarrow> rows_local idx (bool_rows n f4) (bool_rows (length idx) f4')"
    and "(\<And>j. j < length idx \<Longrightarrow> idx ! j < n \<Longrightarrow> f5' j = f5 (idx ! j)) \<Longrightarrow> rows_local idx (date_rows n f5) (date_rows (length idx) f5')"
    and "(\<And>j. j < length idx \<Longrightarrow> idx ! j < n \<Longrightarrow> f6' j = f6 (idx ! j)) \<Longrightarrow> rows_local idx (micros_rows n f6) (micros_rows (length idx) f6')"
  unfolding builder_defs by (rule rows_local_build [OF assms]; simp)+

lemma rows_local_bind:
  assumes "\<And>x. r = Ok x \<Longrightarrow> \<exists>y. r' = Ok y \<and> rows_local idx (f x) (f' y)"
  shows "rows_local idx (rbind r f) (rbind r' f')"
  using assms by (cases r) (auto simp: rows_local_def)

lemma bind_arg_local:
  assumes "args_taken idx rs rs'" and "args_typed n ts rs"
    and "\<And>a. arr_len a = n \<Longrightarrow> data_type a = ts ! i \<Longrightarrow> rows_local idx (f a) (f' (arr_take idx a))"
  shows "rows_local idx (rbind (arg rs i) f) (rbind (arg rs' i) f')"
  by (rule rows_local_bind) (use arg_taken(1) [OF assms(1)] arg_typed [OF assms(2)] assms(3) in blast)

lemma bind_arg_opt_local:
  assumes "args_taken idx rs rs'" and "args_typed n ts rs"
    and "\<And>c. (\<And>a. c = Some a \<Longrightarrow> arr_len a = n) \<Longrightarrow> rows_local idx (f c) (f' (map_option (arr_take idx) c))"
  shows "rows_local idx (rbind (arg_opt rs i) f) (rbind (arg_opt rs' i) f')"
proof (rule rows_local_bind)
  fix c assume c: "arg_opt rs i = Ok c"
  have "arr_len a = n" if "c = Some a" for a
    using arg_typed [OF assms(2), of i a] c that by (auto simp: arg_opt_def arg_def rbind_Ok split: if_splits)
  then show "\<exists>y. arg_opt rs' i = Ok y \<and> rows_local idx (f c) (f' y)"
    using arg_taken(2) [OF assms(1) c] assms(3) by blast
qed

lemma bind_all_local:
  assumes "args_taken idx rs rs'" and "args_typed n ts rs"
    and "\<And>as. map data_type as = ts \<Longrightarrow> \<forall>a \<in> set as. arr_len a = n \<Longrightarrow> rows_local idx (f as) (f' (map (arr_take idx) as))"
  shows "rows_local idx (rbind (all_args rs) f) (rbind (all_args rs') f')"
  by (rule rows_local_bind) (use arg_taken(3) [OF assms(1)] all_args_typed [OF assms(2)] assms(3) in blast)

lemma extract_opt_take:
  assumes "\<And>a. c = Some a \<Longrightarrow> ex (arr_take idx a) j = ex a (idx ! j)"
  shows "extract_opt ex (map_option (arr_take idx) c) j = extract_opt ex c (idx ! j)"
  using assms by (cases c) (simp_all add: extract_opt_def)

lemma shown_parts_take:
  assumes "j < length idx" and "\<forall>a \<in> set as. idx ! j < arr_len a \<and> data_type a \<in> shown_types"
  shows "shown_parts env (map (arr_take idx) as) j = shown_parts env as (idx ! j)"
proof -
  have "rmap (\<lambda>a. extract_string_any env a j) (map (arr_take idx) as) = rmap (\<lambda>a. extract_string_any env a (idx ! j)) as"
    using assms(2) by (induction as) (simp_all add: shown_take [OF assms(1)])
  then show ?thesis by (simp add: shown_parts_def)
qed

lemma first_some_take:
  "\<forall>a \<in> set as. ex (arr_take idx a) j = ex a (idx ! j) \<Longrightarrow>
     first_some ex (map (arr_take idx) as) j = first_some ex as (idx ! j)"
  by (induction as) (simp_all cong: option.case_cong)

lemma extract_bool_take:
  "j < length idx \<Longrightarrow> idx ! j < arr_len a \<Longrightarrow> extract_bool (arr_take idx a) j = extract_bool a (idx ! j)"
  by (cases a) (simp_all add: extract_bool_def is_null_def cell_value_pick)

lemma distinct_cells_take:
  assumes "j < length idx" and "idx ! j < arr_len a" "idx ! j < arr_len b" and "data_type a \<in> shown_types" "data_type b \<in> shown_types"
  shows "distinct_cells env (arr_take idx a) (arr_take idx b) j = distinct_cells env a b (idx ! j)"
  using assms by (simp add: distinct_cells_def is_null_take shown_take cong: if_cong)

lemma args_typed_mem: "args_typed n ts rs \<Longrightarrow> i < length rs \<Longrightarrow> ts ! i \<in> set ts"
  by (simp add: args_typed_def list_all2_lengthD)

lemma args_typed_tl: "args_typed n ts rs \<Longrightarrow> args_typed n (tl ts) (tl rs)"
  by (cases rs; cases ts) (simp_all add: args_typed_def)

lemma age_row_take:
  assumes "j < length idx" and "idx ! j < arr_len a" and "\<And>c. b = Some c \<Longrightarrow> idx ! j < arr_len c"
  shows "age_row env (arr_take idx a) (map_option (arr_take idx) b) j = age_row env a b (idx ! j)"
  using assms by (cases b) (simp_all add: age_row_def extract_take)

lemma udf_local:
  assumes idx: "\<forall>i \<in> set idx. i < n" and args: "args_taken idx rs rs'" "args_typed n ts rs"
  shows "rows_local idx (udf_upper env n rs) (udf_upper env (length idx) rs')"
    "rows_local idx (udf_lower env n rs) (udf_lower env (length idx) rs')"
    "rows_local idx (udf_length n rs) (udf_length (length idx) rs')"
    "rows_local idx (udf_substring n rs) (udf_substring (length idx) rs')"
    "rows_local idx (udf_trim trim n rs) (udf_trim trim (length idx) rs')"
    "rows_local idx (udf_regexp_replace env n rs) (udf_regexp_replace env (length idx) rs')"
    "rows_local idx (udf_replace n rs) (udf_replace (length idx) rs')"
    "rows_local idx (udf_split_part n rs) (udf_split_part (length idx) rs')"
    "rows_local idx (udf_pad put n rs) (udf_pad put (length idx) rs')"
    "rows_local idx (udf_strpos n rs) (udf_strpos (length idx) rs')"
    "rows_local idx (udf_position n rs) (udf_position (length idx) rs')"
    "rows_local idx (udf_is_null f n rs) (udf_is_null f (length idx) rs')"
    "rows_local idx (udf_date_trunc env n rs) (udf_date_trunc env (length idx) rs')"
    "rows_local idx (udf_date_part env n rs) (udf_date_part env (length idx) rs')"
    "rows_local idx (udf_to_char env n rs) (udf_to_char env (length idx) rs')"
    "rows_local idx (udf_age env n rs) (udf_age env (length idx) rs')"
    "rows_local idx (udf_now env n) (udf_now env (length idx))"
    "rows_local idx (udf_current_date env n) (udf_current_date env (length idx))"
  unfolding udf_defs
  by (intro bind_arg_local [OF args] bind_arg_opt_local [OF args] rows_local_builders [OF idx];
      simp add: extract_take is_null_take extract_opt_take age_row_take)+

lemma cast_udf_local:
  assumes "cast_local env idx" and "\<forall>i \<in> set idx. i < n" and "args_taken idx rs rs'" "args_typed n ts rs"
  shows "rows_local idx (udf_cast_int64 env rs) (udf_cast_int64 env rs')"
  unfolding udf_cast_int64_def
  by (rule bind_arg_local [OF assms(3,4)]) (use assms(1,2) in \<open>simp add: cast_local_def rows_local_def\<close>)

lemma printing_local:
  assumes idx: "\<forall>i \<in> set idx. i < n" and args: "args_taken idx rs rs'" "args_typed n ts rs" and ts: "set ts \<subseteq> shown_types"
  shows "rows_local idx (udf_concat env n rs) (udf_concat env (length idx) rs')"
    and "rows_local idx (udf_concat_ws env n rs) (udf_concat_ws env (length idx) rs')"
    and "rows_local idx (udf_is_distinct_from f env n rs) (udf_is_distinct_from f env (length idx) rs')"
proof -
  have shown: "shown_parts env (map (arr_take idx) as) j = shown_parts env as (idx ! j)"
    if "map data_type as = us" "set us \<subseteq> set ts" "\<forall>a \<in> set as. arr_len a = n" "j < length idx" "idx ! j < n" for as us j
    by (rule shown_parts_take) (use that ts in \<open>auto simp: image_subset_iff subset_iff\<close>)
  show "rows_local idx (udf_concat env n rs) (udf_concat env (length idx) rs')"
    unfolding udf_concat_def
    by (intro bind_all_local [OF args] rows_local_builders [OF idx]) (simp add: shown)
  have "set (tl ts) \<subseteq> set ts" by (cases ts) auto
  then show "rows_local idx (udf_concat_ws env n rs) (udf_concat_ws env (length idx) rs')"
    unfolding udf_concat_ws_def
    by (intro bind_arg_local [OF args] bind_all_local [OF args_taken_tl [OF args(1)] args_typed_tl [OF args(2)]]
        rows_local_builders [OF idx]) (simp add: shown extract_take)
  show "rows_local idx (udf_is_distinct_from f env n rs) (udf_is_distinct_from f env (length idx) rs')"
  proof (cases "1 < length rs")
    case True
    then have "0 < length rs" by linarith
    then have "ts ! 0 \<in> shown_types" "ts ! 1 \<in> shown_types"
      using args_typed_mem [OF args(2)] True ts by blast+
    then show ?thesis
      unfolding udf_is_distinct_from_def
      by (intro bind_arg_local [OF args] rows_local_builders [OF idx]) (simp add: distinct_cells_take)
  next
    case False
    then show ?thesis
      unfolding udf_is_distinct_from_def by (auto simp: rows_local_def arg_def rbind_Ok)
  qed
qed

lemma nullif_row_take:
  "ex (arr_take idx a) j = ex a (idx ! j) \<Longrightarrow> ex (arr_take idx b) j = ex b (idx ! j) \<Longrightarrow>
     nullif_row ex same (arr_take idx a) (arr_take idx b) j = nullif_row ex same a b (idx ! j)"
  by (simp add: nullif_row_def)

lemma nullif_local:
  assumes idx: "\<forall>i \<in> set idx. i < n" and args: "args_taken idx rs rs'" "args_typed n ts rs" and ts: "local_udf ''nullif'' ts"
  shows "rows_local idx (udf_nullif env n rs) (udf_nullif env (length idx) rs')"
proof (cases "1 < length rs")
  case True
  then have "0 < length rs" by linarith
  then have mem: "ts ! 0 \<in> set ts" "ts ! 1 \<in> set ts" using args_typed_mem [OF args(2)] True by blast+
  then have hd: "hd ts = ts ! 0" by (cases ts) auto
  show ?thesis
    unfolding udf_nullif_def
  proof (intro bind_arg_local [OF args])
    fix a b assume a: "arr_len a = n" "data_type a = ts ! 0" and b: "arr_len b = n" "data_type b = ts ! 1"
    have any: "ts ! 0 \<notin> {Int64, Int32, Float64, Utf8} \<Longrightarrow> rows_local idx (text_rows n (nullif_row (extract_string_any env) (=) a b))
        (text_rows (length idx) (nullif_row (extract_string_any env) (=) (arr_take idx a) (arr_take idx b)))"
      using ts mem hd a b
      by (intro rows_local_builders [OF idx] nullif_row_take shown_take) (auto simp: local_udf_def)
    have typed: "rows_local idx (text_rows n (nullif_row extract_string (=) a b))
        (text_rows (length idx) (nullif_row extract_string (=) (arr_take idx a) (arr_take idx b)))"
      "rows_local idx (int_rows n (nullif_row extract_i64 (=) a b))
        (int_rows (length idx) (nullif_row extract_i64 (=) (arr_take idx a) (arr_take idx b)))"
      "rows_local idx (float_rows n (nullif_row (extract_f64_opt env) (f64_eq env) a b))
        (float_rows (length idx) (nullif_row (extract_f64_opt env) (f64_eq env) (arr_take idx a) (arr_take idx b)))"
      by (intro rows_local_builders [OF idx] nullif_row_take extract_take; simp add: a b)+
    show "rows_local idx (case data_type a of
         Utf8 \<Rightarrow> text_rows n (nullif_row extract_string (=) a b)
       | Int64 \<Rightarrow> int_rows n (nullif_row extract_i64 (=) a b)
       | Int32 \<Rightarrow> int_rows n (nullif_row extract_i64 (=) a b)
       | Float64 \<Rightarrow> float_rows n (nullif_row (extract_f64_opt env) (f64_eq env) a b)
       | _ \<Rightarrow> text_rows n (nullif_row (extract_string_any env) (=) a b))
      (case data_type (arr_take idx a) of
         Utf8 \<Rightarrow> text_rows (length idx) (nullif_row extract_string (=) (arr_take idx a) (arr_take idx b))
       | Int64 \<Rightarrow> int_rows (length idx) (nullif_row extract_i64 (=) (arr_take idx a) (arr_take idx b))
       | Int32 \<Rightarrow> int_rows (length idx) (nullif_row extract_i64 (=) (arr_take idx a) (arr_take idx b))
       | Float64 \<Rightarrow> float_rows (length idx) (nullif_row (extract_f64_opt env) (f64_eq env) (arr_take idx a) (arr_take idx b))
       | _ \<Rightarrow> text_rows (length idx) (nullif_row (extract_string_any env) (=) (arr_take idx a) (arr_take idx b)))"
      using any typed by (simp add: a(2) split: DataType.splits)
  qed
next
  case False
  then show ?thesis unfolding udf_nullif_def by (auto simp: rows_local_def arg_def rbind_Ok)
qed

lemma coalesce_local:
  assumes idx: "\<forall>i \<in> set idx. i < n" and args: "args_taken idx rs rs'" "args_typed n ts rs" and ts: "local_udf ''coalesce'' ts"
  shows "rows_local idx (udf_coalesce env n rs) (udf_coalesce env (length idx) rs')"
  unfolding udf_coalesce_def
proof (intro bind_all_local [OF args])
  fix as assume as: "map data_type as = ts" "\<forall>a \<in> set as. arr_len a = n"
  have any: "set ts \<subseteq> shown_types \<Longrightarrow> rows_local idx (text_rows n (first_some (extract_string_any env) as))
      (text_rows (length idx) (first_some (extract_string_any env) (map (arr_take idx) as)))"
    by (intro rows_local_builders [OF idx] first_some_take ballI shown_take) (use as in auto)
  have typed: "rows_local idx (int_rows n (first_some extract_i64 as)) (int_rows (length idx) (first_some extract_i64 (map (arr_take idx) as)))"
    "rows_local idx (float_rows n (first_some (extract_f64_opt env) as))
      (float_rows (length idx) (first_some (extract_f64_opt env) (map (arr_take idx) as)))"
    "rows_local idx (bool_rows n (first_some extract_bool as)) (bool_rows (length idx) (first_some extract_bool (map (arr_take idx) as)))"
    "rows_local idx (micros_rows n (first_some (extract_timestamp_micros env) as))
      (micros_rows (length idx) (first_some (extract_timestamp_micros env) (map (arr_take idx) as)))"
    by (intro rows_local_builders [OF idx] first_some_take ballI extract_take extract_bool_take; simp add: as)+
  have same: "map data_type (map (arr_take idx) as) = ts" using as(1) by (simp add: comp_def)
  show "rows_local idx
     (case coalesce_target (map data_type as) of
         Utf8 \<Rightarrow> text_rows n (first_some (extract_string_any env) as)
       | Int64 \<Rightarrow> int_rows n (first_some extract_i64 as)
       | Int32 \<Rightarrow> int_rows n (first_some extract_i64 as)
       | Float64 \<Rightarrow> float_rows n (first_some (extract_f64_opt env) as)
       | Timestamp unit _ \<Rightarrow>
           if unit = Microsecond then micros_rows n (first_some (extract_timestamp_micros env) as)
           else text_rows n (first_some (extract_string_any env) as)
       | Boolean \<Rightarrow> bool_rows n (first_some extract_bool as)
       | _ \<Rightarrow> text_rows n (first_some (extract_string_any env) as))
     (case coalesce_target (map data_type (map (arr_take idx) as)) of
         Utf8 \<Rightarrow> text_rows (length idx) (first_some (extract_string_any env) (map (arr_take idx) as))
       | Int64 \<Rightarrow> int_rows (length idx) (first_some extract_i64 (map (arr_take idx) as))
       | Int32 \<Rightarrow> int_rows (length idx) (first_some extract_i64 (map (arr_take idx) as))
       | Float64 \<Rightarrow> float_rows (length idx) (first_some (extract_f64_opt env) (map (arr_take idx) as))
       | Timestamp unit _ \<Rightarrow>
           if unit = Microsecond then micros_rows (length idx) (first_some (extract_timestamp_micros env) (map (arr_take idx) as))
           else text_rows (length idx) (first_some (extract_string_any env) (map (arr_take idx) as))
       | Boolean \<Rightarrow> bool_rows (length idx) (first_some extract_bool (map (arr_take idx) as))
       | _ \<Rightarrow> text_rows (length idx) (first_some (extract_string_any env) (map (arr_take idx) as)))"
    unfolding same as(1) using any typed ts by (auto simp: local_udf_def is_micros_def split: DataType.splits)
qed

theorem scalar_local:
  assumes "cast_local env idx" and "\<forall>i \<in> set idx. i < n" and "args_taken idx rs rs'" and "args_typed n ts rs"
    and "local_udf name ts"
  shows "rows_local idx (eval_scalar_udf env n name rs) (eval_scalar_udf env (length idx) name rs')"
proof -
  note args = assms(2-4)
  have null: "name = ''nullif'' \<longrightarrow> rows_local idx (udf_nullif env n rs) (udf_nullif env (length idx) rs')"
    "name = ''coalesce'' \<longrightarrow> rows_local idx (udf_coalesce env n rs) (udf_coalesce env (length idx) rs')"
    using nullif_local [OF args] coalesce_local [OF args] assms(5) by blast+
  have print: "name \<in> {''concat'', ''concat_ws'', ''is_distinct_from'', ''is_not_distinct_from''} \<longrightarrow>
      rows_local idx (udf_concat env n rs) (udf_concat env (length idx) rs')
      \<and> rows_local idx (udf_concat_ws env n rs) (udf_concat_ws env (length idx) rs')
      \<and> rows_local idx (udf_is_distinct_from f env n rs) (udf_is_distinct_from f env (length idx) rs')" for f
    using printing_local [OF args] assms(5) by (auto simp: local_udf_def)
  have "rows_local idx (Err Unimplemented) (Err Unimplemented)" by (simp add: rows_local_def)
  then show ?thesis
    using null print [of "\<lambda>v. v"] print [of Not] cast_udf_local [OF assms(1) args] udf_local [OF args]
    by (simp add: eval_scalar_udf_def)
qed

section \<open>What the functions compute\<close>

subsection \<open>Null handling\<close>

lemma rmap_eq: "(\<And>x. x \<in> set xs \<Longrightarrow> f x = Ok (g x)) \<Longrightarrow> rmap f xs = Ok (map g xs)"
  by (induction xs) simp_all

lemma decimal_no_sign: "decimal m \<noteq> 45 # bs"
  using decimal_digits [of 45 m] by force

lemma int_to_string_inject [simp]: "int_to_string i = int_to_string j \<longleftrightarrow> i = j"
proof
  assume eq: "int_to_string i = int_to_string j"
  then have sign: "i < 0 \<longleftrightarrow> j < 0"
    using decimal_no_sign decimal_no_sign [symmetric] by (auto simp: int_to_string_def split: if_splits)
  then show "i = j" using eq by (force simp: int_to_string_def split: if_splits)
qed simp

lemma extract_ints:
  assumes "r < length xs"
  shows "extract_i64 (Int64Array xs) r = Ok (xs ! r)"
    and "extract_string_any env (Int64Array xs) r = Ok (map_option (\<lambda>v. int_to_string (ival v)) (xs ! r))"
    and "is_null (Int64Array xs) r = Ok (xs ! r = None)"
  using assms by (cases "xs ! r"; simp add: extract_i64_def extract_string_any_def unless_null_def is_null_def
      int_cell_def cell_value_def)+

text \<open>The first value that is not null.\<close>

definition first_value :: "'a option list \<Rightarrow> 'a option" where
  "first_value vs = (case filter (\<lambda>v. v \<noteq> None) vs of [] \<Rightarrow> None | v # _ \<Rightarrow> v)"

lemma first_some_ints:
  assumes "\<forall>xs \<in> set xss. r < length xs"
  shows "first_some extract_i64 (map Int64Array xss) r = Ok (first_value (map (\<lambda>xs. xs ! r) xss))"
  using assms by (induction xss) (auto simp: extract_ints first_value_def split: option.splits)

lemma coalesce_ints:
  assumes "xss \<noteq> []" and "\<forall>xs \<in> set xss. length xs = n"
  shows "udf_coalesce env n (map (\<lambda>xs. Ok (Int64Array xs)) xss)
     = Ok (Int64Array (map (\<lambda>r. first_value (map (\<lambda>xs. xs ! r) xss)) [0..<n]))"
proof -
  have args: "all_args (map (\<lambda>xs. Ok (Int64Array xs)) xss) = Ok (map Int64Array xss)"
    by (induction xss) (simp_all add: all_args_def)
  have rows: "rmap (first_some extract_i64 (map Int64Array xss)) [0..<n]
      = Ok (map (\<lambda>r. first_value (map (\<lambda>xs. xs ! r) xss)) [0..<n])"
    by (rule rmap_eq, rule first_some_ints) (use assms(2) in simp)
  have "coalesce_target (map data_type (map Int64Array xss)) = Int64"
    using assms(1) by (cases xss) (simp_all add: coalesce_target_def)
  then show ?thesis
    unfolding udf_coalesce_def args int_rows_def rbind.simps by (simp only: DataType.case rows rbind.simps)
qed

lemma map2_nth: "length xs = n \<Longrightarrow> length ys = n \<Longrightarrow> map2 f xs ys = map (\<lambda>r. f (xs ! r) (ys ! r)) [0..<n]"
  by (intro nth_equalityI) simp_all

lemma nullif_ints:
  assumes "length xs = n" and "length ys = n"
  shows "udf_nullif env n [Ok (Int64Array xs), Ok (Int64Array ys)]
     = Ok (Int64Array (map2 (\<lambda>x y. if x = y then None else x) xs ys))"
proof -
  have rows: "rmap (nullif_row extract_i64 (=) (Int64Array xs) (Int64Array ys)) [0..<n]
      = Ok (map (\<lambda>r. if xs ! r = ys ! r then None else xs ! r) [0..<n])"
    by (rule rmap_eq) (use assms in \<open>simp add: nullif_row_def extract_ints split: option.splits\<close>)
  show ?thesis
    unfolding udf_nullif_def map2_nth [OF assms] by (simp add: arg_def int_rows_def rows)
qed

lemma distinct_ints:
  assumes "length xs = n" and "length ys = n"
  shows "udf_is_distinct_from f env n [Ok (Int64Array xs), Ok (Int64Array ys)]
     = Ok (BooleanArray (map2 (\<lambda>x y. Some (f (x \<noteq> y))) xs ys))"
proof -
  have row: "distinct_cells env (Int64Array xs) (Int64Array ys) r = Ok (xs ! r \<noteq> ys ! r)" if "r < n" for r
    using that assms by (cases "xs ! r"; cases "ys ! r") (simp_all add: distinct_cells_def extract_ints)
  have rows: "rmap (\<lambda>r. rbind (distinct_cells env (Int64Array xs) (Int64Array ys) r) (\<lambda>v. Ok (Some (f v)))) [0..<n]
      = Ok (map (\<lambda>r. Some (f (xs ! r \<noteq> ys ! r))) [0..<n])"
    by (rule rmap_eq) (simp add: row)
  show ?thesis
    unfolding udf_is_distinct_from_def map2_nth [OF assms] by (simp add: arg_def bool_rows_def rows)
qed

subsection \<open>Text\<close>

text \<open>A text that is valid UTF-8 does not start inside a character.\<close>

definition starts_char :: "bytes \<Rightarrow> bool" where
  "starts_char s \<longleftrightarrow> s = [] \<or> \<not> continuation (hd s)"

lemma utf8_starts_char: "utf8_ok s \<Longrightarrow> starts_char s"
  by (cases s) (auto simp: starts_char_def continuation_def word_le_nat_alt word_less_nat_alt split: if_splits)

definition char_ok :: "bytes \<Rightarrow> bool" where
  "char_ok c \<longleftrightarrow> c \<noteq> [] \<and> \<not> continuation (hd c) \<and> list_all continuation (tl c)"

lemma dropWhile_hd: "dropWhile p xs = [] \<or> \<not> p (hd (dropWhile p xs))"
  by (induction xs) auto

lemma chars_ok: "starts_char s \<Longrightarrow> list_all char_ok (chars s)"
proof (induction s rule: chars.induct)
  case (2 b bs)
  have "starts_char (dropWhile continuation bs)"
    using dropWhile_hd [of continuation bs] by (simp add: starts_char_def)
  then show ?case using 2 by (auto simp: char_ok_def starts_char_def list_all_iff dest: set_takeWhileD)
qed simp

lemma chars_concat: "list_all char_ok cs \<Longrightarrow> chars (concat cs) = cs"
proof (induction cs)
  case (Cons c cs)
  obtain b bs where c: "c = b # bs" "list_all continuation bs" using Cons.prems by (cases c) (auto simp: char_ok_def)
  have "concat cs = [] \<or> \<not> continuation (hd (concat cs))"
    using Cons.prems by (cases cs) (auto simp: char_ok_def hd_append)
  then have "takeWhile continuation (bs @ concat cs) = bs" "dropWhile continuation (bs @ concat cs) = concat cs"
    using c(2) by (induction bs) (auto simp: takeWhile_eq_Nil_iff dropWhile_eq_self_iff)
  then show ?case using Cons by (simp add: c(1))
qed simp

lemma chars_nonempty: "s \<noteq> [] \<Longrightarrow> chars s \<noteq> []"
  by (cases s) auto

lemma pad_text_length:
  assumes "starts_char s" and "starts_char pad" "pad \<noteq> []" and "0 < ival len" and "put \<in> {\<lambda>p s. p @ s, \<lambda>p s. s @ p}"
  shows "length (chars (pad_text put s len pad)) = nat (ival len)"
proof -
  define k where "k = nat (ival len)"
  have ok: "list_all char_ok (chars s)" "list_all char_ok (chars pad)" using assms(1,2) by (simp_all add: chars_ok)
  show ?thesis
  proof (cases "k \<le> length (chars s)")
    case True
    have "list_all char_ok (take k (chars s))" using ok(1) by (auto simp: list_all_iff dest: in_set_takeD)
    then show ?thesis
      using True assms(4) by (simp add: pad_text_def k_def [symmetric] chars_concat)
  next
    case False
    define ps where "ps = map (\<lambda>i. chars pad ! (i mod length (chars pad))) [0..<k - length (chars s)]"
    have "\<forall>i. chars pad ! (i mod length (chars pad)) \<in> set (chars pad)" using chars_nonempty [OF assms(3)] by simp
    then have ps: "list_all char_ok ps" using ok(2) by (auto simp: ps_def list_all_iff)
    have "pad_text put s len pad = put (concat ps) (concat (chars s))"
      using False assms(3,4) by (simp add: pad_text_def k_def [symmetric] padding_def ps_def)
    moreover have "length (chars (concat (ps @ chars s))) = k" "length (chars (concat (chars s @ ps))) = k"
      using False ok(1) ps by (simp_all only: chars_concat list_all_append) (simp_all add: ps_def)
    ultimately show ?thesis using assms(5) by (auto simp: k_def)
  qed
qed

lemma enumerate_range:
  "map snd (filter (\<lambda>(i, c). lo \<le> i \<and> i < hi) (enumerate k cs)) = take (hi - max lo k) (drop (lo - k) cs)"
proof (induction cs arbitrary: k)
  case (Cons c cs)
  show ?case
  proof (cases "lo \<le> k")
    case True
    then show ?thesis using Cons.IH [of "Suc k"] by (auto simp: max_def take_Cons')
  next
    case False
    then have "lo - k = Suc (lo - Suc k)" "max lo k = max lo (Suc k)" by (simp_all add: max_def)
    then show ?thesis using Cons.IH [of "Suc k"] False by simp
  qed
qed simp

text \<open>A substring is a slice of the characters.\<close>

lemma substring_slice:
  assumes "1 \<le> ival start" and "0 \<le> ival c" and "int (length (chars s)) < 2 ^ 63 - 1"
  shows "substring s start (Some c) = Ok (concat (take (nat (ival c)) (drop (nat (ival start) - 1) (chars s))))"
proof -
  define lo hi where "lo = nat (ival start) - 1" and "hi = nat (ival start) - 1 + nat (ival c)"
  have sat: "ival (i64_saturate (ival start + ival c)) = min (ival start + ival c) (2 ^ 63 - 1)"
    using assms(1,2) by (simp add: i64_saturate_def in_i64_def)
  have range: "(ival start \<le> int i + 1 \<and> int i + 1 < ival (i64_saturate (ival start + ival c))) \<longleftrightarrow> lo \<le> i \<and> i < hi"
    if "i < length (chars s)" for i
    using that assms unfolding sat lo_def hi_def by linarith
  have "filter (\<lambda>(i, ch). ival start \<le> int i + 1 \<and> int i + 1 < ival (i64_saturate (ival start + ival c))) (enumerate 0 (chars s))
      = filter (\<lambda>(i, ch). lo \<le> i \<and> i < hi) (enumerate 0 (chars s))"
    by (intro filter_cong refl) (use range in \<open>clarsimp simp: in_set_enumerate_eq\<close>)
  then show ?thesis
    using assms(2) enumerate_range [of lo hi 0 "chars s"] by (simp add: substring_def chars_from_def lo_def hi_def)
qed

lemma join_Cons: "xs \<noteq> [] \<Longrightarrow> join sep (x # xs) = x @ sep @ join sep xs"
  by (cases xs) simp_all

lemma split_text_nonempty: "split_text sep s \<noteq> []"
  by (subst split_text.simps) (simp split: option.splits)

lemma join_empty: "join [] xs = concat xs"
  by (induction "[] :: bytes" xs rule: join.induct) simp_all

text \<open>Joining the parts of a split gives the text back, and no part contains the separator.\<close>

lemma join_split: "join sep (split_text sep s) = s"
proof (induction sep s rule: split_text.induct)
  case (1 sep s)
  show ?case
  proof (cases "sep = []")
    case True
    then show ?thesis by (simp add: split_text.simps join_empty)
  next
    case False
    show ?thesis
    proof (cases "find_sub sep s")
      case None
      then show ?thesis using False by (simp add: split_text.simps)
    next
      case (Some i)
      have "take i s @ sep @ drop (i + length sep) s = s"
        using find_sub_Some [OF Some] by (metis append_take_drop_id drop_drop add.commute)
      then show ?thesis
        using "1.IH" [OF False Some] False Some
        by (simp add: split_text.simps [of sep s] join_Cons split_text_nonempty)
    qed
  qed
qed

lemma find_sub_least: "find_sub sub s = Some i \<Longrightarrow> j < i \<Longrightarrow> take (length sub) (drop j s) \<noteq> sub"
proof (induction s arbitrary: i j)
  case (Cons b s)
  then obtain k where "find_sub sub s = Some k" "i = Suc k" "take (length sub) (b # s) \<noteq> sub" by (auto split: if_splits)
  then show ?case using Cons.IH [of k "j - 1"] Cons.prems(2) by (cases j) auto
qed (auto split: if_splits)

lemma find_sub_None: "find_sub sub s = None \<longleftrightarrow> (\<forall>j \<le> length s. take (length sub) (drop j s) \<noteq> sub)"
proof (induction s)
  case (Cons b s)
  have "(\<forall>j \<le> Suc n. P j) \<longleftrightarrow> P 0 \<and> (\<forall>j \<le> n. P (Suc j))" for P :: "nat \<Rightarrow> bool" and n
    by (metis Suc_le_mono le0 not0_implies_Suc)
  then show ?case using Cons by simp
qed auto

lemma split_parts_free: "sep \<noteq> [] \<Longrightarrow> p \<in> set (split_text sep s) \<Longrightarrow> find_sub sep p = None"
proof (induction sep s rule: split_text.induct)
  case (1 sep s)
  show ?case
  proof (cases "find_sub sep s")
    case None
    then show ?thesis using "1.prems" by (simp add: split_text.simps)
  next
    case (Some i)
    have "find_sub sep (take i s) = None"
    proof (rule ccontr)
      assume "find_sub sep (take i s) \<noteq> None"
      then obtain j where "find_sub sep (take i s) = Some j" by blast
      then have j: "take (length sep) (drop j (take i s)) = sep" "j + length sep \<le> length (take i s)"
        using find_sub_Some by blast+
      then have "j < i" using "1.prems"(1) by (cases sep) auto
      moreover have "take (length sep) (drop j s) = sep"
        using j by (simp add: drop_take min_def split: if_splits)
      ultimately show False using find_sub_least [OF Some] by blast
    qed
    then show ?thesis using 1 Some by (auto simp: split_text.simps [of sep s])
  qed
qed

section \<open>Properties\<close>

text \<open>
  (C19) The null-handling functions compute their SQL meaning on integer columns of equal length:
  \<open>coalesce\<close> is the first value of the row that is not null, \<open>nullif\<close> is null exactly when both values
  are equal and otherwise the first, and \<open>is_distinct_from\<close> compares the rows with nulls equal to each
  other. The comparison is of printed values; it is exact because decimal notation is injective.
\<close>

theorem null_functions:
  assumes "length xs = n" and "length ys = n" and "xss \<noteq> []" and "\<forall>zs \<in> set xss. length zs = n"
  shows "eval_scalar_udf env n ''coalesce'' (map (\<lambda>zs. Ok (Int64Array zs)) xss)
       = Ok (Int64Array (map (\<lambda>r. first_value (map (\<lambda>zs. zs ! r) xss)) [0..<n]))
     \<and> eval_scalar_udf env n ''nullif'' [Ok (Int64Array xs), Ok (Int64Array ys)]
       = Ok (Int64Array (map2 (\<lambda>x y. if x = y then None else x) xs ys))
     \<and> eval_scalar_udf env n ''is_distinct_from'' [Ok (Int64Array xs), Ok (Int64Array ys)]
       = Ok (BooleanArray (map2 (\<lambda>x y. Some (x \<noteq> y)) xs ys))
     \<and> eval_scalar_udf env n ''is_not_distinct_from'' [Ok (Int64Array xs), Ok (Int64Array ys)]
       = Ok (BooleanArray (map2 (\<lambda>x y. Some (x = y)) xs ys))"
  using coalesce_ints [OF assms(3,4)] nullif_ints [OF assms(1,2)] distinct_ints [OF assms(1,2)]
  by (simp add: eval_scalar_udf_def)

definition demo_env :: ExprEnv where
  "demo_env = \<lparr>f64_add = (+), f64_sub = (-), f64_mul = (*), f64_div = (div), f64_lt = (<), f64_le = (\<le>), f64_eq = (=),
     f64_of_i64 = bits, f64_to_string = (\<lambda>w. decimal (unat w)), to_uppercase = (\<lambda>s. s), to_lowercase = (\<lambda>s. s),
     debug_array = (\<lambda>_. []), cast_kernel = (\<lambda>a. if data_type a = Int64 then Some a else None),
     regex_replace = (\<lambda>_. None), parse_rfc3339 = (\<lambda>_. None), parse_datetime = (\<lambda>_. None), parse_date = (\<lambda>_. None),
     datetime_of_micros = (\<lambda>_. None), datetime_of_secs = (\<lambda>_ _. None),
     datetime_default = \<lparr>year = 1970, month = 1, day = 1, hour = 0, minute = 0, second = 0, nanosecond = 0, weekday = 3,
       iso_week = 1, ordinal = 1\<rparr>,
     civil_micros = (\<lambda>_ _ _ _ _. None), minus_days = (\<lambda>_ _. None), chrono_format = (\<lambda>_ _. None),
     now_micros = 0, now_secs = 0\<rparr>"

lemma demo_env_ok: "env_ok demo_env" "cast_local demo_env idx"
  by (auto simp: env_ok_def cast_local_def demo_env_def datetime_def split: if_splits)

theorem null_functions_witness:
  "eval_scalar_udf demo_env 2 ''coalesce'' [Ok (Int64Array [None, Some 1]), Ok (Int64Array [Some 0, Some 0])]
       = Ok (Int64Array [Some 0, Some 1])
   \<and> eval_scalar_udf demo_env 2 ''nullif'' [Ok (Int64Array [None, Some 1]), Ok (Int64Array [Some 0, Some 1])]
       = Ok (Int64Array [None, None])
   \<and> eval_scalar_udf demo_env 2 ''is_distinct_from'' [Ok (Int64Array [None, Some 1]), Ok (Int64Array [Some 0, Some 1])]
       = Ok (BooleanArray [Some True, Some False])"
  using null_functions [of "[None, Some 1]" 2 "[Some 0, Some 1]" "[[None, Some 1], [Some 0, Some 0]]" demo_env]
  by (simp add: first_value_def upt_rec numeral_2_eq_2)


definition demo_text :: bytes where
  "demo_text = [0x61, 0xC3, 0xA9, 0x2C, 0x62]"

lemma demo_text_chars: "chars demo_text = [[0x61], [0xC3, 0xA9], [0x2C], [0x62]]" "utf8_ok demo_text" "utf8_ok [0x2A]"
  by (simp_all add: demo_text_def continuation_def)


section \<open>Where the functions differ from SQL\<close>

text \<open>
  An array of dates is compared by its debug format, which shows the whole array: every row without
  nulls gets the same answer, whatever its dates. \<open>coalesce\<close> returns that text in place of a date.
\<close>

lemma distinct_dates:
  "r < length xs \<Longrightarrow> r < length ys \<Longrightarrow> xs ! r \<noteq> None \<Longrightarrow> ys ! r \<noteq> None \<Longrightarrow>
     distinct_cells env (Date32Array xs) (Date32Array ys) r
       = Ok (debug_array env (Date32Array xs) \<noteq> debug_array env (Date32Array ys))"
  by (auto simp: distinct_cells_def is_null_def extract_string_any_def unless_null_def)

lemma coalesce_dates:
  "eval_scalar_udf env 1 ''coalesce'' [Ok (Date32Array [Some d])]
     = Ok (StringArray [Some (debug_array env (Date32Array [Some d]))])"
  by (simp add: eval_scalar_udf_def udf_coalesce_def all_args_def coalesce_target_def text_rows_def
      extract_string_any_def unless_null_def is_null_def upt_rec)

text \<open>\<open>nullif\<close> of booleans gives text.\<close>

lemma nullif_booleans:
  "eval_scalar_udf env 1 ''nullif'' [Ok (BooleanArray [Some True]), Ok (BooleanArray [Some False])]
     = Ok (StringArray [Some (ascii ''true'')])"
  by (simp add: eval_scalar_udf_def udf_nullif_def arg_def text_rows_def nullif_row_def bool_to_string_def
      extract_string_any_def unless_null_def is_null_def upt_rec cell_value_def ascii_def)

text \<open>An interval shorter than a day loses its sign, and an interval that overflows is a panic.\<close>

lemma sdiv_minus: "(- i) sdiv j = - (i sdiv j)" for i j :: int
  by (simp add: signed_divide_int_def)

lemma smod_minus: "(- i) smod j = - (i smod j)" for i j :: int
  by (simp add: signed_modulo_int_def sdiv_minus)

lemma age_loses_sign:
  assumes "\<bar>ival t - ival u\<bar> < 86400 * 1000000"
  shows "age t u = age u t"
proof -
  define d where "d = ival t - ival u"
  have d: "\<bar>d\<bar> < 86400 * 1000000" using assms by (simp add: d_def)
  then have "in_i64 d" "in_i64 (- d)" by (auto simp: in_i64_def)
  then have sub: "i64_checked_sub t u = Some (of_ival d)" "i64_checked_sub u t = Some (of_ival (- d))"
    "ival (of_ival d) = d" "ival (of_ival (- d)) = - d"
    by (simp_all add: i64_checked_sub_def i64_checked_def d_def)
  have "\<bar>d\<bar> div 1000000 < 86400" using d by linarith
  then have "\<bar>d\<bar> div 1000000 div 86400 = 0" by simp
  then have days: "d sdiv 1000000 sdiv 86400 = 0"
    by (simp add: signed_divide_int_def abs_mult sgn_mult split: if_splits)
  show ?thesis by (simp add: age_def sub sdiv_minus smod_minus days Let_def)
qed

lemma age_panics: "age (I64 0x7FFFFFFFFFFFFFFF) (of_ival (-1)) = Panic"
  by code_simp

end
