(* ===== verification/Expressions.thy ===== *)
theory Expressions
  imports ScalarFunctions
begin

text \<open>
  The expression evaluator of \<open>rockstream-ops/src/expr.rs\<close> over record batches: integer, boolean and
  array contexts, comparisons, \<open>CASE\<close> and the decoding of literals; scalar functions are those of
  \<open>ScalarFunctions\<close>. Text is compared bytewise.
\<close>

section \<open>Plans\<close>

datatype BinaryOp = Eq | Ne | Lt | Le | Gt | Ge | Add | Sub | Mul | Div | Mod | And | Or

datatype Expr =
    Column usize
  | Literal bytes
  | BinaryOp BinaryOp Expr Expr
  | ScalarUdf string "Expr list"
  | Case "(Expr \<times> Expr) list" Expr

definition CASE_MISSING_ELSE_SENTINEL :: i64 where "CASE_MISSING_ELSE_SENTINEL = I64 0x8000000000000000"

section \<open>Comparisons\<close>

fun compare_cells :: "('a \<Rightarrow> 'a \<Rightarrow> bool) \<Rightarrow> 'a option list \<Rightarrow> 'a option list \<Rightarrow> (ExprError, bool list) result" where
  "compare_cells f [] ys = Ok []"
| "compare_cells f (None # xs) ys = rbind (compare_cells f xs (tl ys)) (\<lambda>bs. Ok (False # bs))"
| "compare_cells f (Some x # xs) [] = Panic"
| "compare_cells f (Some x # xs) (y # ys) =
     rbind (compare_cells f xs ys) (\<lambda>bs. Ok ((case y of None \<Rightarrow> False | Some v \<Rightarrow> f x v) # bs))"

definition cmp_by :: "('a \<Rightarrow> 'a \<Rightarrow> bool) \<Rightarrow> ('a \<Rightarrow> 'a \<Rightarrow> bool) \<Rightarrow> BinaryOp \<Rightarrow> 'a \<Rightarrow> 'a \<Rightarrow> bool" where
  "cmp_by lt le op x y =
     (case op of Gt \<Rightarrow> lt y x | Lt \<Rightarrow> lt x y | Ge \<Rightarrow> le y x | Le \<Rightarrow> le x y | _ \<Rightarrow> False)"

fun as_int64 :: "Arr \<Rightarrow> i64 option list option" where
  "as_int64 (Int64Array xs) = Some xs"
| "as_int64 _ = None"

fun as_int32 :: "Arr \<Rightarrow> u32 option list option" where
  "as_int32 (Int32Array xs) = Some xs"
| "as_int32 _ = None"

fun as_float64 :: "Arr \<Rightarrow> u64 option list option" where
  "as_float64 (Float64Array xs) = Some xs"
| "as_float64 _ = None"

fun as_utf8 :: "Arr \<Rightarrow> bytes option list option" where
  "as_utf8 (StringArray xs) = Some xs"
| "as_utf8 _ = None"

fun as_boolean :: "Arr \<Rightarrow> bool option list option" where
  "as_boolean (BooleanArray xs) = Some xs"
| "as_boolean _ = None"

fun as_date32 :: "Arr \<Rightarrow> u32 option list option" where
  "as_date32 (Date32Array xs) = Some xs"
| "as_date32 _ = None"

definition as_micros :: "Arr \<Rightarrow> i64 option list option" where
  "as_micros a = (case a of TimestampArray u tz xs \<Rightarrow> if u = Microsecond then Some xs else None | _ \<Rightarrow> None)"

text \<open>
  The tests on pairs of downcasts: when both arrays have the type, the rows are compared; otherwise
  the next type is tried.
\<close>

definition when_both ::
  "'a option list option \<Rightarrow> 'a option list option \<Rightarrow> ('a \<Rightarrow> 'a \<Rightarrow> bool) \<Rightarrow> (ExprError, bool list) result \<Rightarrow>
     (ExprError, bool list) result" where
  "when_both l r f otherwise =
     (case l of None \<Rightarrow> otherwise | Some xs \<Rightarrow> (case r of None \<Rightarrow> otherwise | Some ys \<Rightarrow> compare_cells f xs ys))"

definition eval_cmp_arrays :: "ExprEnv \<Rightarrow> Arr \<Rightarrow> Arr \<Rightarrow> BinaryOp \<Rightarrow> (ExprError, bool list) result" where
  "eval_cmp_arrays env l r op =
     (let signed = cmp_by (\<lambda>x y. sint x < sint y) (\<lambda>x y. sint x \<le> sint y) op in
      when_both (as_int64 l) (as_int64 r) (cmp_by (<) (\<le>) op)
     (when_both (as_int32 l) (as_int32 r) signed
     (when_both (as_float64 l) (as_float64 r) (cmp_by (f64_lt env) (f64_le env) op)
     (when_both (as_utf8 l) (as_utf8 r) (cmp_by bytes_less (\<lambda>x y. \<not> bytes_less y x) op)
     (when_both (as_date32 l) (as_date32 r) signed
     (when_both (as_micros l) (as_micros r) (cmp_by (<) (\<le>) op)
       (Err ExprTypeMismatch)))))))"

definition eval_eq_ne_arrays :: "ExprEnv \<Rightarrow> Arr \<Rightarrow> Arr \<Rightarrow> bool \<Rightarrow> (ExprError, bool list) result" where
  "eval_eq_ne_arrays env l r negate =
     when_both (as_int64 l) (as_int64 r) (\<lambda>x y. (x = y) \<noteq> negate)
    (when_both (as_int32 l) (as_int32 r) (\<lambda>x y. (x = y) \<noteq> negate)
    (when_both (as_utf8 l) (as_utf8 r) (\<lambda>x y. (x = y) \<noteq> negate)
    (when_both (as_float64 l) (as_float64 r) (\<lambda>x y. f64_eq env x y \<noteq> negate)
    (when_both (as_boolean l) (as_boolean r) (\<lambda>x y. (x = y) \<noteq> negate)
    (when_both (as_date32 l) (as_date32 r) (\<lambda>x y. (x = y) \<noteq> negate)
    (when_both (as_micros l) (as_micros r) (\<lambda>x y. (x = y) \<noteq> negate)
      (Err ExprTypeMismatch)))))))"

section \<open>Arithmetic\<close>

definition arithmetic :: "BinaryOp \<Rightarrow> bool" where
  "arithmetic op \<longleftrightarrow> op \<in> {Add, Sub, Mul, Div, Mod}"

definition int_arith :: "BinaryOp \<Rightarrow> i64 \<Rightarrow> i64 \<Rightarrow> (ExprError, i64) result" where
  "int_arith op a b =
     (case op of
        Add \<Rightarrow> ok_or NumericOverflow (i64_checked_add a b)
      | Sub \<Rightarrow> ok_or NumericOverflow (i64_checked_sub a b)
      | Mul \<Rightarrow> ok_or NumericOverflow (i64_checked_mul a b)
      | Div \<Rightarrow> if b = 0 then Err NumericOverflow else ok_or NumericOverflow (i64_checked_div a b)
      | Mod \<Rightarrow> if b = 0 then Err NumericOverflow else ok_or NumericOverflow (i64_checked_rem a b)
      | _ \<Rightarrow> Ok 0)"

definition float_arith :: "ExprEnv \<Rightarrow> BinaryOp \<Rightarrow> u64 \<Rightarrow> u64 \<Rightarrow> u64" where
  "float_arith env op x y =
     (case op of
        Add \<Rightarrow> f64_add env x y
      | Sub \<Rightarrow> f64_sub env x y
      | Mul \<Rightarrow> f64_mul env x y
      | Div \<Rightarrow> if f64_eq env y 0 then 0 else f64_div env x y
      | _ \<Rightarrow> 0)"

definition either_null :: "Arr \<Rightarrow> Arr \<Rightarrow> nat \<Rightarrow> (ExprError, bool) result" where
  "either_null l r i = rbind (is_null l i) (\<lambda>n. if n then Ok True else is_null r i)"

definition float_row :: "ExprEnv \<Rightarrow> BinaryOp \<Rightarrow> Arr \<Rightarrow> Arr \<Rightarrow> nat \<Rightarrow> (ExprError, u64 option) result" where
  "float_row env op l r i =
     rbind (either_null l r i) (\<lambda>n.
       if n then Ok None
       else rbind (extract_f64 env l i) (\<lambda>x. rbind (extract_f64 env r i) (\<lambda>y.
         Ok (Some (float_arith env op x y)))))"

definition shift_row :: "BinaryOp \<Rightarrow> Arr \<Rightarrow> i64 option list \<Rightarrow> Arr \<Rightarrow> nat \<Rightarrow> (ExprError, i64 option) result" where
  "shift_row op ts cells d i =
     rbind (either_null ts d i) (\<lambda>n.
       if n then Ok None
       else rbind (cell_value cells 0 i) (\<lambda>base. rbind (extract_duration_micros d i) (\<lambda>micros.
         Ok (Some (if op = Sub then i64_saturate (ival base - ival micros)
                   else i64_saturate (ival base + ival micros))))))"

definition floats :: "Arr \<Rightarrow> Arr \<Rightarrow> bool" where
  "floats l r \<longleftrightarrow> data_type l = Float64 \<or> data_type r = Float64"

text \<open>
  The arithmetic part of \<open>eval_binary_op_to_array\<close> on the arrays of both operands; \<open>ints\<close> is the result
  of the integer evaluation of the whole expression.
\<close>

definition arith_to_array ::
  "ExprEnv \<Rightarrow> BinaryOp \<Rightarrow> nat \<Rightarrow> Arr \<Rightarrow> Arr \<Rightarrow> (ExprError, i64 list) result \<Rightarrow> (ExprError, Arr) result" where
  "arith_to_array env op n l r ints =
     (let as_floats = rbind (rmap (float_row env op l r) [0..<n]) (\<lambda>vs. Ok (Float64Array vs));
          as_ints = rbind ints (\<lambda>vs. Ok (Int64Array (map Some vs)))
      in if op = Add \<or> op = Sub then
           (case as_micros l of
              Some xs \<Rightarrow> rbind (rmap (shift_row op l xs r) [0..<n]) (\<lambda>vs. Ok (TimestampArray Microsecond None vs))
            | None \<Rightarrow>
                (case as_micros r of
                   Some xs \<Rightarrow>
                     if op = Add then
                       rbind (rmap (shift_row op r xs l) [0..<n]) (\<lambda>vs. Ok (TimestampArray Microsecond None vs))
                     else Err Unimplemented
                 | None \<Rightarrow> if floats l r then as_floats else as_ints))
         else if floats l r then as_floats else as_ints)"

section \<open>Literals and types\<close>

fun is_literal :: "Expr \<Rightarrow> bool" where
  "is_literal (Literal _) = True"
| "is_literal _ = False"

definition literal_utf8 :: "bytes \<Rightarrow> (ExprError, bytes) result" where
  "literal_utf8 bs = (if utf8_ok bs then Ok bs else Err InvalidLiteral)"

definition literal_i64 :: "bytes \<Rightarrow> (ExprError, i64) result" where
  "literal_i64 bs = (if length bs = 8 then Ok (i64_from_be bs) else Err InvalidLiteral)"

definition nulls_of_type :: "DataType \<Rightarrow> nat \<Rightarrow> Arr" where
  "nulls_of_type dt n =
     (case dt of
        Utf8 \<Rightarrow> StringArray (replicate n None)
      | Int64 \<Rightarrow> Int64Array (replicate n None)
      | Float64 \<Rightarrow> Float64Array (replicate n None)
      | Boolean \<Rightarrow> BooleanArray (replicate n None)
      | Timestamp unit _ \<Rightarrow>
          if unit = Microsecond then TimestampArray Microsecond None (replicate n None) else NullArray n
      | _ \<Rightarrow> NullArray n)"

definition literal_as_type :: "ExprEnv \<Rightarrow> bytes \<Rightarrow> DataType \<Rightarrow> nat \<Rightarrow> (ExprError, Arr) result" where
  "literal_as_type env bs dt n =
     (if bs = [] then Ok (nulls_of_type dt n)
      else case dt of
        Utf8 \<Rightarrow> rbind (literal_utf8 bs) (\<lambda>s. Ok (StringArray (replicate n (Some s))))
      | Int64 \<Rightarrow> rbind (literal_i64 bs) (\<lambda>v. Ok (Int64Array (replicate n (Some v))))
      | Float64 \<Rightarrow>
          if length bs = 8 then Ok (Float64Array (replicate n (Some (from_be bs))))
          else rbind (literal_i64 bs) (\<lambda>v. Ok (Float64Array (replicate n (Some (f64_of_i64 env v)))))
      | Boolean \<Rightarrow> Ok (BooleanArray (replicate n (Some (hd bs \<noteq> 0))))
      | Timestamp unit _ \<Rightarrow>
          if unit = Microsecond then
            rbind (literal_i64 bs) (\<lambda>v. Ok (TimestampArray Microsecond None (replicate n (Some v))))
          else Err ExprTypeMismatch
      | _ \<Rightarrow> Err ExprTypeMismatch)"

text \<open>In the next two, the argument \<open>arr\<close> is what \<open>eval_to_array\<close> gives for the expression.\<close>

definition eval_expr_as_type ::
  "ExprEnv \<Rightarrow> Expr \<Rightarrow> DataType \<Rightarrow> nat \<Rightarrow> (ExprError, Arr) result \<Rightarrow> (ExprError, Arr) result" where
  "eval_expr_as_type env e dt n arr = (case e of Literal bs \<Rightarrow> literal_as_type env bs dt n | _ \<Rightarrow> arr)"

definition resolve_operand_pair_type ::
  "Expr \<Rightarrow> Expr \<Rightarrow> (ExprError, Arr) result \<Rightarrow> (ExprError, Arr) result \<Rightarrow> (ExprError, DataType) result" where
  "resolve_operand_pair_type l r larr rarr =
     (if is_literal l \<and> is_literal r then Ok Int64
      else if is_literal l then rbind rarr (\<lambda>a. Ok (data_type a))
      else rbind larr (\<lambda>a. Ok (data_type a)))"

definition typed_operands ::
  "ExprEnv \<Rightarrow> nat \<Rightarrow> Expr \<Rightarrow> Expr \<Rightarrow> (ExprError, Arr) result \<Rightarrow> (ExprError, Arr) result \<Rightarrow>
     (ExprError, Arr \<times> Arr) result" where
  "typed_operands env n l r larr rarr =
     rbind (resolve_operand_pair_type l r larr rarr) (\<lambda>dt.
       rbind (eval_expr_as_type env l dt n larr) (\<lambda>x.
       rbind (eval_expr_as_type env r dt n rarr) (\<lambda>y. Ok (x, y))))"

section \<open>CASE\<close>

text \<open>
  One row of a \<open>CASE\<close>: the first branch whose condition holds, else the value of \<open>ELSE\<close>. \<open>get\<close> and
  \<open>get_else\<close> read a cell that is not null; \<open>None\<close> appends a null.
\<close>

fun case_row ::
  "(Arr \<Rightarrow> nat \<Rightarrow> (ExprError, 'a option) result) \<Rightarrow> (Arr \<Rightarrow> nat \<Rightarrow> (ExprError, 'a option) result) \<Rightarrow>
     bool list list \<Rightarrow> Arr list \<Rightarrow> Arr \<Rightarrow> nat \<Rightarrow> (ExprError, 'a option) result" where
  "case_row get get_else (w # ws) (t # ts) e r =
     (if r < length w then
        if w ! r then rbind (is_null t r) (\<lambda>n. if n then Ok None else get t r)
        else case_row get get_else ws ts e r
      else Panic)"
| "case_row get get_else _ _ e r = rbind (is_null e r) (\<lambda>n. if n then Ok None else get_else e r)"

fun get_utf8 :: "Arr \<Rightarrow> nat \<Rightarrow> (ExprError, bytes option) result" where
  "get_utf8 (StringArray xs) r = rbind (cell_value xs [] r) (\<lambda>v. Ok (Some v))"
| "get_utf8 _ r = Err ColumnTypeMismatch"

fun get_int64 :: "Arr \<Rightarrow> nat \<Rightarrow> (ExprError, i64 option) result" where
  "get_int64 (Int64Array xs) r = rbind (cell_value xs 0 r)
     (\<lambda>v. Ok (if v = CASE_MISSING_ELSE_SENTINEL then None else Some v))"
| "get_int64 _ r = Err ColumnTypeMismatch"

definition get_f64 :: "ExprEnv \<Rightarrow> Arr \<Rightarrow> nat \<Rightarrow> (ExprError, u64 option) result" where
  "get_f64 env a r = rbind (extract_f64 env a r) (\<lambda>v. Ok (Some v))"

fun get_bool :: "Arr \<Rightarrow> nat \<Rightarrow> (ExprError, bool option) result" where
  "get_bool (BooleanArray xs) r = rbind (cell_value xs False r) (\<lambda>v. Ok (Some v))"
| "get_bool _ r = Panic"

definition get_timestamp :: "ExprEnv \<Rightarrow> Arr \<Rightarrow> nat \<Rightarrow> (ExprError, i64 option) result" where
  "get_timestamp env a r = rbind (extract_timestamp_micros env a r) (\<lambda>v. Ok (Some (or_zero v)))"

text \<open>
  The type of a \<open>CASE\<close> is that of the first branch that is not a literal and evaluates; a branch that
  fails is skipped, a panic is not.
\<close>

definition case_type :: "DataType option \<Rightarrow> Expr \<Rightarrow> (ExprError, Arr) result \<Rightarrow> (ExprError, DataType) result" where
  "case_type branch els arr =
     (case branch of
        Some t \<Rightarrow> Ok t
      | None \<Rightarrow>
          if is_literal els then Ok Utf8
          else (case arr of Ok a \<Rightarrow> Ok (data_type a) | Err _ \<Rightarrow> Ok Utf8 | Panic \<Rightarrow> Panic))"

definition case_array ::
  "ExprEnv \<Rightarrow> DataType \<Rightarrow> nat \<Rightarrow> bool list list \<Rightarrow> Arr list \<Rightarrow> Arr \<Rightarrow> (ExprError, Arr) result" where
  "case_array env dt n whens thens els =
     (case dt of
        Utf8 \<Rightarrow> rbind (rmap (case_row get_utf8 get_utf8 whens thens els) [0..<n]) (\<lambda>vs. Ok (StringArray vs))
      | Int64 \<Rightarrow> rbind (rmap (case_row get_int64 get_int64 whens thens els) [0..<n]) (\<lambda>vs. Ok (Int64Array vs))
      | Float64 \<Rightarrow>
          rbind (rmap (case_row (get_f64 env) (get_f64 env) whens thens els) [0..<n]) (\<lambda>vs. Ok (Float64Array vs))
      | Boolean \<Rightarrow> rbind (rmap (case_row get_bool get_bool whens thens els) [0..<n]) (\<lambda>vs. Ok (BooleanArray vs))
      | Timestamp unit _ \<Rightarrow>
          if unit = Microsecond then
            rbind (rmap (case_row (get_timestamp env) (extract_timestamp_micros env) whens thens els) [0..<n])
              (\<lambda>vs. Ok (TimestampArray Microsecond None vs))
          else Err ExprTypeMismatch
      | _ \<Rightarrow> Err ExprTypeMismatch)"

section \<open>The evaluator\<close>

definition column_ints :: "Arr \<Rightarrow> (ExprError, i64 list) result" where
  "column_ints a =
     (case a of
        Int64Array xs \<Rightarrow> Ok (map or_zero xs)
      | Int32Array xs \<Rightarrow> Ok (map (\<lambda>v. or_zero (map_option i32_as_i64 v)) xs)
      | _ \<Rightarrow> Err ColumnTypeMismatch)"

definition literal_ints :: "bytes \<Rightarrow> nat \<Rightarrow> (ExprError, i64 list) result" where
  "literal_ints bs n =
     (if bs = [] then Ok (replicate n 0)
      else if length bs = 8 then Ok (replicate n (i64_from_be bs))
      else if length bs = 4 then Ok (replicate n (i32_as_i64 (from_be bs)))
      else Err InvalidLiteral)"

definition literal_array :: "bytes \<Rightarrow> nat \<Rightarrow> Arr" where
  "literal_array bs n =
     (if length bs = 8 then Int64Array (replicate n (Some (i64_from_be bs)))
      else if utf8_ok bs then StringArray (replicate n (Some bs))
      else if length bs = 1 then BooleanArray (replicate n (Some (hd bs \<noteq> 0)))
      else NullArray n)"

definition batch_column :: "RecordBatch \<Rightarrow> usize \<Rightarrow> (ExprError, Arr) result" where
  "batch_column b i = (if i \<ge> length (columns b) then Err ColumnOutOfBounds else Ok (columns b ! i))"

fun is_case :: "Expr \<Rightarrow> bool" where
  "is_case (Case _ _) = True"
| "is_case _ = False"

function (sequential)
  eval_i64 :: "ExprEnv \<Rightarrow> RecordBatch \<Rightarrow> Expr \<Rightarrow> (ExprError, i64 list) result" and
  eval_bool :: "ExprEnv \<Rightarrow> RecordBatch \<Rightarrow> Expr \<Rightarrow> (ExprError, bool list) result" and
  eval_to_array :: "ExprEnv \<Rightarrow> RecordBatch \<Rightarrow> Expr \<Rightarrow> (ExprError, Arr) result" and
  eval_whens :: "ExprEnv \<Rightarrow> RecordBatch \<Rightarrow> (Expr \<times> Expr) list \<Rightarrow> (ExprError, bool list list) result" and
  branch_type :: "ExprEnv \<Rightarrow> RecordBatch \<Rightarrow> (Expr \<times> Expr) list \<Rightarrow> (ExprError, DataType option) result" and
  eval_thens :: "ExprEnv \<Rightarrow> RecordBatch \<Rightarrow> DataType \<Rightarrow> (Expr \<times> Expr) list \<Rightarrow> (ExprError, Arr list) result"
where
  "eval_i64 env b (Column i) = rbind (batch_column b i) column_ints"
| "eval_i64 env b (Literal bs) = literal_ints bs (num_rows b)"
| "eval_i64 env b (BinaryOp op l r) =
     (if arithmetic op then
        rbind (eval_i64 env b l) (\<lambda>xs. rbind (eval_i64 env b r) (\<lambda>ys.
          rmap (\<lambda>(x, y). int_arith op x y) (zip xs ys)))
      else rbind (eval_bool env b (BinaryOp op l r)) (\<lambda>bs. Ok (map (\<lambda>t. if t then 1 else 0) bs)))"
| "eval_i64 env b (ScalarUdf name args) =
     rbind (eval_scalar_udf env (num_rows b) name (map (eval_to_array env b) args)) column_ints"
| "eval_i64 env b (Case wt els) =
     rbind (eval_to_array env b (Case wt els)) (\<lambda>a.
       case a of Int64Array xs \<Rightarrow> Ok (map or_zero xs) | _ \<Rightarrow> Err Unimplemented)"

| "eval_bool env b (BinaryOp op l r) =
     (if op \<in> {Gt, Lt, Ge, Le} then
        rbind (typed_operands env (num_rows b) l r (eval_to_array env b l) (eval_to_array env b r))
          (\<lambda>(x, y). eval_cmp_arrays env x y op)
      else if op \<in> {Eq, Ne} then
        rbind (typed_operands env (num_rows b) l r (eval_to_array env b l) (eval_to_array env b r))
          (\<lambda>(x, y). eval_eq_ne_arrays env x y (op = Ne))
      else if op = And then
        rbind (eval_bool env b l) (\<lambda>xs. rbind (eval_bool env b r) (\<lambda>ys. Ok (map2 (\<and>) xs ys)))
      else if op = Or then
        rbind (eval_bool env b l) (\<lambda>xs. rbind (eval_bool env b r) (\<lambda>ys. Ok (map2 (\<or>) xs ys)))
      else Err ExprTypeMismatch)"
| "eval_bool env b e = Err ExprTypeMismatch"

| "eval_to_array env b (Column i) = batch_column b i"
| "eval_to_array env b (Literal bs) = Ok (literal_array bs (num_rows b))"
| "eval_to_array env b (BinaryOp op l r) =
     (if arithmetic op then
        rbind (eval_to_array env b l) (\<lambda>x. rbind (eval_to_array env b r) (\<lambda>y.
          arith_to_array env op (num_rows b) x y (eval_i64 env b (BinaryOp op l r))))
      else rbind (eval_bool env b (BinaryOp op l r)) (\<lambda>bs. Ok (BooleanArray (map Some bs))))"
| "eval_to_array env b (ScalarUdf name args) =
     eval_scalar_udf env (num_rows b) name (map (eval_to_array env b) args)"
| "eval_to_array env b (Case wt els) =
     rbind (eval_whens env b wt) (\<lambda>whens.
       rbind (branch_type env b wt) (\<lambda>branch. rbind (case_type branch els (eval_to_array env b els)) (\<lambda>dt.
       rbind (eval_thens env b dt wt) (\<lambda>thens.
       rbind (eval_expr_as_type env els dt (num_rows b) (eval_to_array env b els)) (\<lambda>e.
         case_array env dt (num_rows b) whens thens e)))))"

| "eval_whens env b [] = Ok []"
| "eval_whens env b ((w, t) # wt) =
     rbind (eval_bool env b w) (\<lambda>x. rbind (eval_whens env b wt) (\<lambda>xs. Ok (x # xs)))"

| "branch_type env b [] = Ok None"
| "branch_type env b ((w, t) # wt) =
     (if is_literal t then branch_type env b wt
      else case eval_to_array env b t of
        Ok a \<Rightarrow> Ok (Some (data_type a))
      | Err _ \<Rightarrow> branch_type env b wt
      | Panic \<Rightarrow> Panic)"

| "eval_thens env b dt [] = Ok []"
| "eval_thens env b dt ((w, t) # wt) =
     rbind (eval_expr_as_type env t dt (num_rows b) (eval_to_array env b t)) (\<lambda>x.
       rbind (eval_thens env b dt wt) (\<lambda>xs. Ok (x # xs)))"
  by pat_completeness auto

text \<open>
  The contexts call each other on the same expression: an integer \<open>CASE\<close> goes through its array, an
  array of arithmetic through its integers, an integer comparison through its booleans. The second
  component of the measure orders these calls.
\<close>

termination
  by (relation "measures [\<lambda>x. case x of
        Inl (Inl (_, _, e)) \<Rightarrow> size e | Inl (Inr (Inl (_, _, e))) \<Rightarrow> size e
      | Inl (Inr (Inr (_, _, e))) \<Rightarrow> size e | Inr (Inl (_, _, wt)) \<Rightarrow> size_list (size_prod size size) wt
      | Inr (Inr (Inl (_, _, wt))) \<Rightarrow> size_list (size_prod size size) wt
      | Inr (Inr (Inr (_, _, _, wt))) \<Rightarrow> size_list (size_prod size size) wt,
      \<lambda>x. case x of
        Inl (Inl (_, _, e)) \<Rightarrow> if is_case e then 2 else 1
      | Inl (Inr (Inl (_, _, e))) \<Rightarrow> 0
      | Inl (Inr (Inr (_, _, e))) \<Rightarrow> if is_case e then 1 else 2
      | _ \<Rightarrow> 0]")
    (auto simp: less_Suc_eq_le intro: size_list_estimation')

section \<open>Static types\<close>

definition schema :: "RecordBatch \<Rightarrow> DataType list" where
  "schema b = map data_type (columns b)"

definition batch_ok :: "RecordBatch \<Rightarrow> bool" where
  "batch_ok b \<longleftrightarrow> (\<forall>a \<in> set (columns b). arr_len a = num_rows b)"

definition arith_type :: "BinaryOp \<Rightarrow> DataType \<Rightarrow> DataType \<Rightarrow> DataType" where
  "arith_type op l r =
     (if (op = Add \<or> op = Sub) \<and> (is_micros l \<or> is_micros r) then Timestamp Microsecond None
      else if l = Float64 \<or> r = Float64 then Float64 else Int64)"

definition rebuilt_type :: "DataType \<Rightarrow> DataType" where
  "rebuilt_type t = (if is_micros t then Timestamp Microsecond None else t)"

text \<open>
  The Arrow type of an expression under a schema.
\<close>

fun expr_type :: "DataType list \<Rightarrow> Expr \<Rightarrow> DataType" where
  "expr_type sch (Column i) = sch ! i"
| "expr_type sch (Literal bs) =
     (if length bs = 8 then Int64 else if utf8_ok bs then Utf8 else if length bs = 1 then Boolean else Null)"
| "expr_type sch (BinaryOp op l r) =
     (if arithmetic op then arith_type op (expr_type sch l) (expr_type sch r) else Boolean)"
| "expr_type sch (ScalarUdf name args) = udf_type name (map (expr_type sch) args)"
| "expr_type sch (Case wt els) =
     rebuilt_type (case filter (\<lambda>p. \<not> is_literal (fst p))
         (map (\<lambda>p. (snd p, expr_type sch (snd p))) wt @ [(els, expr_type sch els)]) of
       [] \<Rightarrow> Utf8 | p # _ \<Rightarrow> snd p)"

lemma compare_cells_length: "compare_cells f xs ys = Ok bs \<Longrightarrow> length bs = length xs"
  by (induction f xs ys arbitrary: bs rule: compare_cells.induct) (auto simp: rbind_Ok)

lemma when_both_Ok:
  "when_both l r f k = Ok bs \<Longrightarrow> (\<exists>xs ys. l = Some xs \<and> r = Some ys \<and> compare_cells f xs ys = Ok bs) \<or> k = Ok bs"
  by (auto simp: when_both_def split: option.splits)

lemma as_arr_len:
  "as_int64 a = Some xs \<Longrightarrow> arr_len a = length xs" "as_int32 a = Some ws \<Longrightarrow> arr_len a = length ws"
  "as_float64 a = Some fs \<Longrightarrow> arr_len a = length fs" "as_utf8 a = Some ss \<Longrightarrow> arr_len a = length ss"
  "as_boolean a = Some qs \<Longrightarrow> arr_len a = length qs" "as_date32 a = Some ds \<Longrightarrow> arr_len a = length ds"
  "as_micros a = Some ts \<Longrightarrow> arr_len a = length ts"
  by (auto simp: as_micros_def elim: as_int64.elims as_int32.elims as_float64.elims as_utf8.elims
      as_boolean.elims as_date32.elims split: Arr.splits if_splits)

lemma eval_cmp_length: "eval_cmp_arrays env l r op = Ok bs \<Longrightarrow> length bs = arr_len l"
  unfolding eval_cmp_arrays_def Let_def
  by (auto dest!: when_both_Ok simp: compare_cells_length as_arr_len)

lemma eval_eq_ne_length: "eval_eq_ne_arrays env l r neg = Ok bs \<Longrightarrow> length bs = arr_len l"
  unfolding eval_eq_ne_arrays_def
  by (auto dest!: when_both_Ok simp: compare_cells_length as_arr_len)

lemma literal_as_type_len: "literal_as_type env bs dt n = Ok a \<Longrightarrow> arr_len a = n"
  by (auto simp: literal_as_type_def nulls_of_type_def rbind_Ok split: if_splits DataType.splits)

lemma literal_as_type_type:
  "literal_as_type env bs dt n = Ok a \<Longrightarrow> dt \<in> {Int64, Float64, Utf8, Boolean} \<or> is_micros dt \<Longrightarrow>
     data_type a = rebuilt_type dt"
  by (auto simp: literal_as_type_def nulls_of_type_def rbind_Ok rebuilt_type_def is_micros_def
      split: if_splits DataType.splits)

lemma eval_expr_as_type_len:
  "eval_expr_as_type env e dt n arr = Ok a \<Longrightarrow> (\<And>x. arr = Ok x \<Longrightarrow> arr_len x = n) \<Longrightarrow> arr_len a = n"
  by (cases e) (auto simp: eval_expr_as_type_def literal_as_type_len)

lemma typed_operands_Ok:
  "typed_operands env n l r larr rarr = Ok (x, y) \<longleftrightarrow>
     (\<exists>dt. resolve_operand_pair_type l r larr rarr = Ok dt \<and> eval_expr_as_type env l dt n larr = Ok x
        \<and> eval_expr_as_type env r dt n rarr = Ok y)"
  by (auto simp: typed_operands_def rbind_Ok)

lemma is_micros_type: "is_micros (data_type a) \<longleftrightarrow> as_micros a \<noteq> None"
  by (cases a) (auto simp: is_micros_def as_micros_def)

lemma arith_to_array_typed:
  assumes "arith_to_array env op n l r ints = Ok a" and "\<And>xs. ints = Ok xs \<Longrightarrow> length xs = n"
  shows "arr_len a = n \<and> data_type a = arith_type op (data_type l) (data_type r)"
  using assms unfolding arith_to_array_def Let_def arith_type_def is_micros_type floats_def
  by (auto simp: rbind_Ok dest!: rmap_length split: if_splits option.splits)

lemma case_array_typed:
  "case_array env dt n whens thens els = Ok a \<Longrightarrow> arr_len a = n \<and> data_type a = rebuilt_type dt"
  by (auto simp: case_array_def rbind_Ok rebuilt_type_def is_micros_def dest!: rmap_length
      split: if_splits DataType.splits)

lemma column_ints_len: "column_ints a = Ok xs \<Longrightarrow> length xs = arr_len a"
  by (auto simp: column_ints_def split: Arr.splits)

lemma literal_array_typed:
  "arr_len (literal_array bs n) = n \<and> data_type (literal_array bs n) = expr_type sch (Literal bs)"
  by (simp add: literal_array_def)

lemma batch_column_typed:
  "batch_ok b \<Longrightarrow> batch_column b i = Ok a \<Longrightarrow> arr_len a = num_rows b \<and> data_type a = schema b ! i"
  by (auto simp: batch_column_def batch_ok_def schema_def split: if_splits)

definition typed :: "RecordBatch \<Rightarrow> Expr \<Rightarrow> Arr \<Rightarrow> bool" where
  "typed b e a \<longleftrightarrow> arr_len a = num_rows b \<and> data_type a = expr_type (schema b) e"

text \<open>
  A branch whose value is not a literal evaluates, so the search for the branch type, which skips
  branches that fail, finds the type of the first of them.
\<close>

definition branches_ok :: "ExprEnv \<Rightarrow> RecordBatch \<Rightarrow> (Expr \<times> Expr) list \<Rightarrow> bool" where
  "branches_ok env b wt \<longleftrightarrow> (\<forall>(w, t) \<in> set wt. is_literal t \<or> is_ok (eval_to_array env b t))"

definition static_branch :: "RecordBatch \<Rightarrow> Expr list \<Rightarrow> DataType option" where
  "static_branch b es = map_option (expr_type (schema b)) (find (\<lambda>e. \<not> is_literal e) es)"

lemma static_branch_simps [simp]:
  "static_branch b [] = None"
  "static_branch b (e # es) = (if is_literal e then static_branch b es else Some (expr_type (schema b) e))"
  by (simp_all add: static_branch_def)

lemma expr_type_Case:
  "expr_type (schema b) (Case wt els) =
     rebuilt_type (case static_branch b (map snd wt) of Some t \<Rightarrow> t
       | None \<Rightarrow> if is_literal els then Utf8 else expr_type (schema b) els)"
  by (induction wt) (auto split: list.splits)

lemma int64_case_Ok:
  "(case a of Int64Array xs \<Rightarrow> Ok (f xs) | _ \<Rightarrow> Err Unimplemented) = Ok ys \<longleftrightarrow> (\<exists>xs. a = Int64Array xs \<and> ys = f xs)"
  by (cases a) auto

lemma comparison_length:
  assumes "eval_bool env b (BinaryOp op l r) = Ok bs" and "op \<in> {Gt, Lt, Ge, Le, Eq, Ne}"
    and len: "\<And>z. eval_to_array env b l = Ok z \<Longrightarrow> typed b l z"
  shows "length bs = num_rows b"
proof -
  obtain x y where ops: "typed_operands env (num_rows b) l r (eval_to_array env b l) (eval_to_array env b r) = Ok (x, y)"
    and cmp: "eval_cmp_arrays env x y op = Ok bs \<or> eval_eq_ne_arrays env x y (op = Ne) = Ok bs"
    using assms(1,2) by (auto simp: rbind_Ok split: if_splits)
  obtain dt where "eval_expr_as_type env l dt (num_rows b) (eval_to_array env b l) = Ok x"
    using ops unfolding typed_operands_Ok by blast
  then have "arr_len x = num_rows b" by (rule eval_expr_as_type_len) (use len in \<open>simp add: typed_def\<close>)
  then show ?thesis using cmp eval_cmp_length eval_eq_ne_length by force
qed

lemma connective_Ok:
  assumes "eval_bool env b (BinaryOp op l r) = Ok bs" and "op \<notin> {Gt, Lt, Ge, Le, Eq, Ne}"
  obtains f us vs where "op = And \<and> f = (\<and>) \<or> op = Or \<and> f = (\<or>)"
    and "eval_bool env b l = Ok us" "eval_bool env b r = Ok vs" "bs = map2 f us vs"
  using assms by (auto simp: rbind_Ok split: if_splits)

lemma arith_typed:
  assumes "eval_to_array env b (BinaryOp op l r) = Ok a" and "arithmetic op"
    and "\<And>x. eval_to_array env b l = Ok x \<Longrightarrow> typed b l x" "\<And>y. eval_to_array env b r = Ok y \<Longrightarrow> typed b r y"
    and "\<And>xs. eval_i64 env b (BinaryOp op l r) = Ok xs \<Longrightarrow> length xs = num_rows b"
  shows "typed b (BinaryOp op l r) a"
proof -
  obtain x y where xy: "eval_to_array env b l = Ok x" "eval_to_array env b r = Ok y"
    and a: "arith_to_array env op (num_rows b) x y (eval_i64 env b (BinaryOp op l r)) = Ok a"
    using assms(1,2) by (auto simp: rbind_Ok simp del: eval_i64.simps)
  show ?thesis
    using arith_to_array_typed [OF a assms(5)] assms(2-4) xy by (simp add: typed_def)
qed

lemma case_Ok:
  assumes "eval_to_array env b (Case wt els) = Ok a"
  obtains br dt whens thens e where "branch_type env b wt = Ok br" and "case_type br els (eval_to_array env b els) = Ok dt"
    and "eval_whens env b wt = Ok whens" and "eval_thens env b dt wt = Ok thens"
    and "eval_expr_as_type env els dt (num_rows b) (eval_to_array env b els) = Ok e"
    and "case_array env dt (num_rows b) whens thens e = Ok a"
    and "is_literal els \<or> eval_to_array env b els = Ok e"
proof -
  obtain whens br dt thens e where *: "eval_whens env b wt = Ok whens" "branch_type env b wt = Ok br"
    "case_type br els (eval_to_array env b els) = Ok dt" "eval_thens env b dt wt = Ok thens"
    and e: "eval_expr_as_type env els dt (num_rows b) (eval_to_array env b els) = Ok e"
    and a: "case_array env dt (num_rows b) whens thens e = Ok a"
    using assms by (auto simp: rbind_Ok)
  moreover have "is_literal els \<or> eval_to_array env b els = Ok e"
    using e by (cases els) (auto simp: eval_expr_as_type_def simp del: eval_to_array.simps)
  ultimately show thesis using that by blast
qed

lemma case_type_static:
  assumes "case_type (static_branch b (map snd wt)) els (eval_to_array env b els) = Ok dt"
    and "is_literal els \<or> (\<exists>x. eval_to_array env b els = Ok x \<and> typed b els x)"
  shows "expr_type (schema b) (Case wt els) = rebuilt_type dt"
  unfolding expr_type_Case using assms
  by (auto simp: typed_def case_type_def split: option.splits simp del: eval_to_array.simps expr_type.simps)

lemma args_typed_eval:
  assumes "\<And>x a. x \<in> set args \<Longrightarrow> eval_to_array env b x = Ok a \<Longrightarrow> typed b x a"
  shows "args_typed (num_rows b) (map (expr_type (schema b)) args) (map (eval_to_array env b) args)"
  using assms by (auto simp: args_typed_def typed_def list_all2_map1 list_all2_map2 list_all2_same)

lemma udf_call_typed:
  assumes "env_ok env" and "\<And>x a. x \<in> set args \<Longrightarrow> eval_to_array env b x = Ok a \<Longrightarrow> typed b x a"
    and "eval_scalar_udf env (num_rows b) name (map (eval_to_array env b) args) = Ok a"
  shows "arr_len a = num_rows b \<and> data_type a = udf_type name (map (expr_type (schema b)) args)"
  using scalar_typed [OF assms(1) args_typed_eval [OF assms(2)]] assms(3) by (simp add: rows_typed_def)

lemma evaluator_typed:
  "env_ok env \<Longrightarrow> batch_ok b \<Longrightarrow> eval_i64 env b e = Ok xs \<Longrightarrow> length xs = num_rows b"
  "env_ok env \<Longrightarrow> batch_ok b \<Longrightarrow> eval_bool env b e = Ok bs \<Longrightarrow> length bs = num_rows b"
  "env_ok env \<Longrightarrow> batch_ok b \<Longrightarrow> eval_to_array env b e = Ok a \<Longrightarrow> typed b e a"
  "env_ok env \<Longrightarrow> batch_ok b \<Longrightarrow> eval_whens env b wt = Ok ws \<Longrightarrow>
     length ws = length wt \<and> (\<forall>w \<in> set ws. length w = num_rows b)"
  "env_ok env \<Longrightarrow> batch_ok b \<Longrightarrow> branches_ok env b wt \<Longrightarrow>
     branch_type env b wt = Ok (static_branch b (map snd wt))"
  "env_ok env \<Longrightarrow> batch_ok b \<Longrightarrow> eval_thens env b dt wt = Ok ts \<Longrightarrow>
     length ts = length wt \<and> (\<forall>t \<in> set ts. arr_len t = num_rows b) \<and> branches_ok env b wt"
proof (induction env b e and env b e and env b e and env b wt and env b wt and env b dt wt
    arbitrary: xs and bs and a and ws and and ts
    rule: eval_i64_eval_bool_eval_to_array_eval_whens_branch_type_eval_thens.induct)
  case (1 env b i)
  then show ?case using column_ints_len batch_column_typed by (fastforce simp: rbind_Ok)
next
  case (3 env b op l r)
  then show ?case by (auto simp: rbind_Ok dest!: rmap_length split: if_splits)
next
  case (4 env b name args)
  obtain a where a: "eval_scalar_udf env (num_rows b) name (map (eval_to_array env b) args) = Ok a" "column_ints a = Ok xs"
    using "4.prems"(3) by (auto simp: rbind_Ok)
  have "arr_len a = num_rows b" using udf_call_typed [OF "4.prems"(1) _ a(1)] "4.IH" "4.prems"(1,2) by blast
  then show ?case using column_ints_len [OF a(2)] by simp
next
  case (5 env b wt els)
  then obtain ys where "eval_to_array env b (Case wt els) = Ok (Int64Array ys)" and xs: "xs = map or_zero ys"
    by (auto simp: rbind_Ok int64_case_Ok simp del: eval_to_array.simps)
  then have "typed b (Case wt els) (Int64Array ys)" using "5.IH" "5.prems"(1,2) by blast
  then show ?case by (simp add: typed_def xs)
next
  case (6 env b op l r)
  show ?case
  proof (cases "op \<in> {Gt, Lt, Ge, Le, Eq, Ne}")
    case True
    then have "eval_to_array env b l = Ok z \<Longrightarrow> typed b l z" for z using "6.IH"(1,3) "6.prems"(1,2) by auto
    then show ?thesis using comparison_length [OF "6.prems"(3) True] by blast
  next
    case False
    then obtain f us vs where f: "op = And \<and> f = (\<and>) \<or> op = Or \<and> f = (\<or>)"
      and uv: "eval_bool env b l = Ok us" "eval_bool env b r = Ok vs" "bs = map2 f us vs"
      using connective_Ok [OF "6.prems"(3)] by blast
    then have "length us = num_rows b" "length vs = num_rows b"
      using "6.IH"(5,7) [of us] "6.IH"(6,8) [of vs] "6.prems"(1,2) f uv by (elim disjE; simp)+
    then show ?thesis using uv(3) by simp
  qed
next
  case (8 env b i)
  then show ?case using batch_column_typed by (simp add: typed_def)
next
  case (9 env b bs)
  then show ?case using literal_array_typed [of bs "num_rows b"] by (auto simp: typed_def simp del: expr_type.simps)
next
  case (10 env b op l r)
  show ?case
  proof (cases "arithmetic op")
    case True
    then show ?thesis using arith_typed [OF "10.prems"(3) True] "10.IH"(1-3) "10.prems"(1,2) by blast
  next
    case False
    then show ?thesis using 10 by (auto simp: rbind_Ok typed_def)
  qed
next
  case (11 env b name args)
  then show ?case using udf_call_typed [OF "11.prems"(1)] unfolding typed_def eval_to_array.simps expr_type.simps by blast
next
  case (12 env b wt els)
  obtain br dt whens thens e where br: "branch_type env b wt = Ok br" and dt: "case_type br els (eval_to_array env b els) = Ok dt"
    and th: "eval_thens env b dt wt = Ok thens" and a: "case_array env dt (num_rows b) whens thens e = Ok a"
    and e: "is_literal els \<or> eval_to_array env b els = Ok e"
    using "12.prems"(3) by (rule case_Ok)
  have "branches_ok env b wt" using "12.IH"(4) "12.prems"(1,2) th by blast
  then have "br = static_branch b (map snd wt)" using "12.IH"(2) "12.prems"(1,2) br by simp
  then have "expr_type (schema b) (Case wt els) = rebuilt_type dt"
    using case_type_static dt "12.IH"(3) "12.prems"(1,2) e by blast
  then show ?case using case_array_typed [OF a] by (simp add: typed_def del: expr_type.simps)
next
  case (16 env b w t wt)
  then have "branches_ok env b wt" and "is_literal t \<or> is_ok (eval_to_array env b t)"
    by (simp_all add: branches_ok_def)
  then show ?case using 16 by (cases "is_literal t") (auto simp: is_ok_iff typed_def)
next
  case (18 env b dt w t wt)
  then obtain x xs where x: "eval_expr_as_type env t dt (num_rows b) (eval_to_array env b t) = Ok x"
    and xs: "eval_thens env b dt wt = Ok xs" "ts = x # xs" by (auto simp: rbind_Ok)
  have "arr_len x = num_rows b" using eval_expr_as_type_len [OF x] 18 by (auto simp: typed_def)
  moreover have "is_literal t \<or> is_ok (eval_to_array env b t)"
    using x by (cases t) (auto simp: eval_expr_as_type_def is_ok_iff)
  ultimately show ?case using 18 xs by (auto simp: branches_ok_def)
qed (auto simp: literal_ints_def rbind_Ok branches_ok_def split: if_splits)

section \<open>Panics\<close>

text \<open>
  The evaluator unwraps a downcast in one place: a \<open>CASE\<close> of boolean type reads its branches as boolean
  arrays. An expression is safe when every \<open>CASE\<close> in it whose type is boolean has boolean branches and
  it calls none of the functions that can panic.
\<close>

definition boolean_branches :: "(Expr \<Rightarrow> DataType) \<Rightarrow> (Expr \<times> Expr) list \<Rightarrow> Expr \<Rightarrow> bool" where
  "boolean_branches ty wt els \<longleftrightarrow>
     (ty (Case wt els) = Boolean \<longrightarrow> (\<forall>e \<in> insert els (snd ` set wt). is_literal e \<or> ty e = Boolean))"

fun safe_expr :: "DataType list \<Rightarrow> Expr \<Rightarrow> bool" where
  "safe_expr sch (BinaryOp op l r) = (safe_expr sch l \<and> safe_expr sch r)"
| "safe_expr sch (Case wt els) =
     ((\<forall>p \<in> set wt. safe_expr sch (fst p) \<and> safe_expr sch (snd p)) \<and> safe_expr sch els
      \<and> boolean_branches (expr_type sch) wt els)"
| "safe_expr sch (ScalarUdf name args) = (total_udf name \<and> (\<forall>x \<in> set args. safe_expr sch x))"
| "safe_expr sch _ = True"

lemma compare_cells_no_panic: "length xs \<le> length ys \<Longrightarrow> compare_cells f xs ys \<noteq> Panic"
  by (induction f xs ys rule: compare_cells.induct) (auto simp: rbind_Panic)

lemma when_both_no_panic:
  "k \<noteq> Panic \<Longrightarrow> (\<And>xs ys. l = Some xs \<Longrightarrow> r = Some ys \<Longrightarrow> length xs \<le> length ys) \<Longrightarrow> when_both l r f k \<noteq> Panic"
  by (auto simp: when_both_def compare_cells_no_panic split: option.splits)

lemma compare_no_panic:
  assumes "arr_len l = arr_len r"
  shows "eval_cmp_arrays env l r op \<noteq> Panic" and "eval_eq_ne_arrays env l r neg \<noteq> Panic"
  unfolding eval_cmp_arrays_def eval_eq_ne_arrays_def Let_def
  by (intro when_both_no_panic; (use assms as_arr_len in force)?; simp)+

lemma float_row_no_panic: "i < arr_len l \<Longrightarrow> i < arr_len r \<Longrightarrow> float_row env op l r i \<noteq> Panic"
  by (auto simp: float_row_def either_null_def rbind_Panic is_null_Ok extract_no_panic cells_no_panic split: if_splits)

lemma shift_row_no_panic:
  "i < arr_len ts \<Longrightarrow> i < arr_len d \<Longrightarrow> i < length cells \<Longrightarrow> shift_row op ts cells d i \<noteq> Panic"
  by (auto simp: shift_row_def either_null_def rbind_Panic is_null_Ok extract_no_panic cells_no_panic cell_value_Ok split: if_splits)

lemma arith_to_array_no_panic:
  assumes "arr_len l = n" "arr_len r = n" and "ints \<noteq> Panic"
  shows "arith_to_array env op n l r ints \<noteq> Panic"
proof -
  have f: "rmap (float_row env op l r) [0..<n] \<noteq> Panic"
    using assms by (intro rmap_not_Panic float_row_no_panic) auto
  have s: "as_micros l = Some xs \<Longrightarrow> rmap (shift_row op l xs r) [0..<n] \<noteq> Panic"
    "as_micros r = Some xs \<Longrightarrow> rmap (shift_row op r xs l) [0..<n] \<noteq> Panic" for xs
    using assms as_arr_len(7) by (intro rmap_not_Panic shift_row_no_panic; force)+
  show ?thesis
    using f s assms(3) unfolding arith_to_array_def Let_def
    by (auto simp: rbind_Panic split: option.splits)
qed

lemma case_row_no_panic:
  assumes "\<forall>w \<in> set whens. r < length w" and "\<forall>t \<in> insert els (set thens). r < arr_len t"
    and "\<forall>t \<in> set thens. get t r \<noteq> Panic" and "get_else els r \<noteq> Panic"
  shows "case_row get get_else whens thens els r \<noteq> Panic"
  using assms
  by (induction get get_else whens thens els r rule: case_row.induct) (auto simp: rbind_Panic is_null_Ok split: if_splits)

lemma get_no_panic:
  assumes "r < arr_len a"
  shows "get_utf8 a r \<noteq> Panic" "get_int64 a r \<noteq> Panic" "get_f64 env a r \<noteq> Panic" "get_timestamp env a r \<noteq> Panic"
    "data_type a = Boolean \<Longrightarrow> get_bool a r \<noteq> Panic"
  using assms extract_no_panic cells_no_panic
  by (cases a; auto simp: rbind_Panic cell_value_Ok get_f64_def get_timestamp_def)+

lemma case_rows_no_panic:
  assumes "\<forall>w \<in> set whens. length w = n" and "\<forall>t \<in> insert els (set thens). arr_len t = n"
    and "\<And>t r. t \<in> insert els (set thens) \<Longrightarrow> r < arr_len t \<Longrightarrow> get t r \<noteq> Panic \<and> get_else t r \<noteq> Panic"
  shows "rmap (case_row get get_else whens thens els) [0..<n] \<noteq> Panic"
  using assms by (intro rmap_not_Panic case_row_no_panic) auto

lemma case_array_no_panic:
  assumes len: "\<forall>w \<in> set whens. length w = n" "\<forall>t \<in> insert els (set thens). arr_len t = n"
    and bool: "dt = Boolean \<longrightarrow> (\<forall>t \<in> insert els (set thens). data_type t = Boolean)"
  shows "case_array env dt n whens thens els \<noteq> Panic"
proof -
  note rows = case_rows_no_panic [OF len]
  have "rmap (case_row get_utf8 get_utf8 whens thens els) [0..<n] \<noteq> Panic"
    "rmap (case_row get_int64 get_int64 whens thens els) [0..<n] \<noteq> Panic"
    "rmap (case_row (get_f64 env) (get_f64 env) whens thens els) [0..<n] \<noteq> Panic"
    "rmap (case_row (get_timestamp env) (extract_timestamp_micros env) whens thens els) [0..<n] \<noteq> Panic"
    by (rule rows; simp add: get_no_panic extract_no_panic cells_no_panic)+
  moreover have "dt = Boolean \<Longrightarrow> rmap (case_row get_bool get_bool whens thens els) [0..<n] \<noteq> Panic"
    by (rule rows) (use bool get_no_panic in blast)
  ultimately show ?thesis
    unfolding case_array_def by (auto simp: rbind_Panic split: DataType.splits)
qed

lemma literal_as_type_no_panic: "literal_as_type env bs dt n \<noteq> Panic"
  by (auto simp: literal_as_type_def rbind_Panic literal_utf8_def literal_i64_def split: DataType.splits)

lemma as_type_no_panic: "arr \<noteq> Panic \<Longrightarrow> eval_expr_as_type env e dt n arr \<noteq> Panic"
  by (cases e) (auto simp: eval_expr_as_type_def literal_as_type_no_panic)

lemma typed_operands_no_panic:
  "larr \<noteq> Panic \<Longrightarrow> rarr \<noteq> Panic \<Longrightarrow> typed_operands env n l r larr rarr \<noteq> Panic"
  by (auto simp: typed_operands_def resolve_operand_pair_type_def rbind_Panic as_type_no_panic)

lemma column_ints_no_panic: "column_ints a \<noteq> Panic"
  by (cases a) (auto simp: column_ints_def)

lemma int_arith_no_panic: "int_arith op x y \<noteq> Panic"
  by (cases op) (auto simp: int_arith_def ok_or_no_Panic)

lemma batch_column_no_panic: "batch_column b i \<noteq> Panic"
  by (simp add: batch_column_def)

lemmas leaf_no_panic = column_ints_no_panic int_arith_no_panic batch_column_no_panic as_type_no_panic
  typed_operands_no_panic

definition safe_branches :: "DataType list \<Rightarrow> (Expr \<times> Expr) list \<Rightarrow> bool" where
  "safe_branches sch wt \<longleftrightarrow> (\<forall>p \<in> set wt. safe_expr sch (fst p) \<and> safe_expr sch (snd p))"

lemma thens_types:
  assumes "env_ok env" and "batch_ok b" and "eval_thens env b Boolean wt = Ok ts"
    and "\<forall>e \<in> snd ` set wt. is_literal e \<or> expr_type (schema b) e = Boolean"
  shows "\<forall>t \<in> set ts. data_type t = Boolean"
  using assms(3,4)
proof (induction wt arbitrary: ts)
  case (Cons p wt)
  obtain w t where p: "p = (w, t)" by fastforce
  obtain x xs where x: "eval_expr_as_type env t Boolean (num_rows b) (eval_to_array env b t) = Ok x"
    and xs: "eval_thens env b Boolean wt = Ok xs" "ts = x # xs"
    using Cons.prems(1) by (auto simp: p rbind_Ok)
  have "data_type x = Boolean"
  proof (cases "is_literal t")
    case True
    then show ?thesis
      using x literal_as_type_type [of env _ Boolean] by (cases t) (auto simp: eval_expr_as_type_def rebuilt_type_def is_micros_def)
  next
    case False
    then have "eval_to_array env b t = Ok x" using x by (cases t) (auto simp: eval_expr_as_type_def)
    then show ?thesis
      using evaluator_typed(3) [OF assms(1,2)] Cons.prems(2) False by (auto simp: p typed_def)
  qed
  then show ?case using Cons.IH xs Cons.prems(2) by auto
qed simp

definition evaluable :: "ExprEnv \<Rightarrow> RecordBatch \<Rightarrow> bool" where
  "evaluable env b \<longleftrightarrow> env_ok env \<and> batch_ok b"

lemma evaluableD:
  assumes "evaluable env b"
  shows "env_ok env" "batch_ok b"
  using assms by (simp_all add: evaluable_def)

lemma comparison_no_panic:
  assumes "evaluable env b" and "eval_to_array env b l \<noteq> Panic" and "eval_to_array env b r \<noteq> Panic"
    and "op \<in> {Gt, Lt, Ge, Le, Eq, Ne}"
  shows "eval_bool env b (BinaryOp op l r) \<noteq> Panic"
proof -
  have len: "arr_len x = arr_len y"
    if "typed_operands env (num_rows b) l r (eval_to_array env b l) (eval_to_array env b r) = Ok (x, y)" for x y
  proof -
    have "arr_len z = num_rows b" if "eval_to_array env b e = Ok z" for e z
      using evaluator_typed(3) [OF evaluableD [OF assms(1)] that] by (simp add: typed_def)
    then show ?thesis using \<open>typed_operands _ _ _ _ _ _ = _\<close> eval_expr_as_type_len unfolding typed_operands_Ok by metis
  qed
  show ?thesis
    using assms(4) typed_operands_no_panic [OF assms(2,3)] len compare_no_panic
    by (auto simp: rbind_Panic)
qed

lemma case_type_no_panic: "arr \<noteq> Panic \<Longrightarrow> case_type br els arr \<noteq> Panic"
  by (auto simp: case_type_def split: option.splits result.splits)

lemma case_no_panic:
  assumes ev: "evaluable env b" and "eval_whens env b wt \<noteq> Panic" and "branch_type env b wt \<noteq> Panic"
    and "\<And>dt. eval_thens env b dt wt \<noteq> Panic" and "eval_to_array env b els \<noteq> Panic"
    and bools: "boolean_branches (expr_type (schema b)) wt els"
  shows "eval_to_array env b (Case wt els) \<noteq> Panic"
proof
  assume panic: "eval_to_array env b (Case wt els) = Panic"
  note ok = evaluableD [OF ev]
  obtain whens br dt thens e where wh: "eval_whens env b wt = Ok whens" and br: "branch_type env b wt = Ok br"
    and dt: "case_type br els (eval_to_array env b els) = Ok dt" and th: "eval_thens env b dt wt = Ok thens"
    and e: "eval_expr_as_type env els dt (num_rows b) (eval_to_array env b els) = Ok e"
    and a: "case_array env dt (num_rows b) whens thens e = Panic"
    using panic assms(2-5) case_type_no_panic [OF assms(5)] as_type_no_panic [OF assms(5)]
    unfolding eval_to_array.simps by (auto simp: rbind_Panic)
  have els: "is_literal els \<or> (\<exists>x. eval_to_array env b els = Ok x \<and> typed b els x \<and> e = x)"
    using e evaluator_typed(3) [OF ok] by (cases els) (auto simp: eval_expr_as_type_def simp del: eval_to_array.simps)
  have "br = static_branch b (map snd wt)"
    using evaluator_typed(5) [OF ok] evaluator_typed(6) [OF ok th] br by force
  then have "expr_type (schema b) (Case wt els) = rebuilt_type dt" using case_type_static dt els by blast
  then have bool: "\<forall>x \<in> insert els (snd ` set wt). is_literal x \<or> expr_type (schema b) x = Boolean" if "dt = Boolean"
    using bools that unfolding boolean_branches_def by (simp add: rebuilt_type_def is_micros_def del: expr_type.simps)
  have "data_type e = Boolean" if dt: "dt = Boolean"
  proof (cases "is_literal els")
    case True
    then show ?thesis
      using e dt literal_as_type_type [of env _ Boolean] by (cases els) (auto simp: eval_expr_as_type_def rebuilt_type_def is_micros_def)
  next
    case False
    then show ?thesis using els bool [OF dt] by (auto simp: typed_def)
  qed
  then have "dt = Boolean \<longrightarrow> (\<forall>t \<in> insert e (set thens). data_type t = Boolean)"
    using thens_types [OF ok] th bool by auto
  moreover have "arr_len e = num_rows b"
    using eval_expr_as_type_len [OF e] evaluator_typed(3) [OF ok] by (simp add: typed_def)
  ultimately have "case_array env dt (num_rows b) whens thens e \<noteq> Panic"
    using evaluator_typed(4) [OF ok wh] evaluator_typed(6) [OF ok th] by (intro case_array_no_panic) auto
  then show False using a by simp
qed

lemma udf_call_no_panic:
  assumes ev: "evaluable env b" and args: "\<And>x. x \<in> set args \<Longrightarrow> eval_to_array env b x \<noteq> Panic" and "total_udf name"
  shows "eval_scalar_udf env (num_rows b) name (map (eval_to_array env b) args) \<noteq> Panic"
proof -
  have "args_total (num_rows b) (map (eval_to_array env b) args)"
    using args evaluator_typed(3) [OF evaluableD [OF ev]] by (auto simp: args_total_def typed_def)
  then show ?thesis by (rule scalar_no_panic [OF evaluableD(1) [OF ev] _ assms(3)])
qed

lemma evaluator_no_panic:
  "evaluable env b \<Longrightarrow> safe_expr (schema b) e \<Longrightarrow> eval_i64 env b e \<noteq> Panic"
  "evaluable env b \<Longrightarrow> safe_expr (schema b) e \<Longrightarrow> eval_bool env b e \<noteq> Panic"
  "evaluable env b \<Longrightarrow> safe_expr (schema b) e \<Longrightarrow> eval_to_array env b e \<noteq> Panic"
  "evaluable env b \<Longrightarrow> safe_branches (schema b) wt \<Longrightarrow> eval_whens env b wt \<noteq> Panic"
  "evaluable env b \<Longrightarrow> safe_branches (schema b) wt \<Longrightarrow> branch_type env b wt \<noteq> Panic"
  "evaluable env b \<Longrightarrow> safe_branches (schema b) wt \<Longrightarrow> eval_thens env b dt wt \<noteq> Panic"
proof (induction env b e and env b e and env b e and env b wt and env b wt and env b dt wt
    rule: eval_i64_eval_bool_eval_to_array_eval_whens_branch_type_eval_thens.induct)
  case (3 env b op l r)
  then show ?case by (auto simp: rbind_Panic leaf_no_panic intro!: rmap_not_Panic)
next
  case (4 env b name args)
  then show ?case using udf_call_no_panic [OF "4.prems"(1)] by (auto simp: rbind_Panic leaf_no_panic)
next
  case (5 env b wt els)
  then show ?case by (auto simp: rbind_Panic split: Arr.splits simp del: eval_to_array.simps)
next
  case (6 env b op l r)
  show ?case
  proof (cases "op \<in> {Gt, Lt, Ge, Le, Eq, Ne}")
    case True
    then have "eval_to_array env b l \<noteq> Panic" "eval_to_array env b r \<noteq> Panic" using "6.IH"(1-4) "6.prems" by auto
    then show ?thesis using comparison_no_panic True "6.prems"(1) by blast
  next
    case False
    then show ?thesis using 6 by (auto simp: rbind_Panic)
  qed
next
  case (10 env b op l r)
  show ?case
  proof (cases "arithmetic op")
    case True
    have "arr_len z = num_rows b" if "eval_to_array env b e = Ok z" for e z
      using evaluator_typed(3) [OF evaluableD [OF "10.prems"(1)] that] by (simp add: typed_def)
    then show ?thesis using 10 True arith_to_array_no_panic by (auto simp: rbind_Panic simp del: eval_i64.simps)
  next
    case False
    then show ?thesis using 10 by (auto simp: rbind_Panic)
  qed
next
  case (11 env b name args)
  then show ?case using udf_call_no_panic [OF "11.prems"(1)] by simp
next
  case (12 env b wt els)
  then have "safe_branches (schema b) wt" "safe_expr (schema b) els"
    and bools: "boolean_branches (expr_type (schema b)) wt els"
    by (simp_all add: safe_branches_def)
  then show ?case using case_no_panic [OF "12.prems"(1) _ _ _ _ bools] "12.IH" "12.prems"(1) by blast
next
  case (16 env b w t wt)
  then show ?case by (auto simp: safe_branches_def split: result.splits)
qed (auto simp: rbind_Panic leaf_no_panic literal_ints_def safe_branches_def)

section \<open>Rows are evaluated independently\<close>

text \<open>Every call in the expression is of a function whose rows are independent.\<close>

fun local_calls :: "DataType list \<Rightarrow> Expr \<Rightarrow> bool" where
  "local_calls sch (BinaryOp op l r) = (local_calls sch l \<and> local_calls sch r)"
| "local_calls sch (Case wt els) =
     ((\<forall>p \<in> set wt. local_calls sch (fst p) \<and> local_calls sch (snd p)) \<and> local_calls sch els)"
| "local_calls sch (ScalarUdf name args) =
     (local_udf name (map (expr_type sch) args) \<and> (\<forall>x \<in> set args. local_calls sch x))"
| "local_calls sch _ = True"

definition local_branches :: "DataType list \<Rightarrow> (Expr \<times> Expr) list \<Rightarrow> bool" where
  "local_branches sch wt \<longleftrightarrow> (\<forall>p \<in> set wt. local_calls sch (fst p) \<and> local_calls sch (snd p))"

lemma get_take:
  assumes "j < length idx" and "idx ! j < arr_len a"
  shows "get_utf8 (arr_take idx a) j = get_utf8 a (idx ! j)" and "get_int64 (arr_take idx a) j = get_int64 a (idx ! j)"
    and "get_bool (arr_take idx a) j = get_bool a (idx ! j)"
    and "get_f64 env (arr_take idx a) j = get_f64 env a (idx ! j)"
    and "get_timestamp env (arr_take idx a) j = get_timestamp env a (idx ! j)"
  using assms extract_take [OF assms] cell_take [OF assms]
  by (cases a; simp add: cell_value_pick get_f64_def get_timestamp_def)+

lemma as_take:
  "as_int64 (arr_take idx a) = map_option (pick idx) (as_int64 a)" "as_int32 (arr_take idx a) = map_option (pick idx) (as_int32 a)"
  "as_float64 (arr_take idx a) = map_option (pick idx) (as_float64 a)" "as_utf8 (arr_take idx a) = map_option (pick idx) (as_utf8 a)"
  "as_boolean (arr_take idx a) = map_option (pick idx) (as_boolean a)" "as_date32 (arr_take idx a) = map_option (pick idx) (as_date32 a)"
  "as_micros (arr_take idx a) = map_option (pick idx) (as_micros a)"
  by (cases a; simp add: as_micros_def)+

lemma compare_cells_eq:
  "length xs = length ys \<Longrightarrow>
     compare_cells f xs ys = Ok (map2 (\<lambda>x y. case x of None \<Rightarrow> False | Some u \<Rightarrow> (case y of None \<Rightarrow> False | Some v \<Rightarrow> f u v)) xs ys)"
  by (induction f xs ys rule: compare_cells.induct) (auto simp: Suc_length_conv)

lemma when_both_take:
  assumes "when_both l r f k = Ok bs" and "\<And>xs. l = Some xs \<Longrightarrow> length xs = n" "\<And>ys. r = Some ys \<Longrightarrow> length ys = n"
    and "\<forall>i \<in> set idx. i < n" and "k = Ok bs \<Longrightarrow> k' = Ok (pick idx bs)"
  shows "when_both (map_option (pick idx) l) (map_option (pick idx) r) f k' = Ok (pick idx bs)"
  using assms by (auto simp: when_both_def compare_cells_eq pick_map2 split: option.splits)

lemma compare_take:
  assumes "arr_len l = n" "arr_len r = n" and "\<forall>i \<in> set idx. i < n"
  shows "eval_cmp_arrays env l r op = Ok bs \<Longrightarrow> eval_cmp_arrays env (arr_take idx l) (arr_take idx r) op = Ok (pick idx bs)"
    and "eval_eq_ne_arrays env l r neg = Ok bs \<Longrightarrow> eval_eq_ne_arrays env (arr_take idx l) (arr_take idx r) neg = Ok (pick idx bs)"
proof -
  have len: "\<And>xs. as_int64 l = Some xs \<Longrightarrow> length xs = n" "\<And>xs. as_int64 r = Some xs \<Longrightarrow> length xs = n"
    "\<And>xs. as_int32 l = Some xs \<Longrightarrow> length xs = n" "\<And>xs. as_int32 r = Some xs \<Longrightarrow> length xs = n"
    "\<And>xs. as_float64 l = Some xs \<Longrightarrow> length xs = n" "\<And>xs. as_float64 r = Some xs \<Longrightarrow> length xs = n"
    "\<And>xs. as_utf8 l = Some xs \<Longrightarrow> length xs = n" "\<And>xs. as_utf8 r = Some xs \<Longrightarrow> length xs = n"
    "\<And>xs. as_boolean l = Some xs \<Longrightarrow> length xs = n" "\<And>xs. as_boolean r = Some xs \<Longrightarrow> length xs = n"
    "\<And>xs. as_date32 l = Some xs \<Longrightarrow> length xs = n" "\<And>xs. as_date32 r = Some xs \<Longrightarrow> length xs = n"
    "\<And>xs. as_micros l = Some xs \<Longrightarrow> length xs = n" "\<And>xs. as_micros r = Some xs \<Longrightarrow> length xs = n"
    using assms(1,2) by (simp_all add: as_arr_len)
  show "eval_cmp_arrays env l r op = Ok bs \<Longrightarrow> eval_cmp_arrays env (arr_take idx l) (arr_take idx r) op = Ok (pick idx bs)"
    unfolding eval_cmp_arrays_def Let_def as_take
    by (erule when_both_take [OF _ len(1,2) assms(3)] when_both_take [OF _ len(3,4) assms(3)]
        when_both_take [OF _ len(5,6) assms(3)] when_both_take [OF _ len(7,8) assms(3)]
        when_both_take [OF _ len(11,12) assms(3)] when_both_take [OF _ len(13,14) assms(3)] | simp)+
  show "eval_eq_ne_arrays env l r neg = Ok bs \<Longrightarrow> eval_eq_ne_arrays env (arr_take idx l) (arr_take idx r) neg = Ok (pick idx bs)"
    unfolding eval_eq_ne_arrays_def as_take
    by (erule when_both_take [OF _ len(1,2) assms(3)] when_both_take [OF _ len(3,4) assms(3)]
        when_both_take [OF _ len(5,6) assms(3)] when_both_take [OF _ len(7,8) assms(3)] when_both_take [OF _ len(9,10) assms(3)]
        when_both_take [OF _ len(11,12) assms(3)] when_both_take [OF _ len(13,14) assms(3)] | simp)+
qed

lemma float_row_take:
  "j < length idx \<Longrightarrow> idx ! j < arr_len l \<Longrightarrow> idx ! j < arr_len r \<Longrightarrow>
     float_row env op (arr_take idx l) (arr_take idx r) j = float_row env op l r (idx ! j)"
  by (simp add: float_row_def either_null_def is_null_take cell_take cong: if_cong)

lemma shift_row_take:
  "j < length idx \<Longrightarrow> idx ! j < arr_len ts \<Longrightarrow> idx ! j < length cells \<Longrightarrow> idx ! j < arr_len d \<Longrightarrow>
     shift_row op (arr_take idx ts) (pick idx cells) (arr_take idx d) j = shift_row op ts cells d (idx ! j)"
  by (simp add: shift_row_def either_null_def is_null_take cell_take cell_value_pick cong: if_cong)

lemma arith_to_array_take:
  assumes ok: "arith_to_array env op n l r ints = Ok a" and len: "arr_len l = n" "arr_len r = n"
    and idx: "\<forall>i \<in> set idx. i < n" and ints: "\<And>xs. ints = Ok xs \<Longrightarrow> length xs = n \<and> ints' = Ok (pick idx xs)"
  shows "arith_to_array env op (length idx) (arr_take idx l) (arr_take idx r) ints' = Ok (arr_take idx a)"
proof -
  have f: "rmap (float_row env op (arr_take idx l) (arr_take idx r)) [0..<length idx] = Ok (pick idx vs)"
    if "rmap (float_row env op l r) [0..<n] = Ok vs" for vs
    using rmap_rows [OF that _ idx] len by (simp add: float_row_take)
  have sl: "rmap (shift_row op (arr_take idx l) (pick idx xs) (arr_take idx r)) [0..<length idx] = Ok (pick idx vs)"
    if "as_micros l = Some xs" "rmap (shift_row op l xs r) [0..<n] = Ok vs" for xs vs
    using rmap_rows [OF that(2) _ idx] len as_arr_len(7) [OF that(1)] by (simp add: shift_row_take)
  have sr: "rmap (shift_row op (arr_take idx r) (pick idx xs) (arr_take idx l)) [0..<length idx] = Ok (pick idx vs)"
    if "as_micros r = Some xs" "rmap (shift_row op r xs l) [0..<n] = Ok vs" for xs vs
    using rmap_rows [OF that(2) _ idx] len as_arr_len(7) [OF that(1)] by (simp add: shift_row_take)
  have "floats (arr_take idx l) (arr_take idx r) = floats l r" by (simp add: floats_def)
  then show ?thesis
    using ok f sl sr ints idx unfolding arith_to_array_def Let_def as_take
    by (auto simp: rbind_Ok pick_map split: option.splits if_splits)
qed

lemma case_row_take:
  assumes "j < length idx" and "\<forall>w \<in> set whens. idx ! j < length w" and "\<forall>t \<in> insert els (set thens). idx ! j < arr_len t"
    and "\<And>t. idx ! j < arr_len t \<Longrightarrow> get (arr_take idx t) j = get t (idx ! j) \<and> get_else (arr_take idx t) j = get_else t (idx ! j)"
  shows "case_row get get_else (map (pick idx) whens) (map (arr_take idx) thens) (arr_take idx els) j
      = case_row get get_else whens thens els (idx ! j)"
  using assms(2,3)
proof (induction whens arbitrary: thens)
  case Nil
  then show ?case using assms(1,4) by (simp add: is_null_take cong: if_cong)
next
  case (Cons w ws)
  then show ?case using assms(1,4) by (cases thens) (auto simp: is_null_take cong: if_cong)
qed

lemma case_rows_take:
  assumes "rmap (case_row get get_else whens thens els) [0..<n] = Ok vs" and "\<forall>i \<in> set idx. i < n"
    and "\<forall>w \<in> set whens. length w = n" and "\<forall>t \<in> insert els (set thens). arr_len t = n"
    and "\<And>t j. j < length idx \<Longrightarrow> idx ! j < arr_len t \<Longrightarrow>
      get (arr_take idx t) j = get t (idx ! j) \<and> get_else (arr_take idx t) j = get_else t (idx ! j)"
  shows "rmap (case_row get get_else (map (pick idx) whens) (map (arr_take idx) thens) (arr_take idx els)) [0..<length idx]
      = Ok (pick idx vs)"
  by (rule rmap_rows [OF assms(1) _ assms(2)]) (use assms(3-5) in \<open>auto intro!: case_row_take\<close>)

lemma case_array_take:
  assumes ok: "case_array env dt n whens thens els = Ok a" and "\<forall>i \<in> set idx. i < n"
    and "\<forall>w \<in> set whens. length w = n" and "\<forall>t \<in> insert els (set thens). arr_len t = n"
  shows "case_array env dt (length idx) (map (pick idx) whens) (map (arr_take idx) thens) (arr_take idx els) = Ok (arr_take idx a)"
proof -
  note rows = case_rows_take [OF _ assms(2-4)]
  have "rmap (case_row get_utf8 get_utf8 (map (pick idx) whens) (map (arr_take idx) thens) (arr_take idx els)) [0..<length idx]
      = Ok (pick idx vs)" if "rmap (case_row get_utf8 get_utf8 whens thens els) [0..<n] = Ok vs" for vs
    by (rule rows [OF that]) (simp add: get_take)
  moreover have "rmap (case_row get_int64 get_int64 (map (pick idx) whens) (map (arr_take idx) thens) (arr_take idx els)) [0..<length idx]
      = Ok (pick idx vs)" if "rmap (case_row get_int64 get_int64 whens thens els) [0..<n] = Ok vs" for vs
    by (rule rows [OF that]) (simp add: get_take)
  moreover have "rmap (case_row get_bool get_bool (map (pick idx) whens) (map (arr_take idx) thens) (arr_take idx els)) [0..<length idx]
      = Ok (pick idx vs)" if "rmap (case_row get_bool get_bool whens thens els) [0..<n] = Ok vs" for vs
    by (rule rows [OF that]) (simp add: get_take)
  moreover have "rmap (case_row (get_f64 env) (get_f64 env) (map (pick idx) whens) (map (arr_take idx) thens) (arr_take idx els)) [0..<length idx]
      = Ok (pick idx vs)" if "rmap (case_row (get_f64 env) (get_f64 env) whens thens els) [0..<n] = Ok vs" for vs
    by (rule rows [OF that]) (simp add: get_take)
  moreover have "rmap (case_row (get_timestamp env) (extract_timestamp_micros env) (map (pick idx) whens) (map (arr_take idx) thens)
      (arr_take idx els)) [0..<length idx] = Ok (pick idx vs)"
    if "rmap (case_row (get_timestamp env) (extract_timestamp_micros env) whens thens els) [0..<n] = Ok vs" for vs
    by (rule rows [OF that]) (simp add: get_take extract_take)
  ultimately show ?thesis
    using ok unfolding case_array_def by (auto simp: rbind_Ok split: DataType.splits if_splits)
qed

lemma literal_as_type_take:
  assumes "literal_as_type env bs dt n = Ok a" and "\<forall>i \<in> set idx. i < n"
  shows "literal_as_type env bs dt (length idx) = Ok (arr_take idx a)"
  using assms by (auto simp: literal_as_type_def nulls_of_type_def rbind_Ok split: if_splits DataType.splits)

lemma as_type_take:
  assumes "eval_expr_as_type env e dt n arr = Ok a" and "\<forall>i \<in> set idx. i < n"
    and "\<And>x. arr = Ok x \<Longrightarrow> arr' = Ok (arr_take idx x)"
  shows "eval_expr_as_type env e dt (length idx) arr' = Ok (arr_take idx a)"
  using assms by (cases e) (auto simp: eval_expr_as_type_def literal_as_type_take)

lemma typed_operands_take:
  assumes "typed_operands env n l r larr rarr = Ok (x, y)" and "\<forall>i \<in> set idx. i < n"
    and "\<And>x. larr = Ok x \<Longrightarrow> larr' = Ok (arr_take idx x)" and "\<And>x. rarr = Ok x \<Longrightarrow> rarr' = Ok (arr_take idx x)"
  shows "typed_operands env (length idx) l r larr' rarr' = Ok (arr_take idx x, arr_take idx y)"
proof -
  obtain dt where dt: "resolve_operand_pair_type l r larr rarr = Ok dt" "eval_expr_as_type env l dt n larr = Ok x"
    "eval_expr_as_type env r dt n rarr = Ok y"
    using assms(1) unfolding typed_operands_Ok by blast
  have "resolve_operand_pair_type l r larr' rarr' = Ok dt"
    using dt(1) assms(3,4) by (auto simp: resolve_operand_pair_type_def rbind_Ok split: if_splits)
  then show ?thesis
    unfolding typed_operands_Ok using as_type_take [OF dt(2) assms(2,3)] as_type_take [OF dt(3) assms(2,4)] by blast
qed

lemma column_ints_take:
  "column_ints a = Ok xs \<Longrightarrow> \<forall>i \<in> set idx. i < arr_len a \<Longrightarrow> column_ints (arr_take idx a) = Ok (pick idx xs)"
  by (cases a) (auto simp: column_ints_def pick_map)

lemma literal_ints_take:
  "literal_ints bs n = Ok xs \<Longrightarrow> \<forall>i \<in> set idx. i < n \<Longrightarrow> literal_ints bs (length idx) = Ok (pick idx xs)"
  by (auto simp: literal_ints_def split: if_splits)

lemma literal_array_take: "\<forall>i \<in> set idx. i < n \<Longrightarrow> literal_array bs (length idx) = arr_take idx (literal_array bs n)"
  by (simp add: literal_array_def)

lemma batch_column_take: "batch_column b i = Ok a \<Longrightarrow> batch_column (batch_take idx b) i = Ok (arr_take idx a)"
  by (auto simp: batch_column_def batch_take_def split: if_splits)

lemma rmap_zip_take:
  assumes "rmap f (zip xs ys) = Ok zs" and "length xs = n" "length ys = n" and "\<forall>i \<in> set idx. i < n"
  shows "rmap f (zip (pick idx xs) (pick idx ys)) = Ok (pick idx zs)"
  using assms by (auto simp: rmap_Ok list_all2_conv_all_nth)

definition local_ok :: "ExprEnv \<Rightarrow> nat list \<Rightarrow> RecordBatch \<Rightarrow> bool" where
  "local_ok env idx b \<longleftrightarrow> env_ok env \<and> batch_ok b \<and> cast_local env idx \<and> rows_of idx b"

lemma local_okD:
  assumes "local_ok env idx b"
  shows "env_ok env" "batch_ok b" "cast_local env idx" "\<forall>i \<in> set idx. i < num_rows b"
  using assms by (simp_all add: local_ok_def rows_of_def)

lemma num_rows_take [simp]: "num_rows (batch_take idx b) = length idx"
  by (simp add: batch_take_def)

lemma comparison_local:
  assumes loc: "local_ok env idx b"
    and l: "\<And>x. eval_to_array env b l = Ok x \<Longrightarrow> eval_to_array env (batch_take idx b) l = Ok (arr_take idx x)"
    and r: "\<And>x. eval_to_array env b r = Ok x \<Longrightarrow> eval_to_array env (batch_take idx b) r = Ok (arr_take idx x)"
    and op: "op \<in> {Gt, Lt, Ge, Le, Eq, Ne}" and bs: "eval_bool env b (BinaryOp op l r) = Ok bs"
  shows "eval_bool env (batch_take idx b) (BinaryOp op l r) = Ok (pick idx bs)"
proof -
  obtain x y where ops: "typed_operands env (num_rows b) l r (eval_to_array env b l) (eval_to_array env b r) = Ok (x, y)"
    and cmp: "op \<in> {Gt, Lt, Ge, Le} \<and> eval_cmp_arrays env x y op = Ok bs
      \<or> op \<in> {Eq, Ne} \<and> eval_eq_ne_arrays env x y (op = Ne) = Ok bs"
    using bs op by (auto simp: rbind_Ok split: if_splits)
  note ops' = typed_operands_take [OF ops local_okD(4) [OF loc] l r]
  have len: "arr_len z = num_rows b" if "eval_to_array env b e = Ok z" for e z
    using evaluator_typed(3) [OF local_okD(1,2) [OF loc] that] by (simp add: typed_def)
  obtain dt where d: "eval_expr_as_type env l dt (num_rows b) (eval_to_array env b l) = Ok x"
    "eval_expr_as_type env r dt (num_rows b) (eval_to_array env b r) = Ok y"
    using ops unfolding typed_operands_Ok by blast
  have "arr_len x = num_rows b" "arr_len y = num_rows b"
    by (rule eval_expr_as_type_len [OF d(1)], rule len, assumption)
      (rule eval_expr_as_type_len [OF d(2)], rule len, assumption)
  note take = compare_take [OF this local_okD(4) [OF loc]]
  show ?thesis
    using cmp op by (elim disjE conjE) (auto simp: ops' rbind_Ok take)
qed

lemma case_type_take:
  "case_type br els arr = Ok dt \<Longrightarrow> is_literal els \<or> arr = Ok x \<and> arr' = Ok (arr_take idx x) \<Longrightarrow> case_type br els arr' = Ok dt"
  by (auto simp: case_type_def split: option.splits)

lemma case_local:
  assumes loc: "local_ok env idx b"
    and w: "\<And>ws. eval_whens env b wt = Ok ws \<Longrightarrow> eval_whens env (batch_take idx b) wt = Ok (map (pick idx) ws)"
    and bt: "branches_ok env b wt \<Longrightarrow> branch_type env (batch_take idx b) wt = branch_type env b wt"
    and t: "\<And>dt ts. eval_thens env b dt wt = Ok ts \<Longrightarrow> eval_thens env (batch_take idx b) dt wt = Ok (map (arr_take idx) ts)"
    and e: "\<And>x. eval_to_array env b els = Ok x \<Longrightarrow> eval_to_array env (batch_take idx b) els = Ok (arr_take idx x)"
    and a: "eval_to_array env b (Case wt els) = Ok a"
  shows "eval_to_array env (batch_take idx b) (Case wt els) = Ok (arr_take idx a)"
proof -
  note ok = local_okD(1,2) [OF loc] and idx = local_okD(4) [OF loc]
  obtain br dt whens thens x where br: "branch_type env b wt = Ok br"
    and dt: "case_type br els (eval_to_array env b els) = Ok dt"
    and wh: "eval_whens env b wt = Ok whens" and th: "eval_thens env b dt wt = Ok thens"
    and x: "eval_expr_as_type env els dt (num_rows b) (eval_to_array env b els) = Ok x"
    and ca: "case_array env dt (num_rows b) whens thens x = Ok a"
    and lit: "is_literal els \<or> eval_to_array env b els = Ok x"
    using a by (rule case_Ok)
  have br': "branch_type env (batch_take idx b) wt = Ok br" using bt evaluator_typed(6) [OF ok th] br by simp
  have dt': "case_type br els (eval_to_array env (batch_take idx b) els) = Ok dt"
    by (rule case_type_take [OF dt]) (use lit e in blast)
  have "arr_len x = num_rows b"
    using eval_expr_as_type_len [OF x] evaluator_typed(3) [OF ok] by (simp add: typed_def)
  then have "case_array env dt (length idx) (map (pick idx) whens) (map (arr_take idx) thens) (arr_take idx x) = Ok (arr_take idx a)"
    using case_array_take [OF ca idx] evaluator_typed(4) [OF ok wh] evaluator_typed(6) [OF ok th] by auto
  then show ?thesis
    unfolding eval_to_array.simps using br' dt' w [OF wh] t [OF th] as_type_take [OF x idx e] by simp
qed

lemma udf_call_local:
  assumes loc: "local_ok env idx b"
    and args: "\<And>x a. x \<in> set args \<Longrightarrow> eval_to_array env b x = Ok a \<Longrightarrow> eval_to_array env (batch_take idx b) x = Ok (arr_take idx a)"
    and name: "local_udf name (map (expr_type (schema b)) args)"
    and a: "eval_scalar_udf env (num_rows b) name (map (eval_to_array env b) args) = Ok a"
  shows "eval_scalar_udf env (length idx) name (map (eval_to_array env (batch_take idx b)) args) = Ok (arr_take idx a)"
proof -
  note ok = local_okD [OF loc]
  have "args_taken idx (map (eval_to_array env b) args) (map (eval_to_array env (batch_take idx b)) args)"
    using args by (auto simp: args_taken_def list_all2_map1 list_all2_map2 list_all2_same)
  moreover have "args_typed (num_rows b) (map (expr_type (schema b)) args) (map (eval_to_array env b) args)"
    by (rule args_typed_eval) (rule evaluator_typed(3) [OF ok(1,2)])
  ultimately show ?thesis using scalar_local [OF ok(3,4) _ _ name] a by (auto simp: rows_local_def)
qed

lemma ints_local:
  assumes loc: "local_ok env idx b"
    and l: "\<And>xs. eval_i64 env b l = Ok xs \<Longrightarrow> eval_i64 env (batch_take idx b) l = Ok (pick idx xs)"
    and r: "\<And>xs. eval_i64 env b r = Ok xs \<Longrightarrow> eval_i64 env (batch_take idx b) r = Ok (pick idx xs)"
    and op: "arithmetic op" and xs: "eval_i64 env b (BinaryOp op l r) = Ok xs"
  shows "eval_i64 env (batch_take idx b) (BinaryOp op l r) = Ok (pick idx xs)"
proof -
  note ok = local_okD [OF loc]
  obtain us vs where uv: "eval_i64 env b l = Ok us" "eval_i64 env b r = Ok vs"
    and z: "rmap (\<lambda>(x, y). int_arith op x y) (zip us vs) = Ok xs"
    using xs op by (auto simp: rbind_Ok)
  show ?thesis using rmap_zip_take [OF z _ _ ok(4)] evaluator_typed(1) [OF ok(1,2)] uv l r op by simp
qed

lemma arith_array_local:
  assumes loc: "local_ok env idx b"
    and l: "\<And>x. eval_to_array env b l = Ok x \<Longrightarrow> eval_to_array env (batch_take idx b) l = Ok (arr_take idx x)"
    and r: "\<And>x. eval_to_array env b r = Ok x \<Longrightarrow> eval_to_array env (batch_take idx b) r = Ok (arr_take idx x)"
    and ints: "\<And>xs. eval_i64 env b (BinaryOp op l r) = Ok xs \<Longrightarrow>
      eval_i64 env (batch_take idx b) (BinaryOp op l r) = Ok (pick idx xs)"
    and op: "arithmetic op" and arr: "eval_to_array env b (BinaryOp op l r) = Ok a"
  shows "eval_to_array env (batch_take idx b) (BinaryOp op l r) = Ok (arr_take idx a)"
proof -
  note ok = local_okD [OF loc]
  obtain x y where xy: "eval_to_array env b l = Ok x" "eval_to_array env b r = Ok y"
    and a: "arith_to_array env op (num_rows b) x y (eval_i64 env b (BinaryOp op l r)) = Ok a"
    using op arr by (auto simp: rbind_Ok simp del: eval_i64.simps)
  have "arith_to_array env op (length idx) (arr_take idx x) (arr_take idx y)
      (eval_i64 env (batch_take idx b) (BinaryOp op l r)) = Ok (arr_take idx a)"
    using arith_to_array_take [OF a _ _ ok(4)] evaluator_typed(1,3) [OF ok(1,2)] xy ints
    by (simp add: typed_def del: eval_i64.simps)
  then show ?thesis using l r xy op by (simp del: eval_i64.simps)
qed

lemma evaluator_local:
  "local_ok env idx b \<Longrightarrow> local_calls (schema b) e \<Longrightarrow> eval_i64 env b e = Ok xs \<Longrightarrow>
     eval_i64 env (batch_take idx b) e = Ok (pick idx xs)"
  "local_ok env idx b \<Longrightarrow> local_calls (schema b) e \<Longrightarrow> eval_bool env b e = Ok bs \<Longrightarrow>
     eval_bool env (batch_take idx b) e = Ok (pick idx bs)"
  "local_ok env idx b \<Longrightarrow> local_calls (schema b) e \<Longrightarrow> eval_to_array env b e = Ok a \<Longrightarrow>
     eval_to_array env (batch_take idx b) e = Ok (arr_take idx a)"
  "local_ok env idx b \<Longrightarrow> local_branches (schema b) wt \<Longrightarrow> eval_whens env b wt = Ok ws \<Longrightarrow>
     eval_whens env (batch_take idx b) wt = Ok (map (pick idx) ws)"
  "local_ok env idx b \<Longrightarrow> local_branches (schema b) wt \<Longrightarrow> branches_ok env b wt \<Longrightarrow>
     branch_type env (batch_take idx b) wt = branch_type env b wt"
  "local_ok env idx b \<Longrightarrow> local_branches (schema b) wt \<Longrightarrow> eval_thens env b dt wt = Ok ts \<Longrightarrow>
     eval_thens env (batch_take idx b) dt wt = Ok (map (arr_take idx) ts)"
proof (induction env b e and env b e and env b e and env b wt and env b wt and env b dt wt
    arbitrary: xs and bs and a and ws and and ts
    rule: eval_i64_eval_bool_eval_to_array_eval_whens_branch_type_eval_thens.induct)
  case (1 env b i)
  note loc = local_okD [OF "1.prems"(1)]
  obtain a where a: "batch_column b i = Ok a" "column_ints a = Ok xs" using "1.prems"(3) by (auto simp: rbind_Ok)
  then show ?case
    using batch_column_take column_ints_take [OF a(2)] batch_column_typed [OF loc(2) a(1)] loc(4) by simp
next
  case (2 env b bs)
  then show ?case using literal_ints_take local_okD(4) by simp
next
  case (3 env b op l r)
  note ok = local_okD [OF "3.prems"(1)]
  have calls: "local_calls (schema b) l" "local_calls (schema b) r" using "3.prems"(2) by simp_all
  show ?case
  proof (cases "arithmetic op")
    case True
    then show ?thesis using ints_local [OF "3.prems"(1) _ _ True "3.prems"(3)] "3.IH"(1,2) calls "3.prems"(1) by blast
  next
    case False
    then obtain bs where bs: "eval_bool env b (BinaryOp op l r) = Ok bs" "xs = map (\<lambda>t. if t then 1 else 0) bs"
      using "3.prems"(3) by (auto simp: rbind_Ok)
    show ?thesis
      using "3.IH"(3) [OF False "3.prems"(1,2) bs(1)] False evaluator_typed(2) [OF ok(1,2) bs(1)] ok(4)
      by (simp add: bs(2) pick_map)
  qed
next
  case (4 env b name args)
  note loc = local_okD [OF "4.prems"(1)]
  obtain a where a: "eval_scalar_udf env (num_rows b) name (map (eval_to_array env b) args) = Ok a" "column_ints a = Ok xs"
    using "4.prems"(3) by (auto simp: rbind_Ok)
  have "arr_len a = num_rows b" by (rule udf_call_typed [OF loc(1) _ a(1), THEN conjunct1]) (rule evaluator_typed(3) [OF loc(1,2)])
  then show ?case
    using udf_call_local [OF "4.prems"(1) _ _ a(1)] "4.IH" "4.prems"(1,2) column_ints_take [OF a(2)] loc(4) by simp
next
  case (5 env b wt els)
  note ok = local_okD [OF "5.prems"(1)]
  obtain ys where ys: "eval_to_array env b (Case wt els) = Ok (Int64Array ys)" and xs: "xs = map or_zero ys"
    using "5.prems"(3) by (auto simp: rbind_Ok int64_case_Ok simp del: eval_to_array.simps)
  have "length ys = num_rows b" using evaluator_typed(3) [OF ok(1,2) ys] by (simp add: typed_def)
  then show ?case using "5.IH" [OF "5.prems"(1,2) ys] ok(4) by (simp add: xs pick_map del: eval_to_array.simps)
next
  case (6 env b op l r)
  note ok = local_okD [OF "6.prems"(1)]
  have calls: "local_calls (schema b) l" "local_calls (schema b) r" using "6.prems"(2) by simp_all
  show ?case
  proof (cases "op \<in> {Gt, Lt, Ge, Le, Eq, Ne}")
    case True
    then have "\<And>x. eval_to_array env b l = Ok x \<Longrightarrow> eval_to_array env (batch_take idx b) l = Ok (arr_take idx x)"
      "\<And>x. eval_to_array env b r = Ok x \<Longrightarrow> eval_to_array env (batch_take idx b) r = Ok (arr_take idx x)"
      using "6.IH"(1-4) "6.prems"(1) calls by auto
    then show ?thesis using comparison_local [OF "6.prems"(1) _ _ True "6.prems"(3)] by blast
  next
    case False
    then obtain f us vs where f: "op = And \<and> f = (\<and>) \<or> op = Or \<and> f = (\<or>)"
      and uv: "eval_bool env b l = Ok us" "eval_bool env b r = Ok vs" "bs = map2 f us vs"
      using connective_Ok [OF "6.prems"(3)] by blast
    have "eval_bool env (batch_take idx b) l = Ok (pick idx us)" "eval_bool env (batch_take idx b) r = Ok (pick idx vs)"
      using "6.IH"(5-8) uv f "6.prems"(1) calls by auto
    then show ?thesis
      using f uv(3) evaluator_typed(2) [OF ok(1,2) uv(1)] evaluator_typed(2) [OF ok(1,2) uv(2)] ok(4)
      by (auto simp: pick_map2)
  qed
next
  case (8 env b i)
  then show ?case using batch_column_take by simp
next
  case (9 env b bs)
  then show ?case using literal_array_take [OF local_okD(4) [OF "9.prems"(1)], of bs] by auto
next
  case (10 env b op l r)
  note ok = local_okD [OF "10.prems"(1)]
  have calls: "local_calls (schema b) l" "local_calls (schema b) r" using "10.prems"(2) by simp_all
  show ?case
  proof (cases "arithmetic op")
    case True
    then show ?thesis using arith_array_local [OF "10.prems"(1) _ _ _ True "10.prems"(3)] "10.IH"(1-3) "10.prems"(1,2) calls by blast
  next
    case False
    then obtain bs where bs: "eval_bool env b (BinaryOp op l r) = Ok bs" "a = BooleanArray (map Some bs)"
      using "10.prems"(3) by (auto simp: rbind_Ok simp del: eval_bool.simps)
    then show ?thesis
      using "10.IH"(4) [OF False "10.prems"(1,2) bs(1)] False evaluator_typed(2) [OF ok(1,2) bs(1)] ok(4)
      by (simp add: pick_map del: eval_bool.simps)
  qed
next
  case (11 env b name args)
  then show ?case using udf_call_local [OF "11.prems"(1)] by simp
next
  case (12 env b wt els)
  have "local_branches (schema b) wt" "local_calls (schema b) els" using "12.prems"(2) by (simp_all add: local_branches_def)
  then show ?case
    using case_local [OF "12.prems"(1) _ _ _ _ "12.prems"(3)] "12.IH" "12.prems"(1) by blast
next
  case (16 env b w t wt)
  then have tail: "branches_ok env b wt" "local_branches (schema b) wt" "local_calls (schema b) t"
    and head: "is_literal t \<or> is_ok (eval_to_array env b t)"
    by (simp_all add: branches_ok_def local_branches_def)
  then show ?case using "16.IH" "16.prems"(1) by (auto simp: is_ok_iff)
next
  case (18 env b dt w t wt)
  note ok = local_okD [OF "18.prems"(1)]
  obtain x ys where x: "eval_expr_as_type env t dt (num_rows b) (eval_to_array env b t) = Ok x"
    and ys: "eval_thens env b dt wt = Ok ys" "ts = x # ys" using "18.prems"(3) by (auto simp: rbind_Ok)
  have calls: "local_calls (schema b) t" "local_branches (schema b) wt" using "18.prems"(2) by (simp_all add: local_branches_def)
  show ?case
    using as_type_take [OF x ok(4) "18.IH"(1) [OF "18.prems"(1) calls(1)]] "18.IH"(2) [OF "18.prems"(1) calls(2) ys(1)] ys(2)
    by simp
qed (auto simp: rbind_Ok local_branches_def)

section \<open>Properties\<close>



definition lit :: "i64 \<Rightarrow> Expr" where
  "lit v = Literal (to_be 8 (bits v))"

definition demo_batch :: RecordBatch where
  "demo_batch = \<lparr>num_rows = 2, columns = [Int64Array [Some 1, None], BooleanArray [Some True, Some False]]\<rparr>"

definition demo_expr :: Expr where
  "demo_expr = Case [(BinaryOp Eq (Column 0) (lit 1), BinaryOp Add (Column 0) (lit 1))] (ScalarUdf ''coalesce'' [Column 0, lit 0])"

lemma demo_evaluable: "evaluable demo_env demo_batch" "rows_of [1, 0, 0] demo_batch"
  using demo_env_ok(1) by (auto simp: evaluable_def batch_ok_def demo_batch_def rows_of_def)

lemmas eval_defs = typed_operands_def resolve_operand_pair_type_def eval_expr_as_type_def literal_as_type_def
  literal_i64_def literal_utf8_def literal_array_def nulls_of_type_def case_array_def case_type_def arith_to_array_def floats_def
  eval_cmp_arrays_def eval_eq_ne_arrays_def when_both_def batch_column_def is_null_def cell_value_def arithmetic_def
  column_ints_def literal_ints_def or_zero_def int_arith_def as_micros_def upt_rec
  eval_scalar_udf_def udf_coalesce_def all_args_def coalesce_target_def int_rows_def extract_i64_def unless_null_def int_cell_def

lemma lit_eval: "i64_from_be [0, 0, 0, 0, 0, 0, 0, 1] = 1" "i64_from_be [0, 0, 0, 0, 0, 0, 0, 0] = 0" "lit 1 = Literal [0, 0, 0, 0, 0, 0, 0, 1]"
  "lit 0 = Literal [0, 0, 0, 0, 0, 0, 0, 0]" "utf8_ok [0, 0, 0, 0, 0, 0, 0, 1]" "utf8_ok [0, 0, 0, 0, 0, 0, 0, 0]"
  "i64_checked_add 1 1 = Some (of_ival 2)" "(1 :: i64) \<noteq> CASE_MISSING_ELSE_SENTINEL" "(0 :: i64) \<noteq> CASE_MISSING_ELSE_SENTINEL" "of_ival 2 \<noteq> CASE_MISSING_ELSE_SENTINEL"
  by code_simp+

lemma demo_eval: "eval_to_array demo_env demo_batch demo_expr = Ok (Int64Array [Some (of_ival 2), Some 0])"
  by (simp add: demo_expr_def demo_batch_def eval_defs lit_eval numeral_2_eq_2)

lemma demo_static: "safe_expr (schema demo_batch) demo_expr" "local_calls (schema demo_batch) demo_expr"
  by (simp_all add: demo_expr_def boolean_branches_def lit_def arith_type_def rebuilt_type_def is_micros_def total_udf_def
      arithmetic_def schema_def demo_batch_def local_udf_def coalesce_target_def coalesce_type_def udf_type_def)



section \<open>Where CASE and NULL differ from SQL\<close>

text \<open>
  A missing \<open>ELSE\<close> is lowered to the 8-byte literal of the sentinel. Only an integer \<open>CASE\<close> turns it into
  a null: as a float it is the value with the bit pattern of minus zero, as a boolean it is true, as a
  timestamp it is the smallest one, and as text it is an error.
\<close>

definition missing_else :: bytes where
  "missing_else = to_be 8 (bits CASE_MISSING_ELSE_SENTINEL)"

lemma missing_else_simps:
  "missing_else \<noteq> []" "length missing_else = 8" "hd missing_else \<noteq> 0" "\<not> utf8_ok missing_else"
  "i64_from_be missing_else = CASE_MISSING_ELSE_SENTINEL" "from_be missing_else = (0x8000000000000000 :: u64)"
  by code_simp+

lemma case_missing_else:
  "literal_as_type env missing_else Float64 n = Ok (Float64Array (replicate n (Some 0x8000000000000000)))"
  "literal_as_type env missing_else Boolean n = Ok (BooleanArray (replicate n (Some True)))"
  "literal_as_type env missing_else (Timestamp Microsecond tz) n
     = Ok (TimestampArray Microsecond None (replicate n (Some CASE_MISSING_ELSE_SENTINEL)))"
  "literal_as_type env missing_else Utf8 n = Err InvalidLiteral"
  by (simp_all add: literal_as_type_def literal_i64_def literal_utf8_def missing_else_simps)

text \<open>A boolean \<open>CASE\<close> without \<open>ELSE\<close> is true on a row that matches no branch.\<close>

lemma case_boolean_missing_else:
  "eval_to_array demo_env demo_batch (Case [(BinaryOp Eq (Column 0) (lit 1), Column 1)] (Literal missing_else))
     = Ok (BooleanArray [Some True, Some True])"
  by (simp add: demo_batch_def eval_defs lit_eval missing_else_simps numeral_2_eq_2 del: utf8_ok.simps)

text \<open>A \<open>CASE\<close> whose values are all integer literals gives text, which no integer context accepts.\<close>

lemma case_integer_literals:
  "eval_to_array demo_env demo_batch (Case [(BinaryOp Eq (Column 0) (lit 1), lit 1)] (lit 0))
     = Ok (StringArray [Some [0, 0, 0, 0, 0, 0, 0, 1], Some [0, 0, 0, 0, 0, 0, 0, 0]])
   \<and> eval_i64 demo_env demo_batch (Case [(BinaryOp Eq (Column 0) (lit 1), lit 1)] (lit 0)) = Err Unimplemented"
  by (simp add: demo_batch_def eval_defs lit_eval missing_else_simps numeral_2_eq_2 del: utf8_ok.simps)

text \<open>Integer arithmetic reads a null as zero, also where the result is an array.\<close>

lemma null_plus_one:
  "eval_to_array demo_env demo_batch (BinaryOp Add (Column 0) (lit 1)) = Ok (Int64Array [Some (of_ival 2), Some 1])"
  by (simp add: demo_batch_def eval_defs lit_eval missing_else_simps numeral_2_eq_2 del: utf8_ok.simps)

text \<open>A boolean \<open>CASE\<close> with an integer branch panics on the row that takes the branch.\<close>

lemma case_boolean_panic:
  "eval_to_array demo_env demo_batch (Case [(BinaryOp Ne (Column 0) (lit 1), Column 1),
     (BinaryOp Eq (Column 0) (lit 1), Column 0)] (Literal [])) = Panic"
  by (simp add: demo_batch_def eval_defs lit_eval missing_else_simps numeral_2_eq_2 del: utf8_ok.simps)

end
