(* ===== verification/Literals.thy ===== *)
theory Literals
  imports Expressions
begin

text \<open>
  The encoding of literals: \<open>encode_scalar\<close> of \<open>rockstream-sql/src/lower.rs\<close> turns a scalar of the SQL
  front end into the bytes of \<open>Expr::Literal\<close>, which the evaluator decodes by the type it expects. The
  scalars are those of DataFusion that the function lists; \<open>f64_of_f32\<close> is the widening of floats.
\<close>

section \<open>Encoding\<close>

datatype ScalarValue =
    SNull
  | SInt8 "u8 option" | SInt16 "16 word option" | SInt32 "u32 option" | SInt64 "i64 option"
  | SUInt8 "u8 option" | SUInt16 "16 word option" | SUInt32 "u32 option" | SUInt64 "u64 option"
  | SFloat32 "u32 option" | SFloat64 "u64 option"
  | SBoolean "bool option"
  | SUtf8 "bytes option" | SLargeUtf8 "bytes option" | SUtf8View "bytes option"
  | SDate32 "u32 option" | SDate64 "i64 option"
  | STimestamp TimeUnit "i64 option"
  | SIntervalMonthDayNano "(u32 \<times> u32 \<times> i64) option"
  | SIntervalDayTime "(u32 \<times> u32) option"
  | SIntervalYearMonth "u32 option"
  | SOther

definition i64_bytes :: "i64 \<Rightarrow> bytes" where
  "i64_bytes v = to_be 8 (bits v)"

definition sat_mul :: "i64 \<Rightarrow> int \<Rightarrow> i64" where
  "sat_mul x k = i64_saturate (ival x * k)"

definition sat_add :: "i64 \<Rightarrow> i64 \<Rightarrow> i64" where
  "sat_add x y = i64_saturate (ival x + ival y)"

definition DAY_MICROS :: int where "DAY_MICROS = 86400000000"

definition enc :: "('a \<Rightarrow> i64) \<Rightarrow> 'a option \<Rightarrow> (unit, bytes) result" where
  "enc f v = Ok (case v of None \<Rightarrow> [] | Some x \<Rightarrow> i64_bytes (f x))"

definition encode_scalar :: "(u32 \<Rightarrow> u64) \<Rightarrow> ScalarValue \<Rightarrow> (unit, bytes) result" where
  "encode_scalar f64_of_f32 s =
     (case s of
        SNull \<Rightarrow> Ok []
      | SInt8 v \<Rightarrow> enc (\<lambda>x. of_ival (sint x)) v
      | SInt16 v \<Rightarrow> enc (\<lambda>x. of_ival (sint x)) v
      | SInt32 v \<Rightarrow> enc i32_as_i64 v
      | SInt64 v \<Rightarrow> enc (\<lambda>x. x) v
      | SUInt8 v \<Rightarrow> enc (\<lambda>x. of_ival (uint x)) v
      | SUInt16 v \<Rightarrow> enc (\<lambda>x. of_ival (uint x)) v
      | SUInt32 v \<Rightarrow> enc (\<lambda>x. of_ival (uint x)) v
      | SUInt64 v \<Rightarrow> enc (\<lambda>x. I64 x) v
      | SFloat64 v \<Rightarrow> Ok (case v of None \<Rightarrow> [] | Some x \<Rightarrow> to_be 8 x)
      | SFloat32 v \<Rightarrow> Ok (case v of None \<Rightarrow> [] | Some x \<Rightarrow> to_be 8 (f64_of_f32 x))
      | SBoolean v \<Rightarrow> Ok (case v of None \<Rightarrow> [] | Some x \<Rightarrow> [if x then 1 else 0])
      | SUtf8 v \<Rightarrow> Ok (case v of None \<Rightarrow> [] | Some x \<Rightarrow> x)
      | SLargeUtf8 v \<Rightarrow> Ok (case v of None \<Rightarrow> [] | Some x \<Rightarrow> x)
      | SUtf8View v \<Rightarrow> Ok (case v of None \<Rightarrow> [] | Some x \<Rightarrow> x)
      | SDate32 v \<Rightarrow> enc i32_as_i64 v
      | SDate64 v \<Rightarrow> enc (\<lambda>x. x) v
      | STimestamp unit v \<Rightarrow> enc (case unit of
            Second \<Rightarrow> (\<lambda>x. sat_mul x 1000000)
          | Millisecond \<Rightarrow> (\<lambda>x. sat_mul x 1000)
          | Microsecond \<Rightarrow> (\<lambda>x. x)
          | Nanosecond \<Rightarrow> (\<lambda>x. of_ival (ival x sdiv 1000))) v
      | SIntervalMonthDayNano v \<Rightarrow> enc (\<lambda>(months, days, nanos).
          sat_add (sat_add (sat_mul (i32_as_i64 days) DAY_MICROS) (of_ival (ival nanos sdiv 1000)))
            (sat_mul (i32_as_i64 months) (30 * DAY_MICROS))) v
      | SIntervalDayTime v \<Rightarrow> enc (\<lambda>(days, millis).
          sat_add (sat_mul (i32_as_i64 days) DAY_MICROS) (sat_mul (i32_as_i64 millis) 1000)) v
      | SIntervalYearMonth v \<Rightarrow> enc (\<lambda>x. sat_mul (i32_as_i64 x) (30 * DAY_MICROS)) v
      | SOther \<Rightarrow> Err ())"

section \<open>Decoding\<close>

lemma i64_bytes_simps [simp]:
  "length (i64_bytes v) = 8" "i64_bytes v \<noteq> []" "i64_from_be (i64_bytes v) = v"
proof -
  show len: "length (i64_bytes v) = 8" by (simp add: i64_bytes_def)
  then show "i64_bytes v \<noteq> []" by force
  show "i64_from_be (i64_bytes v) = v" by (cases v) (simp add: i64_bytes_def i64_from_be_def from_be_to_be)
qed

text \<open>The column of a literal: the scalar is lowered to bytes, and the bytes are decoded at a type.\<close>

definition literal_column ::
  "ExprEnv \<Rightarrow> (u32 \<Rightarrow> u64) \<Rightarrow> ScalarValue \<Rightarrow> DataType \<Rightarrow> nat \<Rightarrow> (ExprError, Arr) result" where
  "literal_column env conv sc dt n =
     (case encode_scalar conv sc of
        Ok bs \<Rightarrow> eval_expr_as_type env (Literal bs) dt n (Ok (literal_array bs n))
      | _ \<Rightarrow> Err Unimplemented)"

lemma literal_columns:
  "literal_column env conv (SInt64 (Some v)) Int64 n = Ok (Int64Array (replicate n (Some v)))"
  "literal_column env conv (SInt32 (Some w)) Int64 n = Ok (Int64Array (replicate n (Some (of_ival (sint w)))))"
  "literal_column env conv (SUInt32 (Some w)) Int64 n = Ok (Int64Array (replicate n (Some (of_ival (uint w)))))"
  "literal_column env conv (SFloat64 (Some x)) Float64 n = Ok (Float64Array (replicate n (Some x)))"
  "literal_column env conv (SBoolean (Some q)) Boolean n = Ok (BooleanArray (replicate n (Some q)))"
  "s \<noteq> [] \<Longrightarrow> utf8_ok s \<Longrightarrow> literal_column env conv (SUtf8 (Some s)) Utf8 n = Ok (StringArray (replicate n (Some s)))"
  "literal_column env conv (STimestamp Microsecond (Some v)) (Timestamp Microsecond tz) n
     = Ok (TimestampArray Microsecond None (replicate n (Some v)))"
  "literal_column env conv SNull dt n = Ok (nulls_of_type dt n)"
proof -
  note defs = literal_column_def eval_expr_as_type_def encode_scalar_def enc_def literal_as_type_def literal_i64_def
    literal_utf8_def i32_as_i64_def
  have "to_be 8 x \<noteq> []" "from_be (to_be 8 x) = x"
    using length_to_be [of 8 x] by (auto simp: from_be_to_be simp del: length_to_be)
  then show "literal_column env conv (SFloat64 (Some x)) Float64 n = Ok (Float64Array (replicate n (Some x)))"
    by (simp add: defs)
qed (simp_all add: literal_column_def eval_expr_as_type_def encode_scalar_def enc_def literal_as_type_def literal_i64_def
    literal_utf8_def i32_as_i64_def)



section \<open>Literals whose meaning is lost\<close>

text \<open>
  The empty text has the bytes of a null, so a comparison with it is never true. Where the array of a
  literal is taken without an expected type, as for the arguments of a function, a text of eight bytes
  is read as an integer and a boolean as text. Comparisons with \<open>Int32\<close> and \<open>Date32\<close> columns reject every
  literal.
\<close>

lemma empty_text_is_null:
  "encode_scalar conv (SUtf8 (Some [])) = encode_scalar conv SNull"
  "literal_column env conv (SUtf8 (Some [])) Utf8 n = Ok (StringArray (replicate n None))"
  by (simp_all add: encode_scalar_def literal_column_def eval_expr_as_type_def literal_as_type_def nulls_of_type_def)

lemma empty_text_never_equal:
  "eval_bool env \<lparr>num_rows = 1, columns = [StringArray [Some []]]\<rparr> (BinaryOp Eq (Column 0) (Literal [])) = Ok [False]"
  by (simp add: typed_operands_def resolve_operand_pair_type_def batch_column_def eval_expr_as_type_def
      literal_as_type_def nulls_of_type_def eval_eq_ne_arrays_def when_both_def)

lemma eight_byte_text_is_integer:
  "length s = 8 \<Longrightarrow> encode_scalar conv (SUtf8 (Some s)) = Ok bs \<Longrightarrow> literal_array bs n = Int64Array (replicate n (Some (i64_from_be s)))"
  by (auto simp: encode_scalar_def literal_array_def)

lemma boolean_literal_is_text:
  "encode_scalar conv (SBoolean (Some True)) = Ok [1]" "literal_array [1] n = StringArray (replicate n (Some [1]))"
  by (simp_all add: encode_scalar_def literal_array_def)

lemma int32_literal_rejected:
  "eval_bool env \<lparr>num_rows = 1, columns = [Int32Array [Some 1]]\<rparr> (BinaryOp Eq (Column 0) (lit v)) = Err ExprTypeMismatch"
  "eval_bool env \<lparr>num_rows = 1, columns = [Date32Array [Some 1]]\<rparr> (BinaryOp Eq (Column 0) (lit v)) = Err ExprTypeMismatch"
  using length_to_be [of 8 "bits v"]
  by (auto simp: typed_operands_def resolve_operand_pair_type_def batch_column_def eval_expr_as_type_def
      literal_as_type_def lit_def simp del: length_to_be)

end
