(* ===== verification/Spec2Isabelle.thy ===== *)
theory Spec2Isabelle
  imports MergeOperator PhysicalCommit FrontierAgg ScatterRead Progress ZSets DistinctPersist FlowControl Literals
begin

text \<open>
  A verification development of rockstream, a distributed engine that keeps SQL views up to date
  incrementally. Paths below are relative to \<open>src/crates\<close>.

  \<^bold>\<open>The program.\<close> Operators (\<open>rockstream-ops\<close>) turn deltas of their inputs into deltas of a view.
  Their state is written in batches to a key-value store per shard (\<open>rockstream-storage\<close>), whose merge
  operator combines operands by registered laws (\<open>rockstream-types\<close>). A group-commit driver makes
  epochs durable and acknowledges them. The control plane (\<open>rockstream-control\<close>) collects durable
  frontiers from the shards and publishes their meet under a lease. The gateway
  (\<open>rockstream-gateway\<close>) reads from several shards, skipping those whose statistics exclude a match.
  Decisions shared by these parts are pure kernels (\<open>rockstream-verified\<close>).

  \<^bold>\<open>The theories.\<close>

  \<^item> \<open>Prelude\<close>: machine integers, the three ways a call ends (\<open>Ok\<close>, \<open>Err\<close>, \<open>Panic\<close>), ordered maps,
    big-endian bytes, and the locales for codecs and transition systems.
  \<^item> \<open>Kernels\<close>: every function of \<open>rockstream-verified/src\<close>, one section per file.
  \<^item> \<open>MergeLaws\<close>: the laws of \<open>rockstream-types/src/laws\<close> and \<open>merge_law.rs\<close>. The locale \<open>merge_law\<close> is the
    contract of a law; both built-in laws interpret it.
  \<^item> \<open>MergeOperator\<close>: the merge operator of \<open>rockstream-storage/src/merge_registry.rs\<close> and the law-aware
    reads of \<open>shard_db.rs\<close>.
  \<^item> \<open>Keys\<close>: the key layouts of \<open>rockstream-storage/src/keys.rs\<close>, with their decoders, scan prefixes and
    sort keys.
  \<^item> \<open>Storage\<close>: write batches of \<open>shard_db.rs\<close> and their effect on the contents of a shard.
  \<^item> \<open>PhysicalCommit\<close>: the group-commit driver of \<open>rockstream-ops/src/group_commit/physical.rs\<close> as a step
    relation whose steps are the code's critical sections.
  \<^item> \<open>FrontierAgg\<close>: frontier aggregation, membership and the publisher lease of
    \<open>rockstream-control/src/frontier.rs\<close>, as a cluster of aggregators over one lease store.
  \<^item> \<open>Progress\<close>: source progress and freshness tokens of \<open>rockstream-types/src/frontier.rs\<close>.
  \<^item> \<open>FlowControl\<close>: the flow controller of \<open>rockstream-runtime/src/exchange/flow_control.rs\<close>, with the
    interleaving of the calls of its clients.
  \<^item> \<open>ScatterRead\<close>: column statistics, membership filters, shard pruning and the merged read of
    \<open>rockstream-gateway/src/multi_shard_reader.rs\<close>.
  \<^item> \<open>ZSets\<close>: the Z-set map of \<open>rockstream-types/src/batch.rs\<close>, the batches of
    \<open>rockstream-ops/src/zset.rs\<close>, the filter operator, and the contract \<open>delta_operator\<close> of an incremental
    operator.
  \<^item> \<open>Arrays\<close>, \<open>ScalarFunctions\<close>, \<open>Expressions\<close> and \<open>Literals\<close>: the expression evaluator of
    \<open>rockstream-ops/src/expr.rs\<close> over record batches, from the reading of a cell and the scalar functions
    to the three evaluation contexts, and the encoding of literals by \<open>rockstream-sql/src/lower.rs\<close>.
  \<^item> \<open>Distinct\<close> and \<open>DistinctPersist\<close>: the distinct, intersect and except operators of
    \<open>rockstream-ops/src/distinct.rs\<close>, which satisfy that contract, and the persistence of the distinct
    state.

  \<^bold>\<open>What the lemmas show.\<close> Kernels: codec round trips, order-preserving keys, exact decision tables.
  Merge laws and operator: any grouping and order of operands gives the same value wherever the exact
  sums fit, malformed operands never change a value. Keys: injectivity, exact prefixes, round trips.
  Commit driver: acknowledged epochs are durable, survive a crash and are never admitted twice; the
  counters are exact and within their bounds; no assertion fails; a healthy round commits. Frontiers:
  what is published has been made durable by every active member; one publisher at a time. Scatter
  reads: pruning loses no row. Operators: the emitted deltas add up to the view of the collected
  input, and a restored operator has exactly the state of the last applied batch. Flow control: the
  in-flight counters are exact and within their limits, and a retired channel never opens again.
  Expressions: a column has the static type of its expression, evaluation does not panic outside the
  listed cases, rows are evaluated independently, the null-handling and text functions compute what
  they name, and literals decode to the values they were lowered from. The last sections of these
  theories show where the evaluator departs from SQL.

  \<^bold>\<open>Conventions.\<close> Unsigned integers are words; \<open>i64\<close> is a type of its own, ordered by its signed
  value. Every build profile keeps overflow checks on, so a plain addition that leaves its type is a
  \<open>Panic\<close>. Counters of type \<open>usize\<close> and byte counters are natural numbers. A \<open>HashMap\<close> is an ordered
  map; no statement depends on its iteration order. A call that holds a mutex is one step. Storage,
  object stores, hashing, Arrow kernels, floating point, Unicode tables, regular
  expressions, the calendar and the clock are parameters or nondeterministic outcomes; a
  storage call that reports an error may have taken effect. Loops are structural recursions over their
  data or over the retry count of the code, so no fuel is needed.

  \<^bold>\<open>Not modelled.\<close> The SQL front end, the wire protocols, the connectors, the command line, metrics and
  documentation generators translate or format data at the boundary of external systems and hold
  little state of their own. The remaining operators (joins, aggregates, windows, recursion), the
  consensus log of the control plane and the migration of shards are not covered yet.
\<close>

end
